(* ===== verification/Mx_Prelude.thy ===== *)
theory Mx_Prelude
  imports Main "HOL-Library.Word"
begin

text \<open>
  The vocabulary that every component theory shares: the machine integers of the i386 target, the
  byte-addressed physical memory that pointers of the C code designate, little-endian 32-bit
  accesses, C strings, and generic facts about lists and words.

  Addresses are 32-bit words and wrap as the hardware does. A memory \<^typ>\<open>32 word \<Rightarrow> 8 word\<close> is
  total: the first 4 MiB are identity-mapped by \<open>kernel/paging.c\<close>, and the kernel runs at CPL 0,
  so no access of the kernel itself is refused.
\<close>

unbundle bit_operations_syntax

type_synonym u8 = "8 word"
type_synonym u16 = "16 word"
type_synonym u32 = "32 word"
type_synonym mem = "u32 \<Rightarrow> u8"

text \<open>One \<open>outb\<close>: the port and the byte. A component that programs a device returns the list of
  its port writes, in program order.\<close>

type_synonym port_write = "u16 \<times> u8"

named_theorems region_simps \<open>membership in address ranges, and reads over writes\<close>
named_theorems kernel_defs \<open>definitions of kernel operations, for symbolic evaluation\<close>

subsection \<open>Address ranges\<close>

text \<open>The \<open>n\<close> bytes from \<open>a\<close> on, wrapping at 2\<open>^\<close>32 like pointer arithmetic.\<close>

definition region :: "u32 \<Rightarrow> nat \<Rightarrow> u32 set" where
  "region a n = {x. unat (x - a) < n}"

lemma in_region: "x \<in> region a n \<longleftrightarrow> unat (x - a) < n"
  by (simp add: region_def)

lemma unat_sub_word: "unat (x - a) = (if unat a \<le> unat x then unat x - unat a
    else 2 ^ 32 + unat x - unat a)" for x a :: u32
proof (cases "unat a \<le> unat x")
  case True
  then show ?thesis by (simp add: unat_sub word_le_nat_alt)
next
  case False
  have a: "unat a < 4294967296" using unsigned_less [of a, where 'a = nat] by simp
  have "unat (x - a) = nat ((uint x - uint a) mod 4294967296)"
    by (simp add: unat_eq_nat_uint uint_word_ariths)
  also have "uint x - uint a = int (unat x) - int (unat a)" by simp
  also have "(int (unat x) - int (unat a)) mod 4294967296 =
      (int (unat x) - int (unat a) + 4294967296) mod 4294967296" by (simp only: mod_add_self2)
  also have "\<dots> = int (unat x) - int (unat a) + 4294967296"
    using False a by (intro mod_pos_pos_trivial) linarith+
  also have "nat \<dots> = 4294967296 + unat x - unat a" using a by linarith
  finally show ?thesis using False by simp
qed

lemma region_iff:
  assumes "unat a + n \<le> 2 ^ 32"
  shows "x \<in> region a n \<longleftrightarrow> unat a \<le> unat x \<and> unat x < unat a + n"
  using assms unsigned_less [of x] by (auto simp: in_region unat_sub_word)

lemma region_nat:
  "a + n \<le> 2 ^ 32 \<Longrightarrow> a < 2 ^ 32 \<Longrightarrow> x \<in> region (of_nat a) n \<longleftrightarrow> a \<le> unat x \<and> unat x < a + n"
  by (simp add: region_iff unat_of_nat)

lemma unat_plus_no_wrap: "unat a + n < 2 ^ 32 \<Longrightarrow> unat (a + of_nat n) = unat a + n" for a :: u32
  by (simp add: unat_word_ariths unat_of_nat)

lemma unat_plus_numeral:
  "unat a + numeral k < 2 ^ 32 \<Longrightarrow> unat (a + numeral k) = unat a + numeral k" for a :: u32
  using unat_plus_no_wrap [of a "numeral k"] by simp

lemma region_shift:
  assumes "n + k \<le> 2 ^ 32" "n < 2 ^ 32"
  shows "x \<in> region (a + of_nat n) k \<longleftrightarrow> x \<in> region a (n + k) \<and> x \<notin> region a n"
proof -
  have "unat (x - (a + of_nat n)) = unat ((x - a) - of_nat n)" by (simp only: diff_diff_eq)
  also have "\<dots> = (if unat (of_nat n :: u32) \<le> unat (x - a) then unat (x - a) - unat (of_nat n :: u32)
      else 2 ^ 32 + unat (x - a) - unat (of_nat n :: u32))" by (rule unat_sub_word)
  also have "unat (of_nat n :: u32) = n" using assms by (simp add: unat_of_nat)
  finally show ?thesis
    using assms unsigned_less [of "x - a", where 'a = nat] by (auto simp: in_region)
qed

lemma region_shift_numeral:
  assumes "numeral n + k \<le> (2 ^ 32 :: nat)"
  shows "x \<in> region (a + numeral n) k \<longleftrightarrow>
    x \<in> region a (numeral n + k) \<and> x \<notin> region a (numeral n)"
proof (cases "k = 0")
  case True
  then show ?thesis by (auto simp: in_region)
next
  case False
  with assms have "numeral n < (2 ^ 32 :: nat)" by linarith
  then show ?thesis using region_shift [of "numeral n" k x a] assms by simp
qed

lemma region_mono: "x \<in> region a n \<Longrightarrow> n \<le> k \<Longrightarrow> x \<in> region a k"
  by (simp add: in_region)

lemma unat_u32: "n < 2 ^ 32 \<Longrightarrow> unat (of_nat n :: u32) = n"
  by (simp add: unsigned_of_nat take_bit_nat_eq_self)

lemma of_nat_eq_0_u32: "a < 2 ^ 32 \<Longrightarrow> (of_nat a = (0 :: u32)) = (a = 0)"
  by (auto simp: word_of_nat_eq_0_iff dest: dvd_imp_le)

lemma of_nat_le_u32: "a < 2 ^ 32 \<Longrightarrow> b < 2 ^ 32 \<Longrightarrow> (of_nat a \<le> (of_nat b :: u32)) = (a \<le> b)"
  by (simp add: word_le_nat_alt unat_of_nat)

lemma of_nat_less_u32: "a < 2 ^ 32 \<Longrightarrow> b < 2 ^ 32 \<Longrightarrow> (of_nat a < (of_nat b :: u32)) = (a < b)"
  by (simp add: word_less_nat_alt unat_of_nat)

lemmas of_nat_u32 = of_nat_eq_0_u32 of_nat_le_u32 of_nat_less_u32

subsection \<open>Byte memory\<close>

text \<open>The loop \<^verbatim>\<open>for (k = 0; k < n; k++) dst[k] = b[k]\<close>: bytes stored at consecutive addresses,
  lowest first.\<close>

fun mem_write :: "mem \<Rightarrow> u32 \<Rightarrow> u8 list \<Rightarrow> mem" where
  "mem_write m a [] = m"
| "mem_write m a (b # bs) = mem_write (m(a := b)) (a + 1) bs"

definition mem_read :: "mem \<Rightarrow> u32 \<Rightarrow> nat \<Rightarrow> u8 list" where
  "mem_read m a n = map (\<lambda>k. m (a + of_nat k)) [0..<n]"

lemma length_mem_read [simp]: "length (mem_read m a n) = n"
  by (simp add: mem_read_def)

lemma nth_mem_read [simp]: "k < n \<Longrightarrow> mem_read m a n ! k = m (a + of_nat k)"
  by (simp add: mem_read_def)

lemma unat_sub_one: "x \<noteq> a \<Longrightarrow> unat (x - a) = Suc (unat (x - (a + 1)))" for x a :: u32
proof -
  assume "x \<noteq> a"
  then have "x - a \<noteq> 0" by simp
  then have "unat (x - a - 1) = unat (x - a) - 1 \<and> 0 < unat (x - a)"
    by (simp add: unat_minus_one unat_gt_0)
  moreover have "x - (a + 1) = x - a - 1" by simp
  ultimately show ?thesis by (metis Suc_pred')
qed

lemma mem_write_apply:
  "length bs \<le> 2 ^ 32 \<Longrightarrow>
    mem_write m a bs x = (if unat (x - a) < length bs then bs ! unat (x - a) else m x)"
proof (induction bs arbitrary: m a)
  case Nil
  then show ?case by simp
next
  case (Cons b bs)
  show ?case
  proof (cases "x = a")
    case True
    have "unat (a - (a + 1)) = 2 ^ 32 - 1" 
      by (simp add: unsigned_minus_1_eq_mask mask_eq_exp_minus_1)
    with True Cons show ?thesis by simp
  next
    case False
    with Cons unat_sub_one [OF False] show ?thesis by simp
  qed
qed

lemma mem_write_outside [region_simps]:
  "length bs \<le> 2 ^ 32 \<Longrightarrow> x \<notin> region a (length bs) \<Longrightarrow> mem_write m a bs x = m x"
  by (simp add: mem_write_apply in_region)

lemma mem_read_write_same:
  assumes "length bs \<le> 2 ^ 32"
  shows "mem_read (mem_write m a bs) a (length bs) = bs"
proof (rule nth_equalityI)
  fix k assume "k < length (mem_read (mem_write m a bs) a (length bs))"
  then have k: "k < length bs" by simp
  with assms have "unat (of_nat k :: u32) = k" by (simp add: unat_of_nat)
  with k assms show "mem_read (mem_write m a bs) a (length bs) ! k = bs ! k"
    by (simp add: mem_write_apply)
qed simp

lemma mem_read_cong:
  "n \<le> 2 ^ 32 \<Longrightarrow> (\<And>x. x \<in> region a n \<Longrightarrow> m x = m' x) \<Longrightarrow> mem_read m a n = mem_read m' a n"
  by (auto simp: mem_read_def in_region unat_of_nat)

subsection \<open>Little-endian 32-bit accesses\<close>

definition rd32 :: "mem \<Rightarrow> u32 \<Rightarrow> u32" where
  "rd32 m a = ucast (m a) OR push_bit 8 (ucast (m (a + 1)))
     OR push_bit 16 (ucast (m (a + 2))) OR push_bit 24 (ucast (m (a + 3)))"

definition bytes32 :: "u32 \<Rightarrow> u8 list" where
  "bytes32 v = [ucast v, ucast (drop_bit 8 v), ucast (drop_bit 16 v), ucast (drop_bit 24 v)]"

definition wr32 :: "mem \<Rightarrow> u32 \<Rightarrow> u32 \<Rightarrow> mem" where
  "wr32 m a v = mem_write m a (bytes32 v)"

lemma length_bytes32 [simp]: "length (bytes32 v) = 4"
  by (simp add: bytes32_def)

lemma rd32_wr32_same [simp]: "rd32 (wr32 m a v) a = v"
proof (rule bit_word_eqI)
  fix n assume "n < LENGTH(32)"
  then consider "n < 8" | "8 \<le> n" "n < 16" | "16 \<le> n" "n < 24" | "24 \<le> n" "n < 32" by fastforce
  then show "bit (rd32 (wr32 m a v) a) n = bit v n"
    by cases (auto simp: rd32_def wr32_def bytes32_def bit_simps add.assoc)
qed

lemma wr32_outside [region_simps]: "x \<notin> region a 4 \<Longrightarrow> wr32 m a v x = m x"
  by (simp add: wr32_def mem_write_outside)

lemma rd32_cong: "(\<And>x. x \<in> region a 4 \<Longrightarrow> m x = m' x) \<Longrightarrow> rd32 m a = rd32 m' a"
  by (simp add: rd32_def in_region)

subsection \<open>Array loops\<close>

text \<open>The loop \<^verbatim>\<open>for (i = 0; i < n; i++) t[i] = f(i)\<close>.\<close>

lemma fold_upd: "fold (\<lambda>i t. t(i := f i)) [0..<n] t = (\<lambda>i. if i < n then f i else t i)"
  by (induction n) (auto simp: fun_eq_iff)

subsection \<open>Bit fields\<close>

lemma and_mask_fields:
  "x AND 0xF = take_bit 4 x" "x AND 0xFF = take_bit 8 x" "x AND 0xFFFF = take_bit 16 x" for x :: u32
  by (simp_all add: take_bit_eq_mask mask_eq_exp_minus_1)

lemma unat_take_drop: "unat (take_bit k (drop_bit n v)) = unat v div 2 ^ n mod 2 ^ k" for v :: u32
proof -
  have "take_bit 32 (unat v) = unat v"
    using unsigned_less [of v, where 'a = nat] by (simp add: take_bit_nat_eq_self)
  then have "unat (take_bit k (drop_bit n v)) = take_bit k (drop_bit n (unat v))"
    by (simp only: unsigned_take_bit_eq unsigned_drop_bit_eq) simp
  then show ?thesis by (simp only: take_bit_eq_mod drop_bit_eq_div)
qed

lemma unat_byte_field: "unat (ucast (take_bit 8 (drop_bit n v)) :: u8) = unat v div 2 ^ n mod 256"
  for v :: u32
proof -
  have "unat (ucast (take_bit 8 (drop_bit n v)) :: u8) = unat (take_bit 8 (drop_bit n v)) mod 256"
    by (simp add: unsigned_ucast_eq take_bit_eq_mod)
  then show ?thesis by (simp only: unat_take_drop) simp
qed

subsection \<open>Link-time addresses\<close>

text \<open>The addresses that the linker assigns to the kernel's symbols (\<open>linker.ld\<close>). They are a
  parameter of the model: no definition depends on particular values.\<close>

record layout =
  text_start :: u32
  ro_end :: u32
  gdt_at :: u32
  tss_at :: u32
  tss_kernel_stack_at :: u32
  idt_at :: u32
  isr_at :: "nat \<Rightarrow> u32"
  timer_handler_at :: u32
  keyboard_handler_at :: u32
  syscall_handler_at :: u32
  page_directory_at :: u32
  first_page_table_at :: u32
  task_directories_at :: u32
  task_tables_at :: u32
  task_exit_at :: u32
  task_clock_at :: u32
  user_task_demo_at :: u32
  user_demo_stack_at :: u32
  shell_name_at :: u32
  clock_name_at :: u32
  user_demo_name_at :: u32
  exec_stacks_at :: u32
  elf_staging_at :: u32
  input_buffer_at :: u32
  history_buf_at :: u32
  motd_buf_at :: u32

end
