(* ===== verification/Allocator.thy ===== *)
theory Allocator
  imports Mx_Prelude
begin

text \<open>
  The interface between the kernel heap (\<open>kernel/mem.c\<close>) and its clients: what \<open>kmalloc\<close> and
  \<open>kfree\<close> promise about a memory that holds a heap with a given set of allocated extents
  (address, size), and what a client that keeps a table of allocated buffers gets from it.
\<close>

definition extent :: "nat \<times> nat \<Rightarrow> nat set" where
  "extent e = {fst e..<fst e + snd e}"

text \<open>A table of buffers: the allocated extents start exactly at the addresses \<open>S\<close>, and each is
  at least \<open>n\<close> bytes long.\<close>

definition buffers :: "(mem \<Rightarrow> (nat \<times> nat) set \<Rightarrow> bool) \<Rightarrow> mem \<Rightarrow> nat set \<Rightarrow> nat \<Rightarrow> bool" where
  "buffers rep m S n \<longleftrightarrow> (\<exists>L. rep m L \<and> fst ` L = S \<and> (\<forall>e \<in> L. n \<le> snd e))"

locale allocator =
  fixes rep :: "mem \<Rightarrow> (nat \<times> nat) set \<Rightarrow> bool"
    and alloc :: "u32 \<Rightarrow> mem \<Rightarrow> (u32 \<times> mem) option"
    and free :: "u32 \<Rightarrow> mem \<Rightarrow> mem"
  assumes alloc_returns: "rep m L \<Longrightarrow> unat n + 3 < 2 ^ 32 \<Longrightarrow> \<exists>p m'. alloc n m = Some (p, m')"
    and alloc_null: "rep m L \<Longrightarrow> unat n + 3 < 2 ^ 32 \<Longrightarrow> alloc n m = Some (0, m') \<Longrightarrow> m' = m"
    and alloc_fresh: "rep m L \<Longrightarrow> unat n + 3 < 2 ^ 32 \<Longrightarrow> alloc n m = Some (p, m') \<Longrightarrow> p \<noteq> 0 \<Longrightarrow>
      \<exists>k \<ge> unat n. rep m' (insert (unat p, k) L) \<and> unat p \<notin> fst ` L"
    and alloc_frame: "rep m L \<Longrightarrow> unat n + 3 < 2 ^ 32 \<Longrightarrow> alloc n m = Some (p, m') \<Longrightarrow>
      e \<in> L \<Longrightarrow> unat x \<in> extent e \<Longrightarrow> m' x = m x"
    and free_rep: "rep m L \<Longrightarrow> (unat p, k) \<in> L \<Longrightarrow> rep (free p m) (L - {(unat p, k)})"
    and free_frame: "rep m L \<Longrightarrow> (unat p, k) \<in> L \<Longrightarrow> e \<in> L \<Longrightarrow> unat x \<in> extent e \<Longrightarrow>
      free p m x = m x"
    and rep_write: "rep m L \<Longrightarrow> e \<in> L \<Longrightarrow> (\<And>x. unat x \<notin> extent e \<Longrightarrow> m' x = m x) \<Longrightarrow> rep m' L"
    and rep_disjoint: "rep m L \<Longrightarrow> e \<in> L \<Longrightarrow> e' \<in> L \<Longrightarrow> e = e' \<or> extent e \<inter> extent e' = {}"
    and rep_functional: "rep m L \<Longrightarrow> (q, k) \<in> L \<Longrightarrow> (q, k') \<in> L \<Longrightarrow> k = k'"
    and rep_bounds: "rep m L \<Longrightarrow> (q, k) \<in> L \<Longrightarrow> 0 < q \<and> q + k < 2 ^ 32"
begin

lemma buffers_alloc:
  assumes "buffers rep m S (unat n)" "unat n + 3 < 2 ^ 32"
  obtains p m' where "alloc n m = Some (p, m')" "p = 0 \<Longrightarrow> m' = m"
    "p \<noteq> 0 \<Longrightarrow> unat p \<notin> S \<and> buffers rep m' (insert (unat p) S) (unat n)"
proof -
  from assms(1) obtain L where L: "rep m L" "fst ` L = S" "\<forall>e \<in> L. unat n \<le> snd e"
    by (auto simp: buffers_def)
  obtain p m' where r: "alloc n m = Some (p, m')" using alloc_returns [OF L(1) assms(2)] by blast
  show thesis
  proof (rule that [OF r])
    show "m' = m" if "p = 0" using alloc_null [OF L(1) assms(2)] r that by simp
    show "unat p \<notin> S \<and> buffers rep m' (insert (unat p) S) (unat n)" if "p \<noteq> 0"
      using alloc_fresh [OF L(1) assms(2) r that] L by (fastforce simp: buffers_def)
  qed
qed

lemma buffers_free:
  assumes "buffers rep m S n" "unat p \<in> S"
  shows "buffers rep (free p m) (S - {unat p}) n"
proof -
  from assms(1) obtain L where L: "rep m L" "fst ` L = S" "\<forall>e \<in> L. n \<le> snd e"
    by (auto simp: buffers_def)
  from assms(2) L(2) obtain k where k: "(unat p, k) \<in> L" by force
  have "inj_on fst L" by (rule inj_onI) (metis prod.collapse rep_functional [OF L(1)])
  then have "fst ` (L - {(unat p, k)}) = S - {unat p}"
    using inj_on_image_set_diff [of fst L L "{(unat p, k)}"] k L(2) by auto
  with free_rep [OF L(1) k] L(3) show ?thesis by (auto simp: buffers_def)
qed

lemma buffers_write:
  assumes "buffers rep m S n" "q \<in> S" "\<And>x. unat x < q \<or> q + n \<le> unat x \<Longrightarrow> m' x = m x"
  shows "buffers rep m' S n"
proof -
  from assms(1) obtain L where L: "rep m L" "fst ` L = S" "\<forall>e \<in> L. n \<le> snd e"
    by (auto simp: buffers_def)
  from assms(2) L(2) obtain k where k: "(q, k) \<in> L" by force
  have "rep m' L"
    by (rule rep_write [OF L(1) k]) (use assms(3) L(3) k in \<open>fastforce simp: extent_def\<close>)
  with L show ?thesis by (auto simp: buffers_def)
qed

text \<open>Neither operation touches the bytes of another buffer.\<close>

lemma buffers_alloc_frame:
  assumes "buffers rep m S (unat n)" "unat n + 3 < 2 ^ 32" "alloc n m = Some (p, m')"
    "q \<in> S" "q \<le> unat x" "unat x < q + unat n"
  shows "m' x = m x"
proof -
  from assms(1) obtain L where L: "rep m L" "fst ` L = S" "\<forall>e \<in> L. unat n \<le> snd e"
    by (auto simp: buffers_def)
  from assms(4) L(2) obtain k where k: "(q, k) \<in> L" by force
  have "unat x \<in> extent (q, k)" using L(3) k assms(5,6) by (fastforce simp: extent_def)
  then show ?thesis by (rule alloc_frame [OF L(1) assms(2,3) k])
qed

lemma buffers_free_frame:
  assumes "buffers rep m S n" "unat p \<in> S" "q \<in> S" "q \<le> unat x" "unat x < q + n"
  shows "free p m x = m x"
proof -
  from assms(1) obtain L where L: "rep m L" "fst ` L = S" "\<forall>e \<in> L. n \<le> snd e"
    by (auto simp: buffers_def)
  from assms(2,3) L(2) obtain j k where e: "(unat p, j) \<in> L" "(q, k) \<in> L" by force
  have "unat x \<in> extent (q, k)" using L(3) e(2) assms(4,5) by (fastforce simp: extent_def)
  then show ?thesis by (rule free_frame [OF L(1) e])
qed

lemma buffers_separate:
  assumes "buffers rep m S n" "p \<in> S" "q \<in> S" "p \<noteq> q"
  shows "p + n \<le> q \<or> q + n \<le> p"
proof -
  from assms(1) obtain L where L: "rep m L" "fst ` L = S" "\<forall>e \<in> L. n \<le> snd e"
    by (auto simp: buffers_def)
  from assms(2,3) L(2) obtain j k where e: "(p, j) \<in> L" "(q, k) \<in> L" by force
  then have "extent (p, j) \<inter> extent (q, k) = {}" using rep_disjoint [OF L(1)] assms(4) by blast
  moreover have "n \<le> j" "n \<le> k" using L(3) e by auto
  moreover from calculation(1) have "max p q \<notin> {p..<p + j} \<or> max p q \<notin> {q..<q + k}"
    by (auto simp: extent_def)
  ultimately show ?thesis by (auto simp: max_def split: if_splits)
qed

lemma buffers_bounds:
  "buffers rep m S n \<Longrightarrow> q \<in> S \<Longrightarrow> 0 < q \<and> q + n < 2 ^ 32"
  using rep_bounds by (fastforce simp: buffers_def)

end

end
