(* ===== verification/Mem.thy ===== *)
theory Mem
  imports Allocator
begin

text \<open>
  The kernel heap, \<open>kernel/mem.c\<close>: a singly linked list of blocks, each behind a 12-byte
  \<open>header_t\<close>, living in the byte memory itself.
\<close>

subsection \<open>Headers\<close>

text \<open>\<open>header_t\<close> on i386: \<open>size\<close> at offset 0, \<open>next\<close> at 4, \<open>is_free\<close> at 8, three bytes of padding.\<close>

record header_t =
  hsize :: u32
  hnext :: u32
  his_free :: u8

abbreviation sizeof_header_t :: u32 where
  "sizeof_header_t \<equiv> 12"

definition load_header :: "mem \<Rightarrow> u32 \<Rightarrow> header_t" where
  "load_header m p = \<lparr>hsize = rd32 m p, hnext = rd32 m (p + 4), his_free = m (p + 8)\<rparr>"

definition store_header :: "mem \<Rightarrow> u32 \<Rightarrow> header_t \<Rightarrow> mem" where
  "store_header m p h = (wr32 (wr32 m p (hsize h)) (p + 4) (hnext h))(p + 8 := his_free h)"

subsection \<open>The allocator\<close>

definition heap_init :: "u32 \<Rightarrow> u32 \<Rightarrow> mem \<Rightarrow> u32 \<times> mem" where
  "heap_init start sz m =
     (start, store_header m start
        \<lparr>hsize = sz - sizeof_header_t, hnext = 0, his_free = 1\<rparr>)"

text \<open>The body of the search loop for a block that fits: split it when enough is left over.\<close>

definition kmalloc_take :: "mem \<Rightarrow> u32 \<Rightarrow> u32 \<Rightarrow> u32 \<times> mem" where
  "kmalloc_take m cur sz =
     (let h = load_header m cur in
      if hsize h > sz + sizeof_header_t + 4 then
        let nxt = cur + sizeof_header_t + sz;
            m1 = store_header m nxt
              \<lparr>hsize = hsize h - sz - sizeof_header_t, hnext = hnext h, his_free = 1\<rparr>
        in (cur + sizeof_header_t,
            store_header m1 cur \<lparr>hsize = sz, hnext = nxt, his_free = 0\<rparr>)
      else (cur + sizeof_header_t, store_header m cur (h\<lparr>his_free := 0\<rparr>)))"

text \<open>\<open>while (cur)\<close>: \<open>None\<close> is a list that never reaches \<open>NULL\<close>.\<close>

partial_function (option) kmalloc_loop :: "mem \<Rightarrow> u32 \<Rightarrow> u32 \<Rightarrow> (u32 \<times> mem) option" where
  "kmalloc_loop m cur sz =
     (if cur = 0 then Some (0, m)
      else if his_free (load_header m cur) \<noteq> 0 \<and> sz \<le> hsize (load_header m cur)
      then Some (kmalloc_take m cur sz)
      else kmalloc_loop m (hnext (load_header m cur)) sz)"

definition align4 :: "u32 \<Rightarrow> u32" where
  "align4 sz = (sz + 3) AND NOT 3"

definition kmalloc :: "u32 \<Rightarrow> u32 \<Rightarrow> mem \<Rightarrow> (u32 \<times> mem) option" where
  "kmalloc heap_start sz m =
     (if heap_start = 0 then Some (0, m) else kmalloc_loop m heap_start (align4 sz))"

definition kfree :: "u32 \<Rightarrow> mem \<Rightarrow> mem" where
  "kfree ptr m =
     (if ptr = 0 then m
      else
        let p = ptr - sizeof_header_t;
            m1 = m(p + 8 := 1);
            h = load_header m1 p;
            n = load_header m1 (hnext h)
        in if hnext h \<noteq> 0 \<and> his_free n \<noteq> 0
           then store_header m1 p
                  (h\<lparr>hsize := hsize h + (hsize n + sizeof_header_t), hnext := hnext n\<rparr>)
           else m1)"

text \<open>The two totals of the \<open>mem\<close> command: (used, free).\<close>

partial_function (option) heap_stats_loop ::
    "mem \<Rightarrow> u32 \<Rightarrow> u32 \<Rightarrow> u32 \<Rightarrow> (u32 \<times> u32) option" where
  "heap_stats_loop m cur used_total free_total =
     (if cur = 0 then Some (used_total, free_total)
      else if his_free (load_header m cur) \<noteq> 0
      then heap_stats_loop m (hnext (load_header m cur)) used_total
             (free_total + hsize (load_header m cur))
      else heap_stats_loop m (hnext (load_header m cur))
             (used_total + hsize (load_header m cur)) free_total)"

definition heap_stats :: "u32 \<Rightarrow> mem \<Rightarrow> (u32 \<times> u32) option" where
  "heap_stats heap_start m = heap_stats_loop m heap_start 0 0"

subsection \<open>Header accesses\<close>

lemma region_sub4: "x \<in> region (a + 4) 4 \<Longrightarrow> x \<in> region a 12 \<and> x \<notin> region a 4"
  by (auto simp: region_shift_numeral intro: region_mono)

lemma store_header_outside [region_simps]:
  "x \<notin> region p 12 \<Longrightarrow> store_header m p h x = m x"
proof -
  assume x: "x \<notin> region p 12"
  then have "x \<noteq> p + 8" by (auto simp: in_region)
  moreover have "x \<notin> region (p + 4) 4" using x region_sub4 by blast
  moreover have "x \<notin> region p 4" using x by (simp add: in_region)
  ultimately show ?thesis by (simp add: store_header_def region_simps)
qed

lemma load_header_cong:
  assumes "\<And>x. x \<in> region p 12 \<Longrightarrow> m x = m' x"
  shows "load_header m p = load_header m' p"
proof -
  have "rd32 m p = rd32 m' p" by (rule rd32_cong) (auto intro: assms simp: in_region)
  moreover have "rd32 m (p + 4) = rd32 m' (p + 4)"
    by (rule rd32_cong) (auto intro: assms dest: region_sub4)
  moreover have "m (p + 8) = m' (p + 8)" by (rule assms) (simp add: in_region)
  ultimately show ?thesis by (simp add: load_header_def)
qed

lemma load_store_same [simp]: "load_header (store_header m p h) p = h"
proof -
  have a: "x \<noteq> p + 8" if "x \<in> region p 4" for x using that by (auto simp: in_region)
  have b: "x \<noteq> p + 8" if "x \<in> region (p + 4) 4" for x using that by (auto simp: in_region)
  have c: "x \<notin> region (p + 4) 4" if "x \<in> region p 4" for x
    using that region_sub4 by blast
  have "rd32 (store_header m p h) p = rd32 (wr32 m p (hsize h)) p"
    by (rule rd32_cong) (simp add: store_header_def a c region_simps)
  moreover have "rd32 (store_header m p h) (p + 4) = rd32 (wr32 (wr32 m p (hsize h)) (p + 4) (hnext h)) (p + 4)"
    by (rule rd32_cong) (simp add: store_header_def b)
  ultimately show ?thesis by (simp add: load_header_def) (simp add: store_header_def)
qed

subsection \<open>The heap as a list of blocks\<close>

text \<open>
  A block is its payload size and whether it is free. Blocks tile the heap: the header of the
  next block follows the payload of the previous one, and only the last \<open>next\<close> is \<open>NULL\<close>.
\<close>

type_synonym block = "nat \<times> bool"

fun heap_at :: "mem \<Rightarrow> nat \<Rightarrow> block list \<Rightarrow> bool" where
  "heap_at m a [] = True"
| "heap_at m a ((n, f) # bs) =
     (hsize (load_header m (of_nat a)) = of_nat n
      \<and> (his_free (load_header m (of_nat a)) \<noteq> 0) = f
      \<and> hnext (load_header m (of_nat a)) = (if bs = [] then 0 else of_nat (a + 12 + n))
      \<and> heap_at m (a + 12 + n) bs)"

definition span :: "block list \<Rightarrow> nat" where
  "span bs = sum_list (map (\<lambda>b. 12 + fst b) bs)"

definition heap_inv :: "mem \<Rightarrow> nat \<Rightarrow> block list \<Rightarrow> bool" where
  "heap_inv m a bs \<longleftrightarrow> bs \<noteq> [] \<and> 0 < a \<and> a + span bs < 2 ^ 32
     \<and> 4 dvd a \<and> list_all (\<lambda>b. 4 dvd fst b) bs \<and> heap_at m a bs"

text \<open>Payload extents (address, size) of the allocated blocks; addresses holding header bytes.\<close>

fun live :: "nat \<Rightarrow> block list \<Rightarrow> (nat \<times> nat) set" where
  "live a [] = {}"
| "live a ((n, f) # bs) = (if f then {} else {(a + 12, n)}) \<union> live (a + 12 + n) bs"

fun header_bytes :: "nat \<Rightarrow> block list \<Rightarrow> nat set" where
  "header_bytes a [] = {}"
| "header_bytes a ((n, f) # bs) = {a..<a + 12} \<union> header_bytes (a + 12 + n) bs"

text \<open>First fit on the block list, and release with forward coalescing.\<close>

fun alloc_blocks :: "nat \<Rightarrow> nat \<Rightarrow> block list \<Rightarrow> (nat \<times> block list) option" where
  "alloc_blocks a n [] = None"
| "alloc_blocks a n ((k, f) # bs) =
     (if f \<and> n \<le> k
      then Some (a + 12, if k > n + 16 then (n, False) # (k - n - 12, True) # bs
                         else (k, False) # bs)
      else map_option (\<lambda>(p, bs'). (p, (k, f) # bs')) (alloc_blocks (a + 12 + k) n bs))"

fun merge_next :: "nat \<Rightarrow> block list \<Rightarrow> block list" where
  "merge_next k ((k', True) # bs) = (k + 12 + k', True) # bs"
| "merge_next k bs = (k, True) # bs"

fun free_blocks :: "nat \<Rightarrow> nat \<Rightarrow> block list \<Rightarrow> block list" where
  "free_blocks a p [] = []"
| "free_blocks a p ((k, f) # bs) =
     (if p = a + 12 then merge_next k bs else (k, f) # free_blocks (a + 12 + k) p bs)"

lemma span_simps [simp]: "span [] = 0" "span (b # bs) = 12 + fst b + span bs"
  by (simp_all add: span_def)

lemma load_header_frame:
  assumes "a + 12 \<le> 2 ^ 32" "\<And>x. a \<le> unat x \<Longrightarrow> unat x < a + 12 \<Longrightarrow> m' x = m x"
  shows "load_header m' (of_nat a) = load_header m (of_nat a)"
  by (rule load_header_cong) (use assms in \<open>simp add: region_nat\<close>)

lemma heap_at_frame:
  assumes "a + span bs < 2 ^ 32" "heap_at m a bs"
    "\<And>x. unat x \<in> header_bytes a bs \<Longrightarrow> m' x = m x"
  shows "heap_at m' a bs"
  using assms
proof (induction bs arbitrary: a)
  case Nil
  then show ?case by simp
next
  case (Cons b bs)
  obtain n f where b: "b = (n, f)" by (cases b)
  have h: "load_header m' (of_nat a) = load_header m (of_nat a)"
    by (rule load_header_frame) (use Cons.prems b in auto)
  have "heap_at m' (a + 12 + n) bs"
    by (rule Cons.IH) (use Cons.prems b in auto)
  with Cons.prems(2) b h show ?case by simp
qed

lemma header_bytes_bounds: "x \<in> header_bytes a bs \<Longrightarrow> a \<le> x \<and> x < a + span bs"
  by (induction a bs rule: header_bytes.induct) auto

lemma live_bounds: "(q, k) \<in> live a bs \<Longrightarrow> a + 12 \<le> q \<and> q + k \<le> a + span bs"
  by (induction a bs rule: live.induct) (auto split: if_splits)

lemma live_not_header:
  "(q, k) \<in> live a bs \<Longrightarrow> q \<le> x \<Longrightarrow> x < q + k \<Longrightarrow> x \<notin> header_bytes a bs"
  by (induction a bs rule: live.induct)
    (auto split: if_splits dest: live_bounds header_bytes_bounds)

lemma live_disjoint:
  "(q, k) \<in> live a bs \<Longrightarrow> (q', k') \<in> live a bs \<Longrightarrow> q = q' \<and> k = k' \<or> q + k \<le> q' \<or> q' + k' \<le> q"
  by (induction a bs rule: live.induct) (auto split: if_splits dest: live_bounds)

subsection \<open>Refinement\<close>

lemma and_not_3: "x AND NOT 3 = x - take_bit 2 x" for x :: u32
proof -
  have two: "Suc (Suc (n - 2)) = n" if "2 \<le> n" for n using that by arith
  have "x AND NOT (mask 2) = push_bit 2 (drop_bit 2 x)"
    by (rule bit_word_eqI) (auto simp: bit_simps two not_less)
  moreover have "mask 2 = (3 :: u32)" by (simp add: mask_eq_exp_minus_1)
  ultimately have "x AND NOT 3 = push_bit 2 (drop_bit 2 x)" by simp
  then show ?thesis using bits_ident [of 2 x] by (metis add_diff_cancel_right')
qed

lemma unat_align4:
  assumes "unat s + 3 < 2 ^ 32"
  shows "unat (align4 s) = (unat s + 3) div 4 * 4"
proof -
  have s3: "unat (s + 3) = unat s + 3" using assms by (rule unat_plus_numeral)
  have t: "unat (take_bit 2 (s + 3)) = (unat s + 3) mod 4"
    by (simp add: take_bit_eq_mod unat_mod s3)
  have "take_bit 2 (s + 3) \<le> s + 3" by (simp add: word_le_nat_alt t s3)
  then have "unat (align4 s) = unat (s + 3) - unat (take_bit 2 (s + 3))"
    unfolding align4_def and_not_3 by (rule unat_sub)
  then show ?thesis by (simp add: s3 t minus_mod_eq_div_mult)
qed

lemma store_header_frame:
  "a + 12 \<le> 2 ^ 32 \<Longrightarrow> unat x < a \<or> a + 12 \<le> unat x \<Longrightarrow> store_header m (of_nat a) h x = m x"
  by (auto simp: region_simps region_nat)

lemma load_store_other:
  assumes "a + 12 \<le> b \<or> b + 12 \<le> a" "a + 12 \<le> 2 ^ 32" "b + 12 \<le> 2 ^ 32"
  shows "load_header (store_header m (of_nat a) h) (of_nat b) = load_header m (of_nat b)"
  by (rule load_header_frame) (use assms in \<open>auto simp: region_simps region_nat\<close>)

lemma kmalloc_take_refines:
  assumes at: "heap_at m a ((k, True) # bs)" and a: "4 \<le> a" "a + 12 + k + span bs < 2 ^ 32"
    and n: "n \<le> k"
  defines "bs' \<equiv> (if k > n + 16 then (n, False) # (k - n - 12, True) # bs else (k, False) # bs)"
  obtains m' where "kmalloc_take m (of_nat a) (of_nat n) = (of_nat (a + 12), m')"
    "heap_at m' a bs'" "\<And>x. unat x < a \<or> a + 12 + k \<le> unat x \<Longrightarrow> m' x = m x"
proof -
  let ?h = "load_header m (of_nat a)"
  have h: "hsize ?h = of_nat k" "hnext ?h = (if bs = [] then 0 else of_nat (a + 12 + k))"
    "heap_at m (a + 12 + k) bs" using at by simp_all
  have split: "hsize ?h > of_nat n + sizeof_header_t + 4 \<longleftrightarrow> k > n + 16"
    using of_nat_less_u32 [of "n + 16" k] a n by (simp add: h add.commute add.assoc)
  have tail: "heap_at m' (a + 12 + k) bs"
    if "\<And>x. a + 12 + k \<le> unat x \<Longrightarrow> m' x = m x" for m'
    by (rule heap_at_frame [OF _ h(3)]) (use a that header_bytes_bounds in auto)
  show thesis
  proof (cases "k > n + 16")
    case True
    define h1 where "h1 = \<lparr>hsize = of_nat (k - n - 12), hnext = hnext ?h, his_free = 1\<rparr>"
    define m1 where "m1 = store_header m (of_nat (a + 12 + n)) h1"
    define m2 where "m2 = store_header m1 (of_nat a)
      \<lparr>hsize = of_nat n, hnext = of_nat (a + 12 + n), his_free = 0\<rparr>"
    have frame: "m2 x = m x" if "unat x < a \<or> a + 12 + k \<le> unat x" for x
      using that True a store_header_frame [of a x m1] store_header_frame [of "a + 12 + n" x m h1]
      by (auto simp: m2_def m1_def)
    have "load_header m2 (of_nat (a + 12 + n)) = h1"
      using load_store_other [of a "a + 12 + n" m1] a True by (simp add: m2_def m1_def)
    moreover have "load_header m2 (of_nat a) =
        \<lparr>hsize = of_nat n, hnext = of_nat (a + 12 + n), his_free = 0\<rparr>" by (simp add: m2_def)
    moreover have "heap_at m2 (a + 12 + k) bs" using frame by (intro tail) simp
    ultimately have "heap_at m2 a bs'"
      using True h(2) by (simp add: bs'_def h1_def ac_simps)
    moreover have "kmalloc_take m (of_nat a) (of_nat n) = (of_nat (a + 12), m2)"
      using True split n by (simp add: kmalloc_take_def Let_def h m2_def m1_def h1_def ac_simps diff_diff_eq)
    ultimately show thesis using that frame by blast
  next
    case False
    define m2 where "m2 = store_header m (of_nat a) (?h\<lparr>his_free := 0\<rparr>)"
    have frame: "m2 x = m x" if "unat x < a \<or> a + 12 + k \<le> unat x" for x
      using that a store_header_frame [of a x m] by (auto simp: m2_def)
    have "heap_at m2 (a + 12 + k) bs" using frame by (intro tail) simp
    then have "heap_at m2 a bs'" using False h by (simp add: bs'_def m2_def)
    moreover have "kmalloc_take m (of_nat a) (of_nat n) = (of_nat (a + 12), m2)"
      using False split by (simp add: kmalloc_take_def Let_def m2_def ac_simps)
    ultimately show thesis using that frame by blast
  qed
qed

text \<open>A memory step of the allocator leaves every byte outside the heap, and every byte of an
  allocated payload, as it was.\<close>

definition heap_frame :: "nat \<Rightarrow> block list \<Rightarrow> mem \<Rightarrow> mem \<Rightarrow> bool" where
  "heap_frame a bs m m' \<longleftrightarrow>
     (\<forall>x. unat x < a \<or> a + span bs \<le> unat x \<longrightarrow> m' x = m x)
     \<and> (\<forall>(q, k) \<in> live a bs. \<forall>x. q \<le> unat x \<and> unat x < q + k \<longrightarrow> m' x = m x)"

lemma kmalloc_loop_null: "kmalloc_loop m 0 n = Some (0, m)"
  by (simp add: kmalloc_loop.simps)

lemma kmalloc_loop_step:
  "c \<noteq> 0 \<Longrightarrow> kmalloc_loop m c n =
     (if his_free (load_header m c) \<noteq> 0 \<and> n \<le> hsize (load_header m c)
      then Some (kmalloc_take m c n) else kmalloc_loop m (hnext (load_header m c)) n)"
  by (subst kmalloc_loop.simps) simp

text \<open>What a search of the blocks from address \<open>a\<close> on returns, against the abstract first fit.\<close>

definition search_spec ::
    "mem \<Rightarrow> nat \<Rightarrow> nat \<Rightarrow> block list \<Rightarrow> (u32 \<times> mem) option \<Rightarrow> bool" where
  "search_spec m a n bs res \<longleftrightarrow>
     (case alloc_blocks a n bs of
        None \<Rightarrow> res = Some (0, m)
      | Some (p, bs') \<Rightarrow> \<exists>m'. res = Some (of_nat p, m') \<and> heap_at m' a bs' \<and> heap_frame a bs m m')"

lemma search_spec_take:
  assumes "heap_at m a ((k, True) # bs)" "4 \<le> a" "a + 12 + k + span bs < 2 ^ 32" "n \<le> k"
  shows "search_spec m a n ((k, True) # bs) (Some (kmalloc_take m (of_nat a) (of_nat n)))"
proof -
  obtain m' where m': "kmalloc_take m (of_nat a) (of_nat n) = (of_nat (a + 12), m')"
    "heap_at m' a (if k > n + 16 then (n, False) # (k - n - 12, True) # bs else (k, False) # bs)"
    "\<And>x. unat x < a \<or> a + 12 + k \<le> unat x \<Longrightarrow> m' x = m x"
    using kmalloc_take_refines [OF assms] by blast
  have "heap_frame a ((k, True) # bs) m m'"
    using m'(3) by (auto simp: heap_frame_def dest: live_bounds)
  with m'(1,2) assms(4) show ?thesis by (simp add: search_spec_def)
qed

lemma search_spec_skip:
  assumes tail: "search_spec m (a + 12 + k) n bs res" and at: "heap_at m a ((k, f) # bs)"
    and skip: "\<not> (f \<and> n \<le> k)" and a: "a + 12 + k + span bs < 2 ^ 32"
  shows "search_spec m a n ((k, f) # bs) res"
proof (cases "alloc_blocks (a + 12 + k) n bs")
  case None
  with tail skip show ?thesis by (auto simp: search_spec_def)
next
  case (Some r)
  obtain p bs' where r: "r = (p, bs')" by (cases r)
  from tail Some r obtain m' where m': "res = Some (of_nat p, m')"
    "heap_at m' (a + 12 + k) bs'" "heap_frame (a + 12 + k) bs m m'"
    by (auto simp: search_spec_def)
  have "load_header m' (of_nat a) = load_header m (of_nat a)"
    by (rule load_header_frame) (use a m'(3) in \<open>auto simp: heap_frame_def\<close>)
  moreover have "bs \<noteq> []" "bs' \<noteq> []" using Some r by (cases bs; auto split: if_splits)+
  ultimately have "heap_at m' a ((k, f) # bs')" using at m'(2) by simp
  moreover have "heap_frame a ((k, f) # bs) m m'"
    using m'(3) by (auto simp: heap_frame_def)
  moreover have "alloc_blocks a n ((k, f) # bs) = Some (p, (k, f) # bs')"
    using Some r skip by auto
  ultimately show ?thesis using m'(1) by (simp add: search_spec_def del: alloc_blocks.simps heap_at.simps)
qed

lemma kmalloc_loop_refines:
  assumes "heap_at m a bs" "bs \<noteq> []" "4 \<le> a" "a + span bs < 2 ^ 32" "n < 2 ^ 32"
  shows "search_spec m a n bs (kmalloc_loop m (of_nat a) (of_nat n))"
  using assms
proof (induction bs arbitrary: a)
  case Nil
  then show ?case by simp
next
  case (Cons b bs)
  obtain k f where b: "b = (k, f)" by (cases b)
  let ?h = "load_header m (of_nat a)"
  have h: "hsize ?h = of_nat k" "(his_free ?h \<noteq> 0) = f"
    "hnext ?h = (if bs = [] then 0 else of_nat (a + 12 + k))" "heap_at m (a + 12 + k) bs"
    using Cons.prems b by simp_all
  have bounds: "a < 2 ^ 32" "k < 2 ^ 32" "a + 12 + k + span bs < 2 ^ 32" "a \<noteq> 0"
    using Cons.prems b by simp_all
  have step: "kmalloc_loop m (of_nat a) (of_nat n) =
     (if f \<and> n \<le> k then Some (kmalloc_take m (of_nat a) (of_nat n))
      else kmalloc_loop m (hnext ?h) (of_nat n))"
    using bounds Cons.prems(5) h(1,2) by (subst kmalloc_loop_step) (simp_all add: of_nat_u32)
  consider "f" "n \<le> k" | "\<not> (f \<and> n \<le> k)" "bs = []" | "\<not> (f \<and> n \<le> k)" "bs \<noteq> []" by blast
  then show ?case
  proof cases
    case 1
    then show ?thesis using search_spec_take [of m a k bs n] Cons.prems bounds b step by auto
  next
    case 2
    then show ?thesis using b step h(3) kmalloc_loop_null by (auto simp: search_spec_def)
  next
    case 3
    have "search_spec m (a + 12 + k) n bs (kmalloc_loop m (of_nat (a + 12 + k)) (of_nat n))"
      by (rule Cons.IH) (use h(4) 3 bounds Cons.prems in simp_all)
    then show ?thesis
      using search_spec_skip [of m a k n bs _ f] Cons.prems(1) bounds b step h(3) 3 by auto
  qed
qed

lemma alloc_blocks_span:
  "alloc_blocks a n bs = Some (p, bs') \<Longrightarrow> span bs' = span bs \<and> bs' \<noteq> []"
  by (induction a n bs arbitrary: bs' rule: alloc_blocks.induct) (auto split: if_splits)

lemma alloc_blocks_aligned:
  "alloc_blocks a n bs = Some (p, bs') \<Longrightarrow> list_all (\<lambda>b. 4 dvd fst b) bs \<Longrightarrow> 4 dvd n \<Longrightarrow>
    list_all (\<lambda>b. 4 dvd fst b) bs'"
  by (induction a n bs arbitrary: bs' rule: alloc_blocks.induct) (auto split: if_splits)

lemma alloc_blocks_ptr:
  "alloc_blocks a n bs = Some (p, bs') \<Longrightarrow> list_all (\<lambda>b. 4 dvd fst b) bs \<Longrightarrow> 4 dvd a \<Longrightarrow> 4 dvd p"
  by (induction a n bs arbitrary: bs' rule: alloc_blocks.induct) (auto split: if_splits)

lemma alloc_blocks_ge: "alloc_blocks a n bs = Some (p, bs') \<Longrightarrow> a + 12 \<le> p"
  by (induction a n bs arbitrary: bs' rule: alloc_blocks.induct) (fastforce split: if_splits)+

lemma alloc_blocks_fresh:
  "alloc_blocks a n bs = Some (p, bs') \<Longrightarrow> (q, j) \<in> live a bs \<Longrightarrow> q \<noteq> p"
  by (induction a n bs arbitrary: bs' rule: alloc_blocks.induct)
    (auto split: if_splits dest: live_bounds alloc_blocks_ge)

lemma alloc_blocks_live:
  "alloc_blocks a n bs = Some (p, bs') \<Longrightarrow> \<exists>k \<ge> n. live a bs' = insert (p, k) (live a bs)"
proof (induction a n bs arbitrary: bs' rule: alloc_blocks.induct)
  case (1 a n)
  then show ?case by simp
next
  case (2 a n k f bs)
  show ?case
  proof (cases "f \<and> n \<le> k")
    case True
    then show ?thesis
      using "2.prems" by (intro exI [of _ "if k > n + 16 then n else k"]) (auto simp: ac_simps)
  next
    case False
    then obtain bs'' where b: "alloc_blocks (a + 12 + k) n bs = Some (p, bs'')"
      "bs' = (k, f) # bs''" using "2.prems" by auto
    with "2.IH" [OF False b(1)] show ?thesis by auto
  qed
qed

lemma heap_inv_alloc:
  assumes inv: "heap_inv m a bs" and n: "4 dvd n" "n < 2 ^ 32"
  shows "case alloc_blocks a n bs of
      None \<Rightarrow> kmalloc_loop m (of_nat a) (of_nat n) = Some (0, m)
    | Some (p, bs') \<Rightarrow> \<exists>m'. kmalloc_loop m (of_nat a) (of_nat n) = Some (of_nat p, m')
        \<and> heap_inv m' a bs' \<and> heap_frame a bs m m'"
proof -
  have "4 \<le> a" using inv by (auto simp: heap_inv_def dest: dvd_imp_le)
  then have "search_spec m a n bs (kmalloc_loop m (of_nat a) (of_nat n))"
    using inv n by (intro kmalloc_loop_refines) (auto simp: heap_inv_def)
  moreover have "heap_inv m' a bs'" if "alloc_blocks a n bs = Some (p, bs')" "heap_at m' a bs'"
    for m' p bs'
    using inv n(1) that alloc_blocks_span [OF that(1)] alloc_blocks_aligned [OF that(1)]
    by (simp add: heap_inv_def)
  ultimately show ?thesis by (auto simp: search_spec_def split: option.splits)
qed

subsection \<open>Release\<close>

lemma load_header_mark [simp]:
  "load_header (m(p + 8 := v)) p = (load_header m p)\<lparr>his_free := v\<rparr>"
proof -
  have "p + 8 \<notin> region p 4" "p + 8 \<notin> region (p + 4) 4" by (simp_all add: in_region)
  then have "rd32 (m(p + 8 := v)) p = rd32 m p" "rd32 (m(p + 8 := v)) (p + 4) = rd32 m (p + 4)"
    by (auto intro!: rd32_cong)
  then show ?thesis by (simp add: load_header_def)
qed

lemma kfree_unfold:
  assumes "ptr \<noteq> 0" "ptr - sizeof_header_t = p" "load_header m p = h"
    "load_header (m(p + 8 := 1)) (hnext h) = n"
  shows "kfree ptr m =
    (if hnext h \<noteq> 0 \<and> his_free n \<noteq> 0
     then store_header (m(p + 8 := 1)) p
       (h\<lparr>his_free := 1, hsize := hsize h + (hsize n + sizeof_header_t), hnext := hnext n\<rparr>)
     else m(p + 8 := 1))"
  using assms by (auto simp: kfree_def Let_def)

lemma mark_frame:
  "a + 12 < 2 ^ 32 \<Longrightarrow> unat x < a \<or> a + 12 \<le> unat x \<Longrightarrow> (m(of_nat a + 8 := v)) x = m x"
  for m :: mem
proof -
  assume a: "a + 12 < 2 ^ 32" and x: "unat x < a \<or> a + 12 \<le> unat x"
  have "unat (of_nat a + 8 :: u32) = a + 8"
    using a unat_plus_no_wrap [of "of_nat a" 8] by (simp add: unat_of_nat)
  with x have "x \<noteq> of_nat a + 8" by auto
  then show ?thesis by simp
qed

lemma kfree_frame:
  assumes "0 < a" "a + 12 < 2 ^ 32" "unat x < a \<or> a + 12 \<le> unat x"
  shows "kfree (of_nat (a + 12)) m x = m x"
proof -
  have "of_nat (a + 12) - sizeof_header_t = of_nat a" "of_nat (a + 12) \<noteq> (0 :: u32)"
    using assms of_nat_eq_0_u32 [of "a + 12"] by simp_all
  from kfree_unfold [OF this(2,1) refl refl] show ?thesis
    using assms mark_frame [of a x m 1] store_header_frame [of a x "m(of_nat a + 8 := 1)"] by auto
qed

lemma kfree_head:
  assumes at: "heap_at m a ((k, f) # bs)" and a: "0 < a" "a + 12 + k + span bs < 2 ^ 32"
  shows "heap_at (kfree (of_nat (a + 12)) m) a (merge_next k bs)"
proof -
  define p q :: u32 where "p = of_nat a" and "q = of_nat (a + 12 + k)"
  define m1 m' where "m1 = m(p + 8 := 1)" and "m' = kfree (of_nat (a + 12)) m"
  define h where "h = load_header m p"
  have ptr: "of_nat (a + 12) - sizeof_header_t = p" "of_nat (a + 12) \<noteq> (0 :: u32)"
    using a of_nat_eq_0_u32 [of "a + 12"] by (simp_all add: p_def)
  have h: "hsize h = of_nat k" "hnext h = (if bs = [] then 0 else q)"
    using at by (simp_all add: h_def p_def q_def)
  have tail: "heap_at m' b cs" if "heap_at m b cs" "a + 12 \<le> b" "b + span cs < 2 ^ 32" for b cs
    unfolding m'_def by (rule heap_at_frame [OF that(3,1)], rule kfree_frame)
      (use a that header_bytes_bounds in fastforce)+
  note unf = kfree_unfold [OF ptr(2,1) h_def [symmetric] refl, folded m1_def m'_def]
  have m1p: "load_header m1 p = h\<lparr>his_free := 1\<rparr>" by (simp add: m1_def h_def)
  show ?thesis
  proof (cases bs)
    case Nil
    then show ?thesis using unf h m1p unfolding m'_def [symmetric] by (simp add: p_def)
  next
    case (Cons b cs)
    obtain k' f' where b: "b = (k', f')" by (cases b)
    define n where "n = load_header m q"
    have q: "q \<noteq> 0" using a Cons b of_nat_eq_0_u32 [of "a + 12 + k"] by (simp add: q_def)
    have ln: "load_header m1 q = n" unfolding q_def n_def m1_def p_def
      by (rule load_header_frame) (use a Cons b mark_frame in auto)
    have n: "hsize n = of_nat k'" "(his_free n \<noteq> 0) = f'"
      "hnext n = (if cs = [] then 0 else of_nat (a + 12 + k + 12 + k'))"
      "heap_at m (a + 12 + k + 12 + k') cs" "heap_at m (a + 12 + k) bs"
      using at Cons b by (simp_all add: n_def q_def)
    show ?thesis
    proof (cases f')
      case True
      have "load_header m' p = h\<lparr>his_free := 1, hsize := of_nat (k + 12 + k'), hnext := hnext n\<rparr>"
        using unf h Cons q ln True n(1,2) by (simp add: ac_simps)
      moreover have "heap_at m' (a + 12 + k + 12 + k') cs"
        using n(4) a Cons b by (intro tail) simp_all
      ultimately show ?thesis
        using True Cons b n(3) unfolding m'_def [symmetric] by (simp add: p_def ac_simps)
    next
      case False
      have "m' = m1" using unf h Cons q ln False n(2) by simp
      moreover have "heap_at m' (a + 12 + k) bs"
        using n(5) a by (intro tail) simp_all
      ultimately show ?thesis
        using False Cons b h m1p unfolding m'_def [symmetric] by (simp add: p_def q_def)
    qed
  qed
qed

lemma merge_next_facts:
  "span (merge_next k bs) = 12 + k + span bs" "live a (merge_next k bs) = live (a + 12 + k) bs"
  "list_all (\<lambda>b. 4 dvd fst b) bs \<Longrightarrow> 4 dvd k \<Longrightarrow> list_all (\<lambda>b. 4 dvd fst b) (merge_next k bs)"
  "merge_next k bs \<noteq> []"
  by (induction k bs rule: merge_next.induct; simp add: ac_simps)+

lemma free_blocks_span [simp]: "span (free_blocks a p bs) = span bs"
  by (induction a p bs rule: free_blocks.induct) (auto simp: merge_next_facts)

lemma free_blocks_Nil [simp]: "free_blocks a p bs = [] \<longleftrightarrow> bs = []"
  by (cases bs) (auto simp: merge_next_facts split: if_splits)

lemma kfree_refines:
  assumes "heap_at m a bs" "0 < a" "a + span bs < 2 ^ 32" "(p, k) \<in> live a bs"
  shows "heap_at (kfree (of_nat p) m) a (free_blocks a p bs)"
  using assms
proof (induction bs arbitrary: a)
  case Nil
  then show ?case by simp
next
  case (Cons b bs)
  obtain j f where b: "b = (j, f)" by (cases b)
  show ?case
  proof (cases "p = a + 12")
    case True
    then show ?thesis using kfree_head [of m a j f bs] Cons.prems b by simp
  next
    case False
    then have p: "(p, k) \<in> live (a + 12 + j) bs" using Cons.prems(4) b by (auto split: if_splits)
    then have pb: "a + 12 + j + 12 \<le> p" "p \<le> a + 12 + j + span bs" using live_bounds [OF p] by auto
    have "load_header (kfree (of_nat (p - 12 + 12)) m) (of_nat a) = load_header m (of_nat a)"
      by (rule load_header_frame, use Cons.prems b in simp, rule kfree_frame)
        (use Cons.prems b pb in auto)
    moreover have "heap_at (kfree (of_nat p) m) (a + 12 + j) (free_blocks (a + 12 + j) p bs)"
      by (rule Cons.IH) (use Cons.prems b p in simp_all)
    ultimately show ?thesis using False b Cons.prems(1) pb by simp
  qed
qed

lemma free_blocks_aligned:
  "list_all (\<lambda>b. 4 dvd fst b) bs \<Longrightarrow> list_all (\<lambda>b. 4 dvd fst b) (free_blocks a p bs)"
  by (induction a p bs rule: free_blocks.induct) (auto simp: merge_next_facts)

lemma free_blocks_live:
  "(p, k) \<in> live a bs \<Longrightarrow> live a (free_blocks a p bs) = live a bs - {(p, k)}"
proof (induction a p bs rule: free_blocks.induct)
  case (2 a p j f bs)
  then show ?case by (auto simp: merge_next_facts dest: live_bounds split: if_splits)
qed simp

lemma heap_inv_free:
  assumes "heap_inv m a bs" "(p, k) \<in> live a bs"
  shows "heap_inv (kfree (of_nat p) m) a (free_blocks a p bs)"
  using assms kfree_refines [of m a bs p k]
  by (simp add: heap_inv_def free_blocks_aligned)

lemma heap_inv_client:
  assumes "heap_inv m a bs" "\<And>x. unat x \<in> header_bytes a bs \<Longrightarrow> m' x = m x"
  shows "heap_inv m' a bs"
  using assms heap_at_frame [of a bs m m'] by (simp add: heap_inv_def)

lemma live_header: "(p, k) \<in> live a bs \<Longrightarrow> {p - 12..<p} \<subseteq> header_bytes a bs"
  by (induction a bs rule: live.induct) (auto split: if_splits)

lemma live_functional: "(q, k) \<in> live a bs \<Longrightarrow> (q, k') \<in> live a bs \<Longrightarrow> k = k'"
  by (induction a bs rule: live.induct) (auto split: if_splits dest: live_bounds)

subsection \<open>The heap is an allocator\<close>

text \<open>The heap ends where \<open>main_entry\<close> (\<open>kernel/init.c\<close>) ends it, at 2 MiB.\<close>

abbreviation HEAP_END :: nat where
  "HEAP_END \<equiv> 0x200000"

definition heap_rep :: "u32 \<Rightarrow> mem \<Rightarrow> (nat \<times> nat) set \<Rightarrow> bool" where
  "heap_rep heap_start m L \<longleftrightarrow>
     (\<exists>bs. heap_inv m (unat heap_start) bs \<and> unat heap_start + span bs \<le> HEAP_END \<and>
        L = live (unat heap_start) bs)"

definition round4 :: "u32 \<Rightarrow> nat" where
  "round4 sz = (unat sz + 3) div 4 * 4"

lemma round4_facts:
  "4 dvd round4 sz" "unat sz \<le> round4 sz" "round4 sz \<le> unat sz + 3"
  "unat sz + 3 < 2 ^ 32 \<Longrightarrow> align4 sz = of_nat (round4 sz)"
proof -
  show "4 dvd round4 sz" "unat sz \<le> round4 sz" "round4 sz \<le> unat sz + 3"
    unfolding round4_def by auto
  show "align4 sz = of_nat (round4 sz)" if "unat sz + 3 < 2 ^ 32"
    unfolding round4_def unat_align4 [OF that, symmetric] by simp
qed

lemma kmalloc_cases:
  assumes inv: "heap_inv m (unat hs) bs" and sz: "unat sz + 3 < 2 ^ 32"
  shows "case alloc_blocks (unat hs) (round4 sz) bs of
      None \<Rightarrow> kmalloc hs sz m = Some (0, m)
    | Some (p, bs') \<Rightarrow> \<exists>m'. kmalloc hs sz m = Some (of_nat p, m')
        \<and> heap_inv m' (unat hs) bs' \<and> heap_frame (unat hs) bs m m'"
proof -
  have "hs \<noteq> 0" using inv by (auto simp: heap_inv_def)
  moreover have "round4 sz < 2 ^ 32" using round4_facts(3) sz by (rule le_less_trans)
  ultimately show ?thesis
    using heap_inv_alloc [OF inv round4_facts(1) \<open>round4 sz < 2 ^ 32\<close>]
    by (auto simp: kmalloc_def round4_facts(4) [OF sz] split: option.splits)
qed

lemma alloc_ptr_bound:
  assumes "heap_inv m a bs" "alloc_blocks a n bs = Some (p, bs')"
  shows "0 < p" "p < 2 ^ 32" "unat (of_nat p :: u32) = p"
proof -
  obtain k where "(p, k) \<in> live a bs'" using alloc_blocks_live [OF assms(2)] by blast
  from live_bounds [OF this] assms alloc_blocks_span [OF assms(2)]
  show "0 < p" "p < 2 ^ 32" by (auto simp: heap_inv_def)
  then show "unat (of_nat p :: u32) = p" by (simp add: unat_of_nat)
qed

lemma kmalloc_aligned:
  assumes "heap_rep hs m L" "unat sz + 3 < 2 ^ 32" "kmalloc hs sz m = Some (p, m')"
  shows "4 dvd unat p"
proof -
  from assms(1) obtain bs where bs: "heap_inv m (unat hs) bs" by (auto simp: heap_rep_def)
  show ?thesis
    using kmalloc_cases [OF bs assms(2)] assms(3) bs alloc_ptr_bound [OF bs]
      alloc_blocks_ptr [of "unat hs" "round4 sz" bs]
    by (auto simp: heap_inv_def split: option.splits)
qed

interpretation kheap: allocator "heap_rep hs" "kmalloc hs" kfree for hs
proof (unfold_locales, goal_cases)
  case (1 m L n)
  then obtain bs where "heap_inv m (unat hs) bs" by (auto simp: heap_rep_def)
  from kmalloc_cases [OF this 1(2)] show ?case by (auto split: option.splits)
next
  case (2 m L n m')
  then obtain bs where bs: "heap_inv m (unat hs) bs" by (auto simp: heap_rep_def)
  from kmalloc_cases [OF bs 2(2)] 2(3) show ?case
    using alloc_ptr_bound [OF bs] of_nat_eq_0_u32 by (fastforce split: option.splits)
next
  case (3 m L n p m')
  then obtain bs where bs: "heap_inv m (unat hs) bs" "L = live (unat hs) bs"
    and sp: "unat hs + span bs \<le> HEAP_END" by (auto simp: heap_rep_def)
  with kmalloc_cases [OF bs(1) 3(2)] 3(3,4) obtain q bs' where
    q: "alloc_blocks (unat hs) (round4 n) bs = Some (q, bs')" "p = of_nat q"
    "heap_inv m' (unat hs) bs'" by (auto split: option.splits)
  from alloc_blocks_live [OF q(1)] obtain k where
    k: "round4 n \<le> k" "live (unat hs) bs' = insert (q, k) (live (unat hs) bs)" by blast
  have "unat p = q" using q(2) alloc_ptr_bound [OF bs(1) q(1)] by simp
  moreover have "q \<notin> fst ` L" using alloc_blocks_fresh [OF q(1)] bs(2) by force
  ultimately show ?case
    using k q(3) bs(2) sp alloc_blocks_span [OF q(1)] round4_facts(2) [of n] by (auto simp: heap_rep_def intro!: exI [of _ k])
next
  case (4 m L n p m' e x)
  then obtain bs where bs: "heap_inv m (unat hs) bs" "L = live (unat hs) bs" by (auto simp: heap_rep_def)
  from kmalloc_cases [OF bs(1) 4(2)] 4(3-5) bs(2) show ?case
    by (cases e) (auto simp: heap_frame_def extent_def split: option.splits)
next
  case (5 m L p k)
  then obtain bs where bs: "heap_inv m (unat hs) bs" "L = live (unat hs) bs"
    and sp: "unat hs + span bs \<le> HEAP_END" by (auto simp: heap_rep_def)
  from heap_inv_free [OF bs(1), of "unat p" k] free_blocks_live [of "unat p" k] 5(2) bs(2) sp
  show ?case by (auto simp: heap_rep_def intro!: exI [of _ "free_blocks (unat hs) (unat p) bs"])
next
  case (6 m L p k e x)
  then obtain bs where bs: "heap_inv m (unat hs) bs" "L = live (unat hs) bs" by (auto simp: heap_rep_def)
  have p: "unat p - 12 + 12 = unat p" "0 < unat p - 12" "unat p < 2 ^ 32"
    using live_bounds [of "unat p" k "unat hs" bs] 6(2) bs by (auto simp: heap_inv_def)
  have "unat x \<notin> {unat p - 12..<unat p}"
    using live_header [of "unat p" k "unat hs" bs] 6(2-4) bs(2)
      live_not_header [of "fst e" "snd e" "unat hs" bs "unat x"] by (auto simp: extent_def)
  then have "unat x < unat p - 12 \<or> unat p \<le> unat x" by auto
  then show ?case using kfree_frame [of "unat p - 12" x m] p by simp
next
  case (7 m L e m')
  then obtain bs where bs: "heap_inv m (unat hs) bs" "L = live (unat hs) bs"
    and sp: "unat hs + span bs \<le> HEAP_END" by (auto simp: heap_rep_def)
  have "heap_inv m' (unat hs) bs"
    by (rule heap_inv_client [OF bs(1)], rule 7(3))
      (use 7(2) bs(2) live_not_header in \<open>cases e, auto simp: extent_def\<close>)
  then show ?case using bs(2) sp by (auto simp: heap_rep_def)
next
  case (8 m L e e')
  then show ?case
    using live_disjoint by (cases e; cases e') (fastforce simp: heap_rep_def extent_def)
next
  case (9 m L q k k')
  then show ?case using live_functional by (auto simp: heap_rep_def)
next
  case (10 m L q k)
  then show ?case using live_bounds by (fastforce simp: heap_rep_def heap_inv_def)
qed

subsection \<open>Initialisation and accounting\<close>

lemma heap_init_inv:
  assumes "0 < start" "4 dvd unat start" "4 dvd unat sz" "16 \<le> unat sz" "unat start + unat sz < 2 ^ 32"
  shows "heap_inv (snd (heap_init start sz m)) (unat start) [(unat sz - 12, True)]"
proof -
  have "of_nat (unat sz - 12) = sz - 12" using assms by (simp add: of_nat_diff)
  moreover have "4 dvd unat sz - 12" using assms by (intro dvd_diff_nat) auto
  ultimately show ?thesis
    using assms by (simp add: heap_inv_def heap_init_def word_less_nat_alt)
qed

lemma heap_init_rep:
  assumes "0 < start" "4 dvd unat start" "4 dvd unat sz" "16 \<le> unat sz" "unat start + unat sz \<le> HEAP_END"
  shows "heap_rep start (snd (heap_init start sz m)) {}"
  unfolding heap_rep_def
  using assms by (intro exI [of _ "[(unat sz - 12, True)]"]) (simp add: heap_init_inv)

text \<open>Memory below and above the heap is no part of it.\<close>

lemma heap_rep_outside:
  assumes "heap_rep hs m L" "\<And>x. m' x \<noteq> m x \<Longrightarrow> unat x < unat hs \<or> HEAP_END \<le> unat x"
  shows "heap_rep hs m' L"
proof -
  from assms(1) obtain bs where bs: "heap_inv m (unat hs) bs" "L = live (unat hs) bs" "unat hs + span bs \<le> HEAP_END"
    by (auto simp: heap_rep_def)
  have "heap_at m' (unat hs) bs"
  proof (rule heap_at_frame [of "unat hs" bs m])
    show "m' x = m x" if "unat x \<in> header_bytes (unat hs) bs" for x
      using header_bytes_bounds [OF that] assms(2) [of x] bs(3) by linarith
  qed (use bs in \<open>simp_all add: heap_inv_def\<close>)
  then show ?thesis using bs by (auto simp: heap_rep_def heap_inv_def)
qed

lemma heap_rep_bounds: "heap_rep hs m L \<Longrightarrow> (q, k) \<in> L \<Longrightarrow> unat hs + 12 \<le> q \<and> q + k \<le> HEAP_END"
  using live_bounds [of q k "unat hs"] by (fastforce simp: heap_rep_def)

lemma kmalloc_outside:
  assumes "heap_rep hs m L" "unat sz + 3 < 2 ^ 32" "kmalloc hs sz m = Some (p, m')"
    "unat x < unat hs \<or> HEAP_END \<le> unat x"
  shows "m' x = m x"
proof -
  from assms(1) obtain bs where bs: "heap_inv m (unat hs) bs" "unat hs + span bs \<le> HEAP_END" by (auto simp: heap_rep_def)
  from kmalloc_cases [OF bs(1) assms(2)] assms(3,4) bs(2) show ?thesis
    by (auto simp: heap_frame_def split: option.splits)
qed

lemma kfree_outside:
  assumes "heap_rep hs m L" "(unat p, k) \<in> L" "unat x < unat hs \<or> HEAP_END \<le> unat x"
  shows "kfree p m x = m x"
proof -
  have b: "unat hs + 12 \<le> unat p" "unat p + k \<le> HEAP_END" using heap_rep_bounds [OF assms(1,2)] by simp_all
  have "0 < unat hs" using assms(1) by (auto simp: heap_rep_def heap_inv_def)
  then have "kfree (of_nat (unat p - 12 + 12)) m x = m x" using b assms(3) by (intro kfree_frame) auto
  then show ?thesis using b by simp
qed

definition used_bytes :: "block list \<Rightarrow> nat" where
  "used_bytes bs = sum_list (map fst (filter (\<lambda>b. \<not> snd b) bs))"

definition free_bytes :: "block list \<Rightarrow> nat" where
  "free_bytes bs = sum_list (map fst (filter snd bs))"

lemma span_split: "span bs = used_bytes bs + free_bytes bs + 12 * length bs"
  by (induction bs) (auto simp: used_bytes_def free_bytes_def)

lemma heap_stats_loop_refines:
  assumes "heap_at m a bs" "0 < a" "a + span bs < 2 ^ 32" "c = (if bs = [] then 0 else of_nat a)"
  shows "heap_stats_loop m c u v =
    Some (u + of_nat (used_bytes bs), v + of_nat (free_bytes bs))"
  using assms
proof (induction bs arbitrary: a c u v)
  case Nil
  then show ?case by (simp add: heap_stats_loop.simps used_bytes_def free_bytes_def)
next
  case (Cons b bs)
  obtain k f where b: "b = (k, f)" by (cases b)
  let ?h = "load_header m (of_nat a)"
  have h: "hsize ?h = of_nat k" "(his_free ?h \<noteq> 0) = f"
    "hnext ?h = (if bs = [] then 0 else of_nat (a + 12 + k))" "heap_at m (a + 12 + k) bs"
    using Cons.prems b by simp_all
  have c: "c = of_nat a" "c \<noteq> 0" using Cons.prems by (auto simp: of_nat_u32)
  have IH: "heap_stats_loop m (hnext ?h) u' v' =
      Some (u' + of_nat (used_bytes bs), v' + of_nat (free_bytes bs))" for u' v'
    by (rule Cons.IH [OF h(4)]) (use Cons.prems b h(3) in simp_all)
  show ?case
    by (subst heap_stats_loop.simps)
      (use c h IH b in \<open>auto simp: used_bytes_def free_bytes_def ac_simps\<close>)
qed

lemma heap_stats_refines:
  assumes "heap_inv m (unat hs) bs"
  shows "heap_stats hs m = Some (of_nat (used_bytes bs), of_nat (free_bytes bs))"
  using heap_stats_loop_refines [of m "unat hs" bs hs 0 0] assms
  by (simp add: heap_stats_def heap_inv_def)

lemma alloc_blocks_None:
  "alloc_blocks a n bs = None \<longleftrightarrow> (\<forall>b \<in> set bs. \<not> (snd b \<and> n \<le> fst b))"
  by (induction a n bs rule: alloc_blocks.induct) auto

lemma used_bytes_live: "finite (live a bs) \<and> used_bytes bs = (\<Sum>e \<in> live a bs. snd e)"
proof (induction a bs rule: live.induct)
  case (2 a n f bs)
  have "(a + 12, n) \<notin> live (a + 12 + n) bs" using live_bounds by fastforce
  with 2 show ?case by (auto simp: used_bytes_def)
qed (simp add: used_bytes_def)

text \<open>The heap as \<open>main_entry\<close> sets it up: one MiB from address \<open>0x100000\<close>.\<close>

definition boot_heap :: "mem \<Rightarrow> mem" where
  "boot_heap m = snd (heap_init 0x100000 0x100000 m)"

lemma boot_heap_inv: "heap_inv (boot_heap m) 0x100000 [(0xFFFF4, True)]"
  using heap_init_inv [of "0x100000" "0x100000" m] by (simp add: boot_heap_def)

lemma boot_heap_rep: "heap_rep 0x100000 (boot_heap m) {}"
  using heap_init_rep [of "0x100000" "0x100000" m] by (simp add: boot_heap_def)

lemma boot_heap_alloc:
  "\<exists>m'. kmalloc 0x100000 0x1000 (boot_heap m) = Some (0x10000C, m')"
  using kmalloc_cases [of "boot_heap m" "0x100000" "[(0xFFFF4, True)]" "0x1000"] boot_heap_inv
  by (auto simp: round4_def)

subsection \<open>Properties\<close>

text \<open>C5. In every well-formed heap, \<open>kmalloc\<close> returns (its list walk ends). A \<open>NULL\<close> result leaves
  the memory as it was. Any other result is a 4-byte aligned extent of at least the requested
  size, disjoint from every extent allocated before, and no byte of those extents has changed.
  Requests above \<open>0xFFFFFFFC\<close> are excluded: their rounding wraps, see \<open>kmalloc_wraps\<close>.\<close>

theorem kmalloc_safe:
  assumes "heap_rep hs m L" "unat sz + 3 < 2 ^ 32"
  shows "\<exists>p m'. kmalloc hs sz m = Some (p, m') \<and> (p = 0 \<longrightarrow> m' = m)
    \<and> (p \<noteq> 0 \<longrightarrow> 4 dvd unat p
        \<and> (\<exists>k \<ge> unat sz. heap_rep hs m' (insert (unat p, k) L)
             \<and> (\<forall>e \<in> L. extent (unat p, k) \<inter> extent e = {}))
        \<and> (\<forall>e \<in> L. \<forall>x. unat x \<in> extent e \<longrightarrow> m' x = m x))"
proof -
  obtain p m' where r: "kmalloc hs sz m = Some (p, m')" using kheap.alloc_returns [OF assms] by blast
  have "m' = m" if "p = 0" using kheap.alloc_null [OF assms] r that by simp
  moreover have "4 dvd unat p" using kmalloc_aligned [OF assms r] .
  moreover have "\<forall>e \<in> L. \<forall>x. unat x \<in> extent e \<longrightarrow> m' x = m x"
    using kheap.alloc_frame [OF assms r] by blast
  moreover have "\<exists>k \<ge> unat sz. heap_rep hs m' (insert (unat p, k) L)
      \<and> (\<forall>e \<in> L. extent (unat p, k) \<inter> extent e = {})" if p: "p \<noteq> 0"
  proof -
    obtain k where k: "k \<ge> unat sz" "heap_rep hs m' (insert (unat p, k) L)" "unat p \<notin> fst ` L"
      using kheap.alloc_fresh [OF assms r p] by blast
    have "extent (unat p, k) \<inter> extent e = {}" if "e \<in> L" for e
      using kheap.rep_disjoint [OF k(2), of "(unat p, k)" e] k(3) that by force
    with k show ?thesis by blast
  qed
  ultimately show ?thesis using r by blast
qed

theorem kmalloc_safe_witness:
  "\<exists>m'. kmalloc 0x100000 0x1000 (boot_heap (\<lambda>_. 0)) = Some (0x10000C, m')
    \<and> (\<exists>k \<ge> 0x1000. heap_rep 0x100000 m' {(0x10000C, k)})"
proof -
  obtain m' where m': "kmalloc 0x100000 0x1000 (boot_heap (\<lambda>_. 0)) = Some (0x10000C, m')"
    using boot_heap_alloc by blast
  with kmalloc_safe [OF boot_heap_rep, of "0x1000" "\<lambda>_. 0"] show ?thesis by auto
qed

text \<open>Remark. Completeness of the search: \<open>kmalloc\<close> reports \<open>NULL\<close> exactly when no free block holds the
  request rounded up to a multiple of four.\<close>

theorem kmalloc_null_iff:
  assumes "heap_inv m (unat hs) bs" "unat sz + 3 < 2 ^ 32"
  shows "kmalloc hs sz m = Some (0, m) \<longleftrightarrow>
    (\<forall>b \<in> set bs. snd b \<longrightarrow> fst b < (unat sz + 3) div 4 * 4)"
proof -
  have "kmalloc hs sz m = Some (0, m) \<longleftrightarrow> alloc_blocks (unat hs) (round4 sz) bs = None"
  proof (cases "alloc_blocks (unat hs) (round4 sz) bs")
    case (Some r)
    obtain p bs' where r: "r = (p, bs')" by (cases r)
    have "of_nat p \<noteq> (0 :: u32)"
      using alloc_ptr_bound [OF assms(1) Some [unfolded r]] by (simp add: of_nat_eq_0_u32)
    with kmalloc_cases [OF assms] Some r show ?thesis by auto
  qed (use kmalloc_cases [OF assms] in simp)
  then show ?thesis by (auto simp: alloc_blocks_None round4_def not_le)
qed

theorem kmalloc_null_iff_witness:
  "kmalloc 0x100000 0x200000 (boot_heap (\<lambda>_. 0)) = Some (0, boot_heap (\<lambda>_. 0))"
  using kmalloc_null_iff [of "boot_heap (\<lambda>_. 0)" "0x100000" "[(0xFFFF4, True)]" "0x200000"]
    boot_heap_inv by simp

text \<open>Remark. Releasing what \<open>kmalloc\<close> returned gives back exactly the previous set of allocated extents:
  the pair leaks nothing, and a release never disturbs the bytes of another extent.\<close>

theorem kmalloc_kfree:
  assumes "heap_rep hs m L" "unat sz + 3 < 2 ^ 32" "kmalloc hs sz m = Some (p, m')" "p \<noteq> 0"
  shows "heap_rep hs (kfree p m') L \<and> (\<forall>e \<in> L. \<forall>x. unat x \<in> extent e \<longrightarrow> kfree p m' x = m x)"
proof -
  obtain k where k: "heap_rep hs m' (insert (unat p, k) L)" "unat p \<notin> fst ` L"
    using kheap.alloc_fresh [OF assms] by blast
  have "insert (unat p, k) L - {(unat p, k)} = L" using k(2) by force
  moreover have "kfree p m' x = m x" if "e \<in> L" "unat x \<in> extent e" for e x
    using kheap.free_frame [OF k(1), of p k e x] kheap.alloc_frame [OF assms(1-3) that] that by simp
  ultimately show ?thesis using kheap.free_rep [OF k(1), of p k] by auto
qed

theorem kmalloc_kfree_witness:
  "\<exists>p m'. kmalloc 0x100000 0x1000 (boot_heap (\<lambda>_. 0)) = Some (p, m') \<and> p \<noteq> 0
    \<and> heap_rep 0x100000 (kfree p m') {}"
proof -
  obtain m' where m': "kmalloc 0x100000 0x1000 (boot_heap (\<lambda>_. 0)) = Some (0x10000C, m')"
    using boot_heap_alloc by blast
  with kmalloc_kfree [OF boot_heap_rep _ m'] show ?thesis by auto
qed

text \<open>Remark. The \<open>mem\<close> command's figures are exact: \<open>heap_stats\<close> ends, reports as used the sum of the
  allocated payloads, and used, free and header bytes add up to the whole heap.\<close>

theorem heap_stats_accounts:
  assumes "heap_inv m (unat hs) bs"
  shows "\<exists>u v. heap_stats hs m = Some (u, v) \<and> unat u = (\<Sum>e \<in> live (unat hs) bs. snd e)
    \<and> unat u + unat v + 12 * length bs = span bs"
proof -
  have "used_bytes bs < 2 ^ 32" "free_bytes bs < 2 ^ 32"
    using assms span_split [of bs] by (auto simp: heap_inv_def)
  then have "unat (of_nat (used_bytes bs) :: u32) = used_bytes bs"
    "unat (of_nat (free_bytes bs) :: u32) = free_bytes bs" by (simp_all add: unat_of_nat)
  then show ?thesis
    using heap_stats_refines [OF assms] span_split [of bs] used_bytes_live [of "unat hs" bs] by metis
qed

theorem heap_stats_accounts_witness:
  "\<exists>u v. heap_stats 0x100000 (boot_heap (\<lambda>_. 0)) = Some (u, v) \<and> unat u = 0
    \<and> unat u + unat v + 12 = 0x100000"
  using heap_stats_accounts [of "boot_heap (\<lambda>_. 0)" "0x100000" "[(0xFFFF4, True)]"]
    boot_heap_inv by simp

text \<open>Remark. A request of \<open>0xFFFFFFFF\<close> bytes is not refused: \<open>size + 3\<close> wraps to 2 and the mask leaves 0, so
  the boot-time heap hands out a block whose payload is empty.\<close>

theorem kmalloc_wraps:
  "\<exists>m'. kmalloc 0x100000 0xFFFFFFFF (boot_heap m) = Some (0x10000C, m')
    \<and> hsize (load_header m' 0x100000) = 0"
proof -
  let ?m = "boot_heap m"
  from heap_inv_alloc [OF boot_heap_inv, of 0 m] obtain m' where
    m': "kmalloc_loop ?m 0x100000 0 = Some (0x10000C, m')" "heap_inv m' 0x100000 [(0, False), (0xFFFE8, True)]"
    by auto
  from m'(2) have "hsize (load_header m' 0x100000) = 0" by (simp add: heap_inv_def)
  moreover have "align4 0xFFFFFFFF = 0" by (simp add: align4_def)
  ultimately show ?thesis using m'(1) by (simp add: kmalloc_def)
qed

end
