(* ===== verification/Pit.thy ===== *)
theory Pit
  imports Mx_Prelude
begin

text \<open>
  The programmable interval timer, \<open>kernel/pit.c\<close>: the tick counter, the nominal frequency, and the
  16-bit divisor that \<open>pit_init\<close> writes to channel 0.
\<close>

record pit =
  ticks :: u32
  frequency :: u32

abbreviation PIT_CHANNEL0 :: u16 where "PIT_CHANNEL0 \<equiv> 0x40"
abbreviation PIT_COMMAND :: u16 where "PIT_COMMAND \<equiv> 0x43"
abbreviation PIT_BASE_FREQ :: u32 where "PIT_BASE_FREQ \<equiv> 1193182"

definition pit_divisor :: "u32 \<Rightarrow> u32" where
  "pit_divisor hz =
     (let divisor = PIT_BASE_FREQ div hz;
          divisor = (if divisor = 0 then 1 else divisor)
      in if divisor > 0xFFFF then 0xFFFF else divisor)"

definition pit_init :: "u32 \<Rightarrow> pit \<Rightarrow> port_write list \<times> pit" where
  "pit_init frequency_hz p =
     (let hz = (if frequency_hz = 0 then 100 else frequency_hz);
          divisor = pit_divisor hz
      in ([(PIT_COMMAND, 0x36), (PIT_CHANNEL0, ucast (divisor AND 0xFF)),
           (PIT_CHANNEL0, ucast (drop_bit 8 divisor AND 0xFF))],
          p\<lparr>frequency := hz, ticks := 0\<rparr>))"

definition timer_tick :: "pit \<Rightarrow> pit" where
  "timer_tick p = p\<lparr>ticks := ticks p + 1\<rparr>"

definition get_ticks :: "pit \<Rightarrow> u32" where
  "get_ticks p = ticks p"

definition pit_get_frequency :: "pit \<Rightarrow> u32" where
  "pit_get_frequency p = frequency p"

text \<open>What the counter of channel 0 is loaded with: the two data bytes, low byte first.\<close>

fun loaded_divisor :: "port_write list \<Rightarrow> nat option" where
  "loaded_divisor [(c, mode), (d, lo), (e, hi)] =
     (if c = PIT_COMMAND \<and> mode = 0x36 \<and> d = PIT_CHANNEL0 \<and> e = PIT_CHANNEL0 then Some (unat lo + 256 * unat hi) else None)"
| "loaded_divisor ws = None"

lemma pit_divisor_value:
  assumes "hz \<noteq> 0"
  shows "unat (pit_divisor hz) = max 1 (min 0xFFFF (1193182 div unat hz))"
proof -
  have "unat (PIT_BASE_FREQ div hz) = 1193182 div unat hz" by (simp add: unat_div)
  then show ?thesis
    by (auto simp: pit_divisor_def Let_def word_less_nat_alt unat_eq_0 min_def max_def
        simp flip: unat_eq_0)
qed

lemma bytes16_join:
  fixes d :: u32
  assumes "unat d \<le> 0xFFFF"
  shows "unat (ucast (d AND 0xFF) :: u8) + 256 * unat (ucast (drop_bit 8 d AND 0xFF) :: u8) = unat d"
proof -
  have "unat (ucast (d AND 0xFF) :: u8) = unat d mod 256"
    "unat (ucast (drop_bit 8 d AND 0xFF) :: u8) = unat d div 256 mod 256"
    using unat_byte_field [of 0 d] unat_byte_field [of 8 d] by (simp_all only: and_mask_fields) simp_all
  moreover have "unat d div 256 < 256" using assms by simp
  ultimately show ?thesis by simp
qed

text \<open>
  Remark. \<open>pit_init\<close> resets the tick counter and loads the counter with
  \<open>PIT_BASE_FREQ / hz\<close> clamped to 1..65535 (0 Hz standing for 100 Hz). The loaded value is never 0,
  which the 8253 would read as 65536.
\<close>

theorem pit_init_divisor:
  "\<exists>ws p'. pit_init hz p = (ws, p') \<and> ticks p' = 0 \<and>
    frequency p' = (if hz = 0 then 100 else hz) \<and>
    loaded_divisor ws = Some (max 1 (min 0xFFFF (1193182 div unat (frequency p'))))"
proof -
  define f :: u32 where "f = (if hz = 0 then 100 else hz)"
  have f: "f \<noteq> 0" by (simp add: f_def)
  have "unat (pit_divisor f) \<le> 0xFFFF" using pit_divisor_value [OF f] by simp
  from bytes16_join [OF this] pit_divisor_value [OF f] show ?thesis
    by (simp add: pit_init_def f_def [symmetric] Let_def del: unat_eq_0)
qed

text \<open>
  Remark. Below 19 Hz the divisor saturates: the recorded frequency is the requested one,
  but the counter is loaded with 65535, whatever the request. Sleeps computed from
  \<open>pit_get_frequency\<close> are then too short.
\<close>

theorem pit_init_slow:
  assumes "0 < hz" "hz < 19"
  shows "loaded_divisor (fst (pit_init hz p)) = Some 0xFFFF \<and>
    pit_get_frequency (snd (pit_init hz p)) = hz"
proof -
  have n: "0 < unat hz" "unat hz \<le> 18" using assms by (auto simp: word_less_nat_alt)
  then have "0xFFFF \<le> 1193182 div unat hz" using div_le_mono2 [of "unat hz" 18 1193182] by simp
  then have d: "unat (pit_divisor hz) = 0xFFFF"
    using pit_divisor_value [of hz] assms by (simp add: max_def min_def)
  then show ?thesis using assms bytes16_join [of "pit_divisor hz"]
    by (simp add: pit_init_def Let_def pit_get_frequency_def del: unat_eq_0)
qed

theorem pit_init_slow_witness:
  "loaded_divisor (fst (pit_init 10 \<lparr>ticks = 0, frequency = 100\<rparr>)) = Some 0xFFFF"
  using pit_init_slow [of 10] by simp

end
