(* ===== verification/Gdt.thy ===== *)
theory Gdt
  imports Mx_Prelude
begin

text \<open>
  Segmentation, \<open>kernel/gdt.c\<close>: the six descriptors, the task-state segment, and what the processor
  decodes from a descriptor.
\<close>

record gdt_entry =
  limit_low :: u16
  base_low :: u16
  base_middle :: u8
  access :: u8
  granularity :: u8
  base_high :: u8

record gdt_ptr =
  gp_limit :: u16
  gp_base :: u32

text \<open>\<open>struct tss_entry\<close>; the fields that the code only ever zeroes are kept as well.\<close>

record tss_entry =
  prev_tss :: u32
  esp0 :: u32
  ss0 :: u32
  tss_esp1 :: u32
  tss_ss1 :: u32
  tss_esp2 :: u32
  tss_ss2 :: u32
  tss_cr3 :: u32
  tss_eip :: u32
  tss_eflags :: u32
  tss_eax :: u32
  tss_ecx :: u32
  tss_edx :: u32
  tss_ebx :: u32
  tss_esp :: u32
  tss_ebp :: u32
  tss_esi :: u32
  tss_edi :: u32
  tss_es :: u32
  tss_cs :: u32
  tss_ss :: u32
  tss_ds :: u32
  tss_fs :: u32
  tss_gs :: u32
  tss_ldt :: u32
  tss_trap :: u16
  iomap_base :: u16

abbreviation sizeof_tss :: u32 where "sizeof_tss \<equiv> 104"
abbreviation GDT_ENTRIES :: nat where "GDT_ENTRIES \<equiv> 6"
abbreviation SEL_KERNEL_CODE :: u32 where "SEL_KERNEL_CODE \<equiv> 0x08"
abbreviation SEL_KERNEL_DATA :: u32 where "SEL_KERNEL_DATA \<equiv> 0x10"

text \<open>The descriptor table, the TSS, and the registers that \<open>gdt_flush\<close> and \<open>tss_flush\<close> load.\<close>

record gdt_state =
  gdt :: "nat \<Rightarrow> gdt_entry"
  gp :: gdt_ptr
  tss :: tss_entry
  gdtr :: gdt_ptr
  seg_cs :: u16
  seg_data :: u16
  task_register :: u16

definition gate :: "u32 \<Rightarrow> u32 \<Rightarrow> u8 \<Rightarrow> u8 \<Rightarrow> gdt_entry" where
  "gate base limit acc gran =
     \<lparr>limit_low = ucast (limit AND 0xFFFF), base_low = ucast (base AND 0xFFFF),
      base_middle = ucast (drop_bit 16 base AND 0xFF), access = acc,
      granularity = ucast (drop_bit 16 limit AND 0x0F) OR (gran AND 0xF0),
      base_high = ucast (drop_bit 24 base AND 0xFF)\<rparr>"

definition gdt_set_gate :: "nat \<Rightarrow> u32 \<Rightarrow> u32 \<Rightarrow> u8 \<Rightarrow> u8 \<Rightarrow> gdt_state \<Rightarrow> gdt_state" where
  "gdt_set_gate num base limit acc gran g =
     g\<lparr>gdt := (gdt g)(num := gate base limit acc gran)\<rparr>"

definition zero_tss :: tss_entry where
  "zero_tss =
     \<lparr>prev_tss = 0, esp0 = 0, ss0 = 0, tss_esp1 = 0, tss_ss1 = 0, tss_esp2 = 0, tss_ss2 = 0,
      tss_cr3 = 0, tss_eip = 0, tss_eflags = 0, tss_eax = 0, tss_ecx = 0, tss_edx = 0, tss_ebx = 0,
      tss_esp = 0, tss_ebp = 0, tss_esi = 0, tss_edi = 0, tss_es = 0, tss_cs = 0, tss_ss = 0,
      tss_ds = 0, tss_fs = 0, tss_gs = 0, tss_ldt = 0, tss_trap = 0, iomap_base = 0\<rparr>"

definition write_tss :: "layout \<Rightarrow> nat \<Rightarrow> gdt_state \<Rightarrow> gdt_state" where
  "write_tss L num g =
     (let base = tss_at L; limit = base + sizeof_tss;
          g1 = gdt_set_gate num base limit 0x89 0x00 g;
          seg = SEL_KERNEL_DATA OR 3
      in g1\<lparr>tss := zero_tss\<lparr>ss0 := SEL_KERNEL_DATA, esp0 := tss_kernel_stack_at L + 4096,
               tss_cs := SEL_KERNEL_CODE OR 3, tss_ss := seg, tss_ds := seg, tss_es := seg,
               tss_fs := seg, tss_gs := seg, iomap_base := ucast sizeof_tss\<rparr>\<rparr>)"

definition gdt_flush :: "gdt_state \<Rightarrow> gdt_state" where
  "gdt_flush g = g\<lparr>gdtr := gp g, seg_data := 0x10, seg_cs := 0x08\<rparr>"

definition tss_flush :: "gdt_state \<Rightarrow> gdt_state" where
  "tss_flush g = g\<lparr>task_register := 0x28\<rparr>"

definition gdt_init :: "layout \<Rightarrow> gdt_state \<Rightarrow> gdt_state" where
  "gdt_init L g =
     (let g = g\<lparr>gp := \<lparr>gp_limit = 8 * 6 - 1, gp_base = gdt_at L\<rparr>\<rparr>;
          g = gdt_set_gate 0 0 0 0 0 g;
          g = gdt_set_gate 1 0 0xFFFFFFFF 0x9A 0xCF g;
          g = gdt_set_gate 2 0 0xFFFFFFFF 0x92 0xCF g;
          g = gdt_set_gate 3 0 0xFFFFFFFF 0xFA 0xCF g;
          g = gdt_set_gate 4 0 0xFFFFFFFF 0xF2 0xCF g;
          g = write_tss L 5 g
      in tss_flush (gdt_flush g))"

definition tss_set_kernel_stack :: "u32 \<Rightarrow> gdt_state \<Rightarrow> gdt_state" where
  "tss_set_kernel_stack e g = g\<lparr>tss := (tss g)\<lparr>esp0 := e\<rparr>\<rparr>"

subsection \<open>What the processor decodes\<close>

definition entry_base :: "gdt_entry \<Rightarrow> u32" where
  "entry_base e = ucast (base_low e) OR push_bit 16 (ucast (base_middle e))
     OR push_bit 24 (ucast (base_high e))"

text \<open>The raw 20-bit limit.\<close>

definition entry_limit :: "gdt_entry \<Rightarrow> u32" where
  "entry_limit e = ucast (limit_low e) OR push_bit 16 (ucast (granularity e AND 0x0F))"

text \<open>The last valid offset: the granularity bit scales the limit to 4 KiB units.\<close>

definition last_offset :: "gdt_entry \<Rightarrow> u32" where
  "last_offset e = (if bit (granularity e) 7 then push_bit 12 (entry_limit e) OR 0xFFF else entry_limit e)"

definition present :: "gdt_entry \<Rightarrow> bool" where
  "present e = bit (access e) 7"

definition dpl :: "gdt_entry \<Rightarrow> nat" where
  "dpl e = unat (drop_bit 5 (access e) AND 3)"

definition code_segment :: "gdt_entry \<Rightarrow> bool" where
  "code_segment e = (bit (access e) 4 \<and> bit (access e) 3)"

definition writable_data_segment :: "gdt_entry \<Rightarrow> bool" where
  "writable_data_segment e = (bit (access e) 4 \<and> \<not> bit (access e) 3 \<and> bit (access e) 1)"

text \<open>The descriptor that a selector designates, and the privilege it requests.\<close>

definition descriptor :: "gdt_state \<Rightarrow> u32 \<Rightarrow> gdt_entry" where
  "descriptor g sel = gdt g (unat (drop_bit 3 sel))"

lemma nibbles_u8: "x AND 0x0F = take_bit 4 x" "x AND 0xF0 = push_bit 4 (drop_bit 4 x)" for x :: u8
proof -
  have m: "(0x0F :: u8) = mask 4" "(0xF0 :: u8) = push_bit 4 (mask 4)" by (simp_all add: mask_eq_exp_minus_1)
  show "x AND 0x0F = take_bit 4 x" by (simp only: m take_bit_eq_mask)
  show "x AND 0xF0 = push_bit 4 (drop_bit 4 x)"
    unfolding m by (rule bit_word_eqI) (auto simp: bit_simps)
qed

lemma entry_base_gate: "entry_base (gate base limit acc gran) = base"
proof (rule bit_word_eqI)
  fix n assume "n < LENGTH(32)"
  then show "bit (entry_base (gate base limit acc gran)) n = bit base n"
    by (cases "n < 24") (auto simp: entry_base_def gate_def bit_simps and_mask_fields)
qed

lemma entry_limit_gate: "entry_limit (gate base limit acc gran) = take_bit 20 limit"
  by (rule bit_word_eqI)
    (auto simp: entry_limit_def gate_def bit_simps and_mask_fields nibbles_u8)

lemma granularity_gate: "granularity (gate base limit acc gran) AND 0xF0 = gran AND 0xF0"
  by (rule bit_word_eqI) (auto simp: gate_def bit_simps and_mask_fields nibbles_u8)

lemma access_gate: "access (gate base limit acc gran) = acc"
  by (simp add: gate_def)

lemma granularity_flat: "granularity (gate base 0xFFFFFFFF acc 0xCF) = 0xCF"
  by (simp add: gate_def)

lemmas gate_simps = entry_base_gate entry_limit_gate access_gate granularity_flat

subsection \<open>Properties\<close>

text \<open>
  Remark. Packing a descriptor loses nothing that the format can hold: the
  processor decodes the base, the low 20 bits of the limit, the access byte and the four flag bits
  that were given, and no other descriptor changes.
\<close>

theorem gdt_set_gate_decodes:
  "\<exists>e. gdt (gdt_set_gate num base limit acc gran g) = (gdt g)(num := e) \<and>
    entry_base e = base \<and> entry_limit e = take_bit 20 limit \<and> access e = acc \<and>
    granularity e AND 0xF0 = gran AND 0xF0"
  by (rule exI [of _ "gate base limit acc gran"])
    (simp add: gdt_set_gate_def entry_base_gate entry_limit_gate granularity_gate, simp add: gate_def)

text \<open>
  Remark. After \<open>gdt_init\<close>, the kernel selectors are present flat 4 GiB ring-0 segments,
  the selectors \<open>0x1B\<close> and \<open>0x23\<close> that \<open>kernel/sched.c\<close> puts in user frames designate flat ring-3
  code and writable data, all descriptors lie within the loaded limit, and the task register
  designates the kernel's TSS, whose ring-0 stack is in the kernel data segment.
\<close>

theorem gdt_init_rings:
  "let g = gdt_init L g0 in
    code_segment (descriptor g 0x08) \<and> dpl (descriptor g 0x08) = 0 \<and>
    writable_data_segment (descriptor g 0x10) \<and> dpl (descriptor g 0x10) = 0 \<and>
    code_segment (descriptor g 0x1B) \<and> dpl (descriptor g 0x1B) = 3 \<and>
    writable_data_segment (descriptor g 0x23) \<and> dpl (descriptor g 0x23) = 3 \<and>
    list_all (\<lambda>sel. present (descriptor g sel) \<and>
      entry_base (descriptor g sel) = 0 \<and> last_offset (descriptor g sel) = 0xFFFFFFFF \<and>
      unat (sel AND NOT 7) + 7 \<le> unat (gp_limit (gdtr g))) [0x08, 0x10, 0x1B, 0x23] \<and>
    seg_cs g = 0x08 \<and> seg_data g = 0x10 \<and>
    entry_base (descriptor g (ucast (task_register g))) = tss_at L \<and>
    ss0 (tss g) = 0x10 \<and> esp0 (tss g) = tss_kernel_stack_at L + 4096"
  by (simp add: gdt_init_def write_tss_def gdt_set_gate_def tss_flush_def gdt_flush_def descriptor_def
      Let_def code_segment_def dpl_def writable_data_segment_def present_def last_offset_def
      gate_simps)

text \<open>
  Remark. The limit in the TSS descriptor is the address of the TSS plus its size,
  not its size minus one. For a kernel linked below 1 MiB the I/O permission bitmap offset 104 is
  therefore inside the limit, where the processor looks up port permissions for ring-3 \<open>in\<close> and
  \<open>out\<close> instead of refusing them.
\<close>

theorem tss_limit_covers_iomap:
  assumes "unat (tss_at L) + 104 < 2 ^ 20"
  shows "let g = gdt_init L g0; e = descriptor g 0x28 in
    \<not> bit (granularity e) 7 \<and> unat (entry_limit e) = unat (tss_at L) + 104 \<and>
    unat (iomap_base (tss g)) \<le> unat (entry_limit e)"
proof -
  have "unat (tss_at L + 104) = unat (tss_at L) + 104"
    using unat_plus_numeral [of "tss_at L"] assms by simp
  then have "unat (take_bit 20 (tss_at L + 104)) = unat (tss_at L) + 104"
    using unat_take_drop [of 20 0 "tss_at L + 104"] assms by simp
  moreover have "\<not> bit (granularity (gate b l a 0)) 7" for b l a
    by (simp add: gate_def bit_simps and_mask_fields)
  moreover have "descriptor (gdt_init L g0) 0x28 = gate (tss_at L) (tss_at L + 104) 0x89 0"
    "iomap_base (tss (gdt_init L g0)) = 104"
    by (simp_all add: gdt_init_def write_tss_def gdt_set_gate_def tss_flush_def gdt_flush_def
        descriptor_def Let_def)
  ultimately show ?thesis
    unfolding Let_def by (simp only: entry_limit_gate) simp
qed

definition example_layout :: layout where
  "example_layout =
     \<lparr>text_start = 0x8000, ro_end = 0x10000, gdt_at = 0x10000, tss_at = 0x10040,
      tss_kernel_stack_at = 0x10100, idt_at = 0x11200, isr_at = (\<lambda>n. 0x8100 + of_nat n * 16),
      timer_handler_at = 0x9000, keyboard_handler_at = 0x9100, syscall_handler_at = 0x9200,
      page_directory_at = 0x12000, first_page_table_at = 0x13000, task_directories_at = 0x14000,
      task_tables_at = 0x1A000, task_exit_at = 0x9300, task_clock_at = 0x9400,
      user_task_demo_at = 0x9500, user_demo_stack_at = 0x20010, shell_name_at = 0xF000,
      clock_name_at = 0xF010, user_demo_name_at = 0xF020, exec_stacks_at = 0x22000,
      elf_staging_at = 0x30000, input_buffer_at = 0x26000, history_buf_at = 0x26800, motd_buf_at = 0x27000\<rparr>"

definition blank_gdt :: gdt_state where
  "blank_gdt =
     (let e = \<lparr>limit_low = 0, base_low = 0, base_middle = 0, access = 0, granularity = 0, base_high = 0\<rparr>
      in \<lparr>gdt = (\<lambda>_. e), gp = \<lparr>gp_limit = 0, gp_base = 0\<rparr>, tss = zero_tss,
          gdtr = \<lparr>gp_limit = 0, gp_base = 0\<rparr>, seg_cs = 0x08, seg_data = 0x10, task_register = 0\<rparr>)"

theorem tss_limit_covers_iomap_witness:
  "unat (entry_limit (descriptor (gdt_init example_layout blank_gdt) 0x28)) = 0x10040 + 104"
  using tss_limit_covers_iomap [of example_layout blank_gdt] by (simp add: example_layout_def Let_def)

end
