(* ===== verification/Slot_Pool.thy ===== *)
theory Slot_Pool
  imports Main
begin

text \<open>
  The interface of a fixed pool of numbered slots (the address spaces of \<open>kernel/paging.c\<close>) and what
  a client gets that hands out each slot to at most one owner.
\<close>

text \<open>Every slot of \<open>U\<close> has exactly one owner among \<open>A\<close>.\<close>

definition owned :: "int set \<Rightarrow> 'k set \<Rightarrow> ('k \<Rightarrow> int) \<Rightarrow> bool" where
  "owned U A own \<longleftrightarrow> own ` A = U \<and> inj_on own A"

lemma owned_cong: "(\<And>k. k \<in> A \<Longrightarrow> own' k = own k) \<Longrightarrow> owned U A own' = owned U A own"
  unfolding owned_def by (metis image_cong inj_on_cong)

locale slot_pool =
  fixes used :: "'s \<Rightarrow> int set"
    and acquire :: "'a \<Rightarrow> 's \<Rightarrow> int \<times> 's"
    and release :: "int \<Rightarrow> 's \<Rightarrow> 's"
    and cap :: int
  assumes acquire_fresh: "acquire a s = (i, s') \<Longrightarrow> i \<noteq> -1 \<Longrightarrow>
      0 \<le> i \<and> i < cap \<and> i \<notin> used s \<and> used s' = insert i (used s)"
    and acquire_full: "acquire a s = (-1, s') \<Longrightarrow> s' = s \<and> used s = {0..<cap}"
    and release_used: "used (release i s) = used s - {i}"
    and used_range: "used s \<subseteq> {0..<cap}"
begin

lemma owned_acquire:
  assumes "owned (used s) A own" "acquire a s = (i, s')" "i \<noteq> -1" "k \<notin> A" "own' k = i"
    "\<And>j. j \<in> A \<Longrightarrow> own' j = own j"
  shows "owned (used s') (insert k A) own'"
proof -
  have "owned (used s) A own'" using assms(1,6) owned_cong by blast
  with acquire_fresh [OF assms(2,3)] assms(4,5) show ?thesis by (auto simp: owned_def)
qed

lemma owned_release:
  assumes "owned (used s) A own" "k \<in> A" "\<And>j. j \<in> A - {k} \<Longrightarrow> own' j = own j"
  shows "owned (used (release (own k) s)) (A - {k}) own'"
proof -
  have "owned (used (release (own k) s)) (A - {k}) own"
    using assms(1,2) by (auto simp: owned_def release_used inj_on_def)
  with assms(3) owned_cong show ?thesis by blast
qed

lemma owned_range: "owned (used s) A own \<Longrightarrow> k \<in> A \<Longrightarrow> 0 \<le> own k \<and> own k < cap"
  using used_range [of s] unfolding owned_def by fastforce

end

end
