(* ===== verification/Paging.thy ===== *)
theory Paging
  imports Gdt Slot_Pool
begin

text \<open>
  Paging, \<open>kernel/paging.c\<close>: the identity map of the first 4 MiB, the per-task address spaces that
  share it but differ in which pages ring 3 may touch, and the page walk of the processor.
\<close>

abbreviation MAX_ADDR_SPACES :: nat where "MAX_ADDR_SPACES \<equiv> 6"

text \<open>The page tables of the C file, and the registers CR3 and CR0.PG.\<close>

record paging =
  page_directory :: "nat \<Rightarrow> u32"
  first_page_table :: "nat \<Rightarrow> u32"
  task_directories :: "nat \<Rightarrow> nat \<Rightarrow> u32"
  task_tables :: "nat \<Rightarrow> nat \<Rightarrow> u32"
  task_dir_used :: "nat \<Rightarrow> bool"
  cr3 :: u32
  paging_on :: bool

subsection \<open>The operations\<close>

definition in_window :: "u32 \<Rightarrow> u32 \<Rightarrow> u32 \<Rightarrow> bool" where
  "in_window phys lo hi \<longleftrightarrow> phys + 4096 > lo \<and> phys < hi"

definition identity_entry :: "layout \<Rightarrow> u32 \<Rightarrow> u32 \<Rightarrow> u32 \<Rightarrow> u32 \<Rightarrow> nat \<Rightarrow> u32" where
  "identity_entry L user_start user_end code_start code_end i =
     (let phys = of_nat (i * 4096);
          flags = 3;
          flags = (if in_window phys (text_start L) (ro_end L) then 7 else flags);
          flags = (if user_start \<noteq> user_end \<and> in_window phys user_start user_end then 7 else flags);
          flags = (if code_start \<noteq> code_end \<and> in_window phys code_start code_end then 7 else flags)
      in phys OR flags)"

definition fill_identity_table ::
    "layout \<Rightarrow> u32 \<Rightarrow> u32 \<Rightarrow> u32 \<Rightarrow> u32 \<Rightarrow> (nat \<Rightarrow> u32) \<Rightarrow> (nat \<Rightarrow> u32)" where
  "fill_identity_table L user_start user_end code_start code_end table =
     fold (\<lambda>i t. t(i := identity_entry L user_start user_end code_start code_end i)) [0..<1024] table"

definition fill_absent :: "(nat \<Rightarrow> u32) \<Rightarrow> (nat \<Rightarrow> u32)" where
  "fill_absent d = fold (\<lambda>i t. t(i := 2)) [0..<1024] d"

definition paging_init :: "layout \<Rightarrow> paging \<Rightarrow> paging" where
  "paging_init L p =
     p\<lparr>page_directory := (fill_absent (page_directory p))(0 := first_page_table_at L OR 7),
       first_page_table := fill_identity_table L 0 0 0 0 (first_page_table p),
       cr3 := page_directory_at L, paging_on := True\<rparr>"

definition paging_kernel_directory_phys :: "layout \<Rightarrow> u32" where
  "paging_kernel_directory_phys L = page_directory_at L"

text \<open>The address of row \<open>i\<close> of an array of 4096-byte rows.\<close>

definition row :: "u32 \<Rightarrow> nat \<Rightarrow> u32" where
  "row a i = a + 4096 * of_nat i"

text \<open>The first unused space is taken and filled; the result is its index, or -1.\<close>

definition paging_create_task_directory_ex ::
    "layout \<Rightarrow> u32 \<Rightarrow> u32 \<Rightarrow> u32 \<Rightarrow> u32 \<Rightarrow> paging \<Rightarrow> int \<times> paging" where
  "paging_create_task_directory_ex L code_base code_size user_stack_base user_stack_size p =
     (case find (\<lambda>i. \<not> task_dir_used p i) [0..<MAX_ADDR_SPACES] of
        None \<Rightarrow> (-1, p)
      | Some i \<Rightarrow>
          (int i,
           p\<lparr>task_dir_used := (task_dir_used p)(i := True),
             task_tables := (task_tables p)(i :=
               fill_identity_table L user_stack_base (user_stack_base + user_stack_size)
                 code_base (code_base + code_size) (task_tables p i)),
             task_directories := (task_directories p)(i :=
               (fill_absent (task_directories p i))(0 := row (task_tables_at L) i OR 7))\<rparr>))"

definition paging_create_task_directory :: "layout \<Rightarrow> u32 \<Rightarrow> u32 \<Rightarrow> paging \<Rightarrow> int \<times> paging" where
  "paging_create_task_directory L user_stack_base user_stack_size p =
     paging_create_task_directory_ex L 0 0 user_stack_base user_stack_size p"

definition paging_task_directory_phys :: "layout \<Rightarrow> int \<Rightarrow> u32" where
  "paging_task_directory_phys L idx =
     (if idx < 0 \<or> idx \<ge> int MAX_ADDR_SPACES then paging_kernel_directory_phys L
      else row (task_directories_at L) (nat idx))"

definition paging_free_task_directory :: "int \<Rightarrow> paging \<Rightarrow> paging" where
  "paging_free_task_directory idx p =
     (if idx \<ge> 0 \<and> idx < int MAX_ADDR_SPACES
      then p\<lparr>task_dir_used := (task_dir_used p)(nat idx := False)\<rparr> else p)"

definition paging_switch_directory :: "u32 \<Rightarrow> paging \<Rightarrow> paging" where
  "paging_switch_directory phys_addr p = p\<lparr>cr3 := phys_addr\<rparr>"

subsection \<open>The page walk\<close>

text \<open>The table that is stored at a physical address, when one of the kernel's tables is.\<close>

definition dir_at :: "layout \<Rightarrow> paging \<Rightarrow> u32 \<Rightarrow> (nat \<Rightarrow> u32) option" where
  "dir_at L p a =
     (if a = page_directory_at L then Some (page_directory p)
      else map_option (task_directories p)
        (find (\<lambda>i. a = row (task_directories_at L) i) [0..<MAX_ADDR_SPACES]))"

definition table_at :: "layout \<Rightarrow> paging \<Rightarrow> u32 \<Rightarrow> (nat \<Rightarrow> u32) option" where
  "table_at L p a =
     (if a = first_page_table_at L then Some (first_page_table p)
      else map_option (task_tables p)
        (find (\<lambda>i. a = row (task_tables_at L) i) [0..<MAX_ADDR_SPACES]))"

text \<open>An entry admits an access: present, and for ring 3 both the user and, on a write, the
  writable bit. (Ring 0 runs with CR0.WP clear, so it may write any present page.)\<close>

definition admits :: "bool \<Rightarrow> bool \<Rightarrow> u32 \<Rightarrow> bool" where
  "admits user write e \<longleftrightarrow> bit e 0 \<and> (user \<longrightarrow> bit e 2 \<and> (write \<longrightarrow> bit e 1))"

definition frame_of :: "u32 \<Rightarrow> u32" where
  "frame_of e = e AND NOT 0xFFF"

text \<open>The physical address that a linear address translates to; \<open>None\<close> is a page fault.\<close>

definition translate :: "layout \<Rightarrow> paging \<Rightarrow> bool \<Rightarrow> bool \<Rightarrow> u32 \<Rightarrow> u32 option" where
  "translate L p user write v =
     (case dir_at L p (cr3 p) of
        None \<Rightarrow> None
      | Some d \<Rightarrow>
          (let pde = d (unat (drop_bit 22 v)) in
           if \<not> admits user write pde then None
           else case table_at L p (frame_of pde) of
                  None \<Rightarrow> None
                | Some t \<Rightarrow>
                    (let pte = t (unat (take_bit 10 (drop_bit 12 v))) in
                     if \<not> admits user write pte then None else Some (frame_of pte OR take_bit 12 v))))"

subsection \<open>Tables in closed form\<close>

lemma fill_identity_closed:
  "fill_identity_table L a b c d t = (\<lambda>i. if i < 1024 then identity_entry L a b c d i else t i)"
  by (simp add: fill_identity_table_def fold_upd)

lemma fill_absent_closed: "fill_absent t = (\<lambda>i. if i < 1024 then 2 else t i)"
  by (simp add: fill_absent_def fold_upd)

lemma page_aligned: "take_bit 12 (of_nat (i * 4096) :: u32) = 0"
proof -
  have "of_nat (i * 4096) = push_bit 12 (of_nat i :: u32)" by (simp add: push_bit_eq_mult)
  then show ?thesis by (simp only: take_bit_push_bit) simp
qed

lemma frame_of_aligned: "take_bit 12 a = 0 \<Longrightarrow> f = 3 \<or> f = 7 \<Longrightarrow> frame_of (a OR f) = a"
proof -
  assume a: "take_bit 12 a = 0" and f: "f = 3 \<or> f = 7"
  have lo: "12 \<le> n" if "bit a n" for n
    using arg_cong [OF a, of "\<lambda>w. bit w n"] that by (auto simp: bit_simps)
  have "f = take_bit 3 f" using f by auto
  then have hi: "n < 3" if "bit f n" for n
    using that by (metis bit_take_bit_iff)
  have m: "(0xFFF :: u32) = mask 12" by (simp add: mask_eq_exp_minus_1)
  show ?thesis unfolding frame_of_def m
    by (rule bit_word_eqI) (use lo hi in \<open>fastforce simp: bit_simps\<close>)
qed

lemma low_bits_or:
  fixes a f :: u32
  assumes "take_bit 12 a = 0" "n < 12"
  shows "bit (a OR f) n = bit f n"
  using arg_cong [OF assms(1), of "\<lambda>w. bit w n"] assms(2) by (auto simp: bit_simps)

lemma admits_flags:
  assumes "take_bit 12 a = 0"
  shows "admits user write (a OR 3) \<longleftrightarrow> \<not> user" "admits user write (a OR 7)"
  using low_bits_or [OF assms] by (auto simp: admits_def)

lemma unat_of_nat_u32: "n < 2 ^ 32 \<Longrightarrow> unat (of_nat n :: u32) = n"
  by (simp add: unat_of_nat)

lemma row_inj:
  assumes "i < 6" "j < 6"
  shows "row a i = row a j \<longleftrightarrow> i = j"
proof -
  have u: "unat (of_nat (4096 * k) :: u32) = 4096 * k" if "k < 6" for k
    using that by (intro unat_of_nat_u32) simp
  have "row a i = row a j \<longleftrightarrow> (of_nat (4096 * i) :: u32) = of_nat (4096 * j)" by (simp add: row_def)
  also have "\<dots> \<longleftrightarrow> 4096 * i = 4096 * j" by (simp only: word_unat_eq_iff u assms)
  finally show ?thesis by simp
qed

lemma find_row: "i < 6 \<Longrightarrow> find (\<lambda>j. row a i = row a j) [0..<6] = Some i"
  by (subst find_Some_iff) (auto simp: row_inj intro!: exI [of _ i])

text \<open>What the linker guarantees of the tables: page alignment (their \<open>aligned(4096)\<close> attributes) and
  distinct addresses.\<close>

definition paging_layout_ok :: "layout \<Rightarrow> bool" where
  "paging_layout_ok L \<longleftrightarrow>
     take_bit 12 (first_page_table_at L) = 0 \<and> take_bit 12 (task_tables_at L) = 0 \<and>
     page_directory_at L \<notin> set (map (row (task_directories_at L)) [0..<6]) \<and>
     first_page_table_at L \<notin> set (map (row (task_tables_at L)) [0..<6])"

lemma row_aligned: "take_bit 12 a = 0 \<Longrightarrow> take_bit 12 (row a i) = 0"
  by (auto simp: row_def take_bit_eq_0_iff intro!: dvd_add)

text \<open>The directory and the table of a space, as its creation fills them.\<close>

definition space_set :: "layout \<Rightarrow> paging \<Rightarrow> nat \<Rightarrow> u32 \<Rightarrow> u32 \<Rightarrow> u32 \<Rightarrow> u32 \<Rightarrow> bool" where
  "space_set L p i code_base code_size stack_base stack_size \<longleftrightarrow>
     (\<forall>k < 1024. task_tables p i k = identity_entry L stack_base (stack_base + stack_size)
        code_base (code_base + code_size) k) \<and>
     (\<forall>k < 1024. task_directories p i k = (if k = 0 then row (task_tables_at L) i OR 7 else 2))"

lemma create_cases:
  assumes "paging_create_task_directory_ex L cb cs sb ss p = (idx, p')"
  shows "(idx = -1 \<and> p' = p \<and> (\<forall>i < 6. task_dir_used p i)) \<or>
    (\<exists>i < 6. idx = int i \<and> \<not> task_dir_used p i \<and> task_dir_used p' = (task_dir_used p)(i := True) \<and>
       space_set L p' i cb cs sb ss \<and>
       (\<forall>j. j \<noteq> i \<longrightarrow> task_tables p' j = task_tables p j \<and> task_directories p' j = task_directories p j) \<and>
       page_directory p' = page_directory p \<and> first_page_table p' = first_page_table p \<and> cr3 p' = cr3 p)"
proof (cases "find (\<lambda>i. \<not> task_dir_used p i) [0..<6]")
  case None
  then have "idx = -1 \<and> p' = p" using assms by (simp add: paging_create_task_directory_ex_def)
  then show ?thesis using None by (auto simp: find_None_iff)
next
  case (Some i)
  then have "i < 6 \<and> \<not> task_dir_used p i" by (auto simp: find_Some_iff)
  then show ?thesis using assms Some
    by (auto simp: paging_create_task_directory_ex_def space_set_def fill_identity_closed
        fill_absent_closed)
qed

lemma create_keeps_space:
  assumes "paging_create_task_directory_ex L cb cs sb ss p = (idx, p')" "task_dir_used p j" "j < 6"
    "space_set L p j cb' cs' sb' ss'"
  shows "space_set L p' j cb' cs' sb' ss'"
  using create_cases [OF assms(1)]
proof (elim disjE exE conjE)
  fix i assume "\<not> task_dir_used p i"
    "\<forall>j. j \<noteq> i \<longrightarrow> task_tables p' j = task_tables p j \<and> task_directories p' j = task_directories p j"
  then have "task_tables p' j = task_tables p j" "task_directories p' j = task_directories p j"
    using assms(2) by metis+
  then show ?thesis using assms(4) by (simp only: space_set_def)
qed (use assms(4) in simp)

definition used_spaces :: "paging \<Rightarrow> int set" where
  "used_spaces p = {i. 0 \<le> i \<and> i < 6 \<and> task_dir_used p (nat i)}"

definition create_space :: "layout \<Rightarrow> u32 \<times> u32 \<times> u32 \<times> u32 \<Rightarrow> paging \<Rightarrow> int \<times> paging" where
  "create_space L w p =
     (case w of (cb, cs, sb, ss) \<Rightarrow> paging_create_task_directory_ex L cb cs sb ss p)"

interpretation spaces: slot_pool used_spaces "create_space L" paging_free_task_directory 6 for L
proof (unfold_locales, goal_cases)
  case (1 w p i p')
  obtain cb cs sb ss where w: "w = (cb, cs, sb, ss)" by (cases w)
  with 1 have "paging_create_task_directory_ex L cb cs sb ss p = (i, p')" by (simp add: create_space_def)
  from create_cases [OF this] 1(2) obtain j where
    "j < 6" "i = int j" "\<not> task_dir_used p j" "task_dir_used p' = (task_dir_used p)(j := True)" by blast
  then show ?case by (auto simp: used_spaces_def)
next
  case (2 w p p')
  obtain cb cs sb ss where w: "w = (cb, cs, sb, ss)" by (cases w)
  with 2 have "paging_create_task_directory_ex L cb cs sb ss p = (-1, p')" by (simp add: create_space_def)
  from create_cases [OF this] have "p' = p" "\<forall>i < 6. task_dir_used p i" by auto
  then show ?case by (auto simp: used_spaces_def)
next
  case (3 i p)
  then show ?case by (auto simp: used_spaces_def paging_free_task_directory_def)
next
  case (4 p)
  then show ?case by (auto simp: used_spaces_def)
qed

subsection \<open>What ring 3 can reach\<close>

text \<open>Some byte of the page of \<open>v\<close> lies in the range from \<open>lo\<close> up to but not including \<open>hi\<close>.\<close>

definition touches :: "u32 \<Rightarrow> u32 \<Rightarrow> u32 \<Rightarrow> bool" where
  "touches v lo hi \<longleftrightarrow> (\<exists>x. unat x div 4096 = unat v div 4096 \<and> lo \<le> x \<and> x < hi)"

lemma touches_iff:
  assumes "lo < hi"
  shows "touches v lo hi \<longleftrightarrow> unat lo < unat v div 4096 * 4096 + 4096 \<and> unat v div 4096 * 4096 < unat hi"
proof
  assume "touches v lo hi"
  then obtain x :: u32 where x: "unat x div 4096 = unat v div 4096" "unat lo \<le> unat x" "unat x < unat hi"
    by (auto simp: touches_def word_le_nat_alt word_less_nat_alt)
  then show "unat lo < unat v div 4096 * 4096 + 4096 \<and> unat v div 4096 * 4096 < unat hi"
    using div_mult_mod_eq [of "unat x" 4096] mod_less_divisor [of 4096 "unat x"] by linarith
next
  assume r: "unat lo < unat v div 4096 * 4096 + 4096 \<and> unat v div 4096 * 4096 < unat hi"
  define x where "x = max (unat lo) (unat v div 4096 * 4096)"
  have "x < 2 ^ 32" using unsigned_less [of lo, where 'a = nat] unsigned_less [of v, where 'a = nat]
    by (auto simp: x_def max_def)
  then have "unat (of_nat x :: u32) = x" by (rule unat_of_nat_u32)
  moreover have "x div 4096 = unat v div 4096" using r by (auto simp: x_def max_def)
  moreover have "unat lo \<le> x" "x < unat hi"
    using r assms by (auto simp: x_def max_def word_less_nat_alt)
  ultimately show "touches v lo hi"
    by (auto simp: touches_def word_le_nat_alt word_less_nat_alt intro!: exI [of _ "of_nat x :: u32"])
qed

lemma touches_empty: "\<not> touches v lo lo"
  by (auto simp: touches_def)

lemma in_window_touches:
  assumes "lo < hi" "unat v < 4194304"
  shows "in_window (of_nat (unat v div 4096 * 4096)) lo hi \<longleftrightarrow> touches v lo hi"
proof -
  let ?a = "unat v div 4096 * 4096"
  have "?a \<le> unat v" by simp
  then have a: "unat (of_nat ?a :: u32) = ?a" using assms(2)
    by (intro unat_of_nat_u32) (rule le_less_trans, assumption, simp)
  have "?a + 4096 < 2 ^ 32" using \<open>?a \<le> unat v\<close> assms(2) by simp
  then have "unat (of_nat ?a + 4096 :: u32) = ?a + 4096"
    using unat_plus_numeral [of "of_nat ?a :: u32"] a by simp
  with a show ?thesis unfolding in_window_def touches_iff [OF assms(1)] word_less_nat_alt
    by (simp only: )
qed

lemma split_address:
  fixes v :: u32
  assumes "unat v < 4194304"
  shows "unat (drop_bit 22 v) = 0" "unat (take_bit 10 (drop_bit 12 v)) = unat v div 4096"
    "unat v div 4096 < 1024" "of_nat (unat v div 4096 * 4096) OR take_bit 12 v = v"
proof -
  show "unat (drop_bit 22 v) = 0" using unat_take_drop [of 10 22 v] assms
    by (simp add: drop_bit_eq_div word_less_nat_alt unat_div)
  have d: "unat v div 4096 < 1024" using assms by simp
  then show "unat v div 4096 < 1024" .
  show t: "unat (take_bit 10 (drop_bit 12 v)) = unat v div 4096"
    using unat_take_drop [of 10 12 v] d by simp
  have "of_nat (unat v div 4096 * 4096) = push_bit 12 (drop_bit 12 v)"
    using word_arith_nat_div [of v 4096] by (simp add: push_bit_eq_mult drop_bit_eq_div)
  moreover have "push_bit 12 (drop_bit 12 v) OR take_bit 12 v = v"
    by (rule bit_word_eqI) (auto simp: bit_simps)
  ultimately show "of_nat (unat v div 4096 * 4096) OR take_bit 12 v = v" by (simp only:)
qed

definition user_reaches :: "layout \<Rightarrow> u32 \<Rightarrow> u32 \<Rightarrow> u32 \<Rightarrow> u32 \<Rightarrow> u32 \<Rightarrow> bool" where
  "user_reaches L code_base code_size stack_base stack_size v \<longleftrightarrow>
     unat v < 4194304 \<and> (touches v (text_start L) (ro_end L) \<or>
       touches v stack_base (stack_base + stack_size) \<or> touches v code_base (code_base + code_size))"

lemma window_touches:
  assumes "lo \<le> hi" "unat v < 4194304"
  shows "lo \<noteq> hi \<and> in_window (of_nat (unat v div 4096 * 4096)) lo hi \<longleftrightarrow> touches v lo hi"
  using in_window_touches [of lo hi v] touches_empty [of v hi] assms by (cases "lo = hi") auto

lemma identity_entry_walk:
  assumes "text_start L < ro_end L" "a \<le> b" "c \<le> d" "unat v < 4194304"
  shows "admits user write (identity_entry L a b c d (unat v div 4096)) \<longleftrightarrow>
      \<not> user \<or> touches v (text_start L) (ro_end L) \<or> touches v a b \<or> touches v c d"
    and "frame_of (identity_entry L a b c d (unat v div 4096)) = of_nat (unat v div 4096 * 4096)"
proof -
  let ?phys = "of_nat (unat v div 4096 * 4096) :: u32"
  have "identity_entry L a b c d (unat v div 4096) =
      ?phys OR (if touches v (text_start L) (ro_end L) \<or> touches v a b \<or> touches v c d then 7 else 3)"
    unfolding identity_entry_def Let_def
    using in_window_touches [OF assms(1,4)] window_touches [OF assms(2,4)] window_touches [OF assms(3,4)]
    by (simp only: split: if_splits) auto
  then show "admits user write (identity_entry L a b c d (unat v div 4096)) \<longleftrightarrow>
      \<not> user \<or> touches v (text_start L) (ro_end L) \<or> touches v a b \<or> touches v c d"
    "frame_of (identity_entry L a b c d (unat v div 4096)) = ?phys"
    using admits_flags [OF page_aligned] frame_of_aligned [OF page_aligned] by (simp_all only:) auto
qed

lemma walk_absent: "\<not> admits user write 2"
  by (simp add: admits_def)

lemma walk_directory_index:
  fixes v :: u32
  assumes "\<not> unat v < 4194304"
  shows "unat (drop_bit 22 v) \<noteq> 0" "unat (drop_bit 22 v) < 1024"
proof -
  have u: "unat (drop_bit 22 v) = unat v div 4194304" by (simp add: drop_bit_eq_div unat_div)
  with assms show "unat (drop_bit 22 v) \<noteq> 0" by simp
  show "unat (drop_bit 22 v) < 1024" using u unsigned_less [of v, where 'a = nat] by simp
qed

lemma translate_tables:
  assumes "text_start L < ro_end L" "a \<le> b" "c \<le> d"
    "dir_at L p (cr3 p) = Some dir" "\<forall>k < 1024. dir k = (if k = 0 then t OR 7 else 2)"
    "take_bit 12 t = 0" "table_at L p t = Some tab" "\<forall>k < 1024. tab k = identity_entry L a b c d k"
  shows "translate L p user write v =
    (if unat v < 4194304 \<and> (\<not> user \<or> touches v (text_start L) (ro_end L) \<or> touches v a b \<or> touches v c d)
     then Some v else None)"
proof (cases "unat v < 4194304")
  case False
  then have "dir (unat (drop_bit 22 v)) = 2"
    using walk_directory_index [OF False] assms(5) by (simp only: if_False)
  then show ?thesis using False assms(4) walk_absent by (simp add: translate_def)
next
  case True
  note sp = split_address [OF True]
  have "dir (unat (drop_bit 22 v)) = t OR 7" using assms(5) sp(1) by simp
  moreover have "frame_of (t OR 7) = t" using frame_of_aligned [OF assms(6)] by simp
  moreover have "tab (unat (take_bit 10 (drop_bit 12 v))) = identity_entry L a b c d (unat v div 4096)"
    using assms(8) sp(2,3) by (simp only:)
  ultimately show ?thesis
    using True assms(4,7) admits_flags(2) [OF assms(6)] identity_entry_walk [OF assms(1-3) True] sp(4)
    by (simp add: translate_def Let_def)
qed

lemma dir_at_space:
  "paging_layout_ok L \<Longrightarrow> i < 6 \<Longrightarrow>
    dir_at L p (row (task_directories_at L) i) = Some (task_directories p i)"
  by (auto simp: dir_at_def paging_layout_ok_def find_row simp del: upt_conv_Cons dest: sym)

lemma table_at_space:
  "paging_layout_ok L \<Longrightarrow> i < 6 \<Longrightarrow> table_at L p (row (task_tables_at L) i) = Some (task_tables p i)"
  by (auto simp: table_at_def paging_layout_ok_def find_row simp del: upt_conv_Cons dest: sym)

lemma no_wrap_le: "unat a + unat n < 2 ^ 32 \<Longrightarrow> a \<le> a + n" for a n :: u32
  using unat_plus_no_wrap [of a "unat n"] by (simp add: word_le_nat_alt)

lemma translate_space:
  assumes "paging_layout_ok L" "text_start L < ro_end L" "i < 6" "space_set L p i cb cs sb ss"
    "cr3 p = row (task_directories_at L) i" "unat cb + unat cs < 2 ^ 32" "unat sb + unat ss < 2 ^ 32"
  shows "translate L p user write v =
    (if unat v < 4194304 \<and> (user \<longrightarrow> user_reaches L cb cs sb ss v) then Some v else None)"
proof -
  note sp = assms(4) [unfolded space_set_def]
  have al: "take_bit 12 (row (task_tables_at L) i) = 0"
    using assms(1) row_aligned by (simp add: paging_layout_ok_def)
  have "translate L p user write v =
    (if unat v < 4194304 \<and> (\<not> user \<or> touches v (text_start L) (ro_end L) \<or> touches v sb (sb + ss) \<or>
       touches v cb (cb + cs)) then Some v else None)"
    using translate_tables [OF assms(2) no_wrap_le [OF assms(7)] no_wrap_le [OF assms(6)]
        dir_at_space [OF assms(1,3), of p, folded assms(5)] conjunct2 [OF sp] al
        table_at_space [OF assms(1,3)] conjunct1 [OF sp]] .
  then show ?thesis by (auto simp: user_reaches_def)
qed

lemma dir_at_kernel: "dir_at L p (page_directory_at L) = Some (page_directory p)"
  by (simp add: dir_at_def)

lemma table_at_kernel: "table_at L p (first_page_table_at L) = Some (first_page_table p)"
  by (simp add: table_at_def)

definition kernel_space_set :: "layout \<Rightarrow> paging \<Rightarrow> bool" where
  "kernel_space_set L p \<longleftrightarrow>
     (\<forall>k < 1024. first_page_table p k = identity_entry L 0 0 0 0 k) \<and>
     (\<forall>k < 1024. page_directory p k = (if k = 0 then first_page_table_at L OR 7 else 2))"

lemma paging_init_kernel: "kernel_space_set L (paging_init L p)"
  by (auto simp: kernel_space_set_def paging_init_def fill_identity_closed fill_absent_closed)

lemma translate_kernel:
  assumes "paging_layout_ok L" "text_start L < ro_end L" "kernel_space_set L p" "cr3 p = page_directory_at L"
  shows "translate L p user write v =
    (if unat v < 4194304 \<and> (user \<longrightarrow> touches v (text_start L) (ro_end L)) then Some v else None)"
proof -
  note sp = assms(3) [unfolded kernel_space_set_def]
  have al: "take_bit 12 (first_page_table_at L) = 0" using assms(1) by (simp add: paging_layout_ok_def)
  have "translate L p user write v =
    (if unat v < 4194304 \<and> (\<not> user \<or> touches v (text_start L) (ro_end L) \<or> touches v 0 0 \<or>
       touches v 0 0) then Some v else None)"
    using translate_tables [OF assms(2) order_refl order_refl dir_at_kernel [of L p, folded assms(4)]
        conjunct2 [OF sp] al table_at_kernel conjunct1 [OF sp]] .
  then show ?thesis using touches_empty by auto
qed

subsection \<open>Properties\<close>

text \<open>
  C12. In the address space that \<open>paging_create_task_directory_ex\<close> has just
  built, the kernel reaches all of the first 4 MiB and ring 3 exactly the pages that meet the
  shared kernel image, the task's stack window or its code window; every translation is the
  identity, and every other access faults.
\<close>

theorem paging_task_isolation:
  assumes "paging_layout_ok L" "text_start L < ro_end L"
    "unat code_base + unat code_size < 2 ^ 32" "unat stack_base + unat stack_size < 2 ^ 32"
    "paging_create_task_directory_ex L code_base code_size stack_base stack_size p = (idx, p')" "idx \<ge> 0"
  shows "translate L (paging_switch_directory (paging_task_directory_phys L idx) p') user write v =
    (if unat v < 4194304 \<and> (user \<longrightarrow> user_reaches L code_base code_size stack_base stack_size v)
     then Some v else None)"
proof -
  from create_cases [OF assms(5)] assms(6) obtain i where i: "i < 6" "idx = int i"
      "space_set L p' i code_base code_size stack_base stack_size" by auto
  let ?q = "paging_switch_directory (paging_task_directory_phys L idx) p'"
  have "space_set L ?q i code_base code_size stack_base stack_size" "cr3 ?q = row (task_directories_at L) i"
    using i by (simp_all add: space_set_def paging_switch_directory_def paging_task_directory_phys_def)
  from translate_space [OF assms(1,2) i(1) this assms(3,4)] show ?thesis .
qed

definition blank_paging :: paging where
  "blank_paging = \<lparr>page_directory = (\<lambda>_. 0), first_page_table = (\<lambda>_. 0), task_directories = (\<lambda>_ _. 0),
     task_tables = (\<lambda>_ _. 0), task_dir_used = (\<lambda>_. False), cr3 = 0, paging_on = False\<rparr>"

lemma example_layout_paging: "paging_layout_ok example_layout" "text_start example_layout < ro_end example_layout"
  by (simp_all add: paging_layout_ok_def example_layout_def row_def upt_rec)

lemma blank_paging_create:
  "fst (paging_create_task_directory_ex L cb cs sb ss blank_paging) = 0"
  by (simp add: paging_create_task_directory_ex_def blank_paging_def upt_rec)

theorem paging_task_isolation_witness:
  "\<exists>p'. paging_create_task_directory_ex example_layout 0 0 0x20010 0x1000 blank_paging = (0, p') \<and>
    translate example_layout (paging_switch_directory (paging_task_directory_phys example_layout 0) p')
      True True 0x30000 = None"
proof -
  obtain p' where p': "paging_create_task_directory_ex example_layout 0 0 0x20010 0x1000 blank_paging = (0, p')"
    using blank_paging_create by (metis prod.collapse)
  have "\<not> user_reaches example_layout 0 0 0x20010 0x1000 0x30000"
    by (simp add: user_reaches_def touches_iff touches_empty example_layout_def)
  with paging_task_isolation [OF example_layout_paging _ _ p', of True True "0x30000"] p'
  show ?thesis by simp
qed

text \<open>
  Remark. Creating an address space leaves every space in use as it was:
  what any of its tasks can reach does not change. The new index was unused before and is used
  after; -1 is returned, with nothing changed, only when all six are in use.
\<close>

theorem paging_spaces_independent:
  assumes "paging_create_task_directory_ex L code_base code_size stack_base stack_size p = (idx, p')"
  shows "(idx = -1 \<longrightarrow> p' = p \<and> (\<forall>i < 6. task_dir_used p i)) \<and>
    (idx \<noteq> -1 \<longrightarrow> 0 \<le> idx \<and> idx < 6 \<and> \<not> task_dir_used p (nat idx) \<and> task_dir_used p' (nat idx)) \<and>
    (\<forall>j cb cs sb ss. j < 6 \<and> task_dir_used p j \<longrightarrow> task_dir_used p' j \<and>
      (space_set L p j cb cs sb ss \<longrightarrow> space_set L p' j cb cs sb ss))"
proof -
  have "space_set L p' j cb cs sb ss" if "j < 6" "task_dir_used p j" "space_set L p j cb cs sb ss"
    for j cb cs sb ss
    using create_keeps_space [OF assms that(2,1,3)] .
  moreover have "task_dir_used p' j" if "task_dir_used p j" for j
    using create_cases [OF assms] that by auto
  ultimately show ?thesis using create_cases [OF assms] by auto
qed

theorem paging_spaces_independent_witness:
  "\<exists>p'. paging_create_task_directory_ex example_layout 0 0 0x20010 0x1000 blank_paging = (0, p') \<and>
    task_dir_used p' 0"
proof -
  obtain p' where p': "paging_create_task_directory_ex example_layout 0 0 0x20010 0x1000 blank_paging = (0, p')"
    using blank_paging_create by (metis prod.collapse)
  with paging_spaces_independent [OF p'] show ?thesis by simp
qed

text \<open>
  Remark. In every task address space the whole kernel image from
  \<open>__text_start\<close> to \<open>__ro_end\<close> (code, constants and initialised data) is writable from ring 3, and
  so is every byte that merely shares a page with the task's stack window.
\<close>

theorem paging_shared_image_writable:
  assumes "paging_layout_ok L" "text_start L < ro_end L"
    "unat code_base + unat code_size < 2 ^ 32" "unat stack_base + unat stack_size < 2 ^ 32"
    "paging_create_task_directory_ex L code_base code_size stack_base stack_size p = (idx, p')" "idx \<ge> 0"
    "unat v < 4194304"
    "text_start L \<le> v \<and> v < ro_end L \<or> 0 < stack_size \<and> unat v div 4096 = unat stack_base div 4096"
  shows "translate L (paging_switch_directory (paging_task_directory_phys L idx) p') True True v = Some v"
proof -
  from create_cases [OF assms(5)] assms(6) obtain i where i: "i < 6" "idx = int i"
      "space_set L p' i code_base code_size stack_base stack_size" by auto
  let ?q = "paging_switch_directory (paging_task_directory_phys L idx) p'"
  have q: "space_set L ?q i code_base code_size stack_base stack_size"
    "cr3 ?q = row (task_directories_at L) i"
    using i by (simp_all add: space_set_def paging_switch_directory_def paging_task_directory_phys_def)
  have "stack_base < stack_base + stack_size" if "0 < stack_size"
    using unat_plus_no_wrap [of stack_base "unat stack_size"] assms(4) that
    by (simp add: word_less_nat_alt)
  then have "user_reaches L code_base code_size stack_base stack_size v"
    using assms(7,8) unfolding user_reaches_def touches_def by (metis order_refl)
  with translate_space [OF assms(1,2) i(1) q assms(3,4), of True True v] assms(7) show ?thesis by simp
qed

theorem paging_shared_image_writable_witness:
  "\<exists>p'. paging_create_task_directory_ex example_layout 0 0 0x20010 0x1000 blank_paging = (0, p') \<and>
    translate example_layout (paging_switch_directory (paging_task_directory_phys example_layout 0) p')
      True True 0x9000 = Some 0x9000"
proof -
  obtain p' where p': "paging_create_task_directory_ex example_layout 0 0 0x20010 0x1000 blank_paging = (0, p')"
    using blank_paging_create by (metis prod.collapse)
  with paging_shared_image_writable [OF example_layout_paging _ _ p', of "0x9000"] show ?thesis
    by (simp add: example_layout_def)
qed

end
