(* ===== verification/Screen.thy ===== *)
theory Screen
  imports Mx_Prelude
begin

text \<open>
  The text console: \<open>kernel/serial.c\<close> (the COM1 mirror) and \<open>kernel/screen.c\<close> (the VGA text
  buffer, its cursor, and number printing).

  The frame buffer is a function from the byte offset to \<open>VIDEO_ADDRESS\<close>; offsets are integers, so
  a write outside the 4000 bytes of the screen is visible as such. Every \<open>outb\<close> is logged, in
  program order. Before each byte \<open>serial_write_char\<close> polls the line status register until the UART is
  ready, for ever if need be: \<open>kprint_char_wait\<close> and \<open>kprint_wait\<close> are the printing functions over an arbitrary sequence
  of status values, \<open>None\<close> for a wait that never ends. The rest of the development uses \<open>kprint_char\<close> and \<open>kprint\<close>, the
  same functions with all waits at their end; \<open>kprint_wait_eq\<close> relates the two, and \<open>log_waits\<close> replays the waits that
  belong to a log of port writes.
\<close>

subsection \<open>kernel/serial.c\<close>

abbreviation COM1 :: u16 where
  "COM1 \<equiv> 0x3F8"

definition serial_init :: "port_write list" where
  "serial_init =
     [(COM1 + 1, 0x00), (COM1 + 3, 0x80), (COM1 + 0, 0x03), (COM1 + 1, 0x00), (COM1 + 3, 0x03),
      (COM1 + 2, 0xC7), (COM1 + 4, 0x0B)]"

definition serial_transmit_empty :: "u8 \<Rightarrow> bool" where
  "serial_transmit_empty lsr \<longleftrightarrow> lsr AND 0x20 \<noteq> 0"

text \<open>\<open>lsr k\<close> is the line status that the \<open>k\<close>-th read of \<open>COM1 + 5\<close> returns. The result is the index
  of the next read and the port writes; \<open>None\<close> is a wait that never ends.\<close>

partial_function (option) serial_write_char ::
    "(nat \<Rightarrow> u8) \<Rightarrow> nat \<Rightarrow> u8 \<Rightarrow> (nat \<times> port_write list) option" where
  "serial_write_char lsr k c =
     (if serial_transmit_empty (lsr k) then Some (Suc k, [(COM1, c)])
      else serial_write_char lsr (Suc k) c)"

fun serial_write :: "(nat \<Rightarrow> u8) \<Rightarrow> nat \<Rightarrow> u8 list \<Rightarrow> (nat \<times> port_write list) option" where
  "serial_write lsr k [] = Some (k, [])"
| "serial_write lsr k (c # cs) =
     (if c = 0 then Some (k, [])
      else case serial_write_char lsr k c of
             None \<Rightarrow> None
           | Some (k', out) \<Rightarrow>
               (case serial_write lsr k' cs of
                  None \<Rightarrow> None
                | Some (k'', out') \<Rightarrow> Some (k'', out @ out')))"

lemma serial_poll_ready:
  assumes "k \<le> j" "serial_transmit_empty (lsr j)"
    "\<And>i. k \<le> i \<Longrightarrow> i < j \<Longrightarrow> \<not> serial_transmit_empty (lsr i)"
  shows "serial_write_char lsr k c = Some (Suc j, [(COM1, c)])"
  using assms
proof (induction "j - k" arbitrary: k)
  case 0
  then show ?case by (simp add: serial_write_char.simps [of lsr k])
next
  case (Suc d)
  then have "serial_write_char lsr (Suc k) c = Some (Suc j, [(COM1, c)])"
    by (intro Suc.hyps(1)) auto
  then show ?case using Suc by (simp add: serial_write_char.simps [of lsr k])
qed

lemma serial_poll_stuck:
  "serial_write_char lsr k c = Some r \<Longrightarrow> \<exists>j\<ge>k. serial_transmit_empty (lsr j)"
proof (erule serial_write_char.raw_induct [where P = "\<lambda>lsr k c r. \<exists>j\<ge>k. serial_transmit_empty (lsr j)", rotated])
  fix swc :: "(nat \<Rightarrow> u8) \<Rightarrow> nat \<Rightarrow> u8 \<Rightarrow> (nat \<times> port_write list) option" and lsr k c r
  assume IH: "\<And>lsr k c r. swc lsr k c = Some r \<Longrightarrow> \<exists>j\<ge>k. serial_transmit_empty (lsr j)"
    and step: "(if serial_transmit_empty (lsr k) then Some (Suc k, [(COM1, c)]) else swc lsr (Suc k) c)
      = Some r"
  show "\<exists>j\<ge>k. serial_transmit_empty (lsr j)"
  proof (cases "serial_transmit_empty (lsr k)")
    case False
    with step IH have "\<exists>j\<ge>Suc k. serial_transmit_empty (lsr j)" by simp
    then show ?thesis by (meson Suc_leD)
  qed auto
qed

subsection \<open>kernel/screen.c\<close>

abbreviation MAX_ROWS :: int where "MAX_ROWS \<equiv> 25"
abbreviation MAX_COLS :: int where "MAX_COLS \<equiv> 80"

record screen =
  cursor_x :: int
  cursor_y :: int
  current_color :: u8
  vidmem :: "int \<Rightarrow> u8"
  out_log :: "port_write list"

definition outs :: "port_write list \<Rightarrow> screen \<Rightarrow> screen" where
  "outs ws s = s\<lparr>out_log := out_log s @ ws\<rparr>"

definition update_cursor :: "screen \<Rightarrow> screen" where
  "update_cursor s =
     (let pos = (word_of_int (cursor_y s * MAX_COLS + cursor_x s) :: u16)
      in outs [(0x3D4, 0x0F), (0x3D5, ucast (pos AND 0xFF)),
               (0x3D4, 0x0E), (0x3D5, ucast (drop_bit 8 pos AND 0xFF))] s)"

text \<open>\<open>for (i = from; i < to; i += 2)\<close>: a blank cell in the current colour.\<close>

function blank_cells :: "u8 \<Rightarrow> int \<Rightarrow> int \<Rightarrow> (int \<Rightarrow> u8) \<Rightarrow> (int \<Rightarrow> u8)" where
  "blank_cells col i hi v =
     (if i < hi then blank_cells col (i + 2) hi (v(i := 32, i + 1 := col)) else v)"
  by pat_completeness auto
termination
  by (relation "measure (\<lambda>(col, i, hi, v). nat (hi - i))") auto

text \<open>\<open>for (i = from; i < to; i++) vidmem[i] = vidmem[i + 160]\<close>, in place.\<close>

function copy_up :: "int \<Rightarrow> int \<Rightarrow> (int \<Rightarrow> u8) \<Rightarrow> (int \<Rightarrow> u8)" where
  "copy_up i hi v = (if i < hi then copy_up (i + 1) hi (v(i := v (i + MAX_COLS * 2))) else v)"
  by pat_completeness auto
termination
  by (relation "measure (\<lambda>(i, hi, v). nat (hi - i))") auto

declare blank_cells.simps [simp del] copy_up.simps [simp del]

definition scroll :: "screen \<Rightarrow> screen" where
  "scroll s =
     (let v = copy_up 0 ((MAX_ROWS - 1) * MAX_COLS * 2) (vidmem s)
      in s\<lparr>vidmem := blank_cells (current_color s) ((MAX_ROWS - 1) * MAX_COLS * 2)
             (MAX_ROWS * MAX_COLS * 2) v,
           cursor_y := MAX_ROWS - 1\<rparr>)"

definition clear_screen :: "screen \<Rightarrow> screen" where
  "clear_screen s =
     update_cursor (s\<lparr>vidmem := blank_cells (current_color s) 0 (MAX_ROWS * MAX_COLS * 2) (vidmem s),
       cursor_x := 0, cursor_y := 0\<rparr>)"

definition kprint_char_at :: "u8 \<Rightarrow> int \<Rightarrow> int \<Rightarrow> screen \<Rightarrow> screen" where
  "kprint_char_at c x y s =
     (let offset = (y * MAX_COLS + x) * 2
      in s\<lparr>vidmem := (vidmem s)(offset := c, offset + 1 := current_color s)\<rparr>)"

definition wrap_line :: "screen \<Rightarrow> screen" where
  "wrap_line s = (if cursor_x s \<ge> MAX_COLS then s\<lparr>cursor_x := 0, cursor_y := cursor_y s + 1\<rparr> else s)"

definition wrap_page :: "screen \<Rightarrow> screen" where
  "wrap_page s = (if cursor_y s \<ge> MAX_ROWS then scroll s else s)"

text \<open>\<open>kprint_char\<close> after the byte has gone to the serial line.\<close>

definition console_char :: "u8 \<Rightarrow> screen \<Rightarrow> screen" where
  "console_char c s =
     (if c = 8 then
        let s1 = (if cursor_x s > 0 then s\<lparr>cursor_x := cursor_x s - 1\<rparr>
                  else if cursor_y s > 0
                  then s\<lparr>cursor_y := cursor_y s - 1, cursor_x := MAX_COLS - 1\<rparr>
                  else s)
        in update_cursor (kprint_char_at 32 (cursor_x s1) (cursor_y s1) s1)
      else
        let s1 = (if c = 10 then s\<lparr>cursor_x := 0, cursor_y := cursor_y s + 1\<rparr>
                  else (kprint_char_at c (cursor_x s) (cursor_y s) s)\<lparr>cursor_x := cursor_x s + 1\<rparr>)
        in update_cursor (wrap_page (wrap_line s1)))"

definition kprint_char :: "u8 \<Rightarrow> screen \<Rightarrow> screen" where
  "kprint_char c s = console_char c (outs [(COM1, c)] s)"

definition kprint_char_wait :: "(nat \<Rightarrow> u8) \<Rightarrow> nat \<Rightarrow> u8 \<Rightarrow> screen \<Rightarrow> (nat \<times> screen) option" where
  "kprint_char_wait lsr k c s =
     (case serial_write_char lsr k c of
        None \<Rightarrow> None
      | Some (k', ws) \<Rightarrow> Some (k', console_char c (outs ws s)))"

text \<open>A C string is the list of its bytes up to the terminating zero; \<open>lit\<close> is a string literal.\<close>

definition lit :: "string \<Rightarrow> u8 list" where
  "lit s = map of_char s"

fun kprint :: "u8 list \<Rightarrow> screen \<Rightarrow> screen" where
  "kprint [] s = s"
| "kprint (c # cs) s = (if c = 0 then s else kprint cs (kprint_char c s))"

fun kprint_wait :: "(nat \<Rightarrow> u8) \<Rightarrow> nat \<Rightarrow> u8 list \<Rightarrow> screen \<Rightarrow> (nat \<times> screen) option" where
  "kprint_wait lsr k [] s = Some (k, s)"
| "kprint_wait lsr k (c # cs) s =
     (if c = 0 then Some (k, s)
      else case kprint_char_wait lsr k c s of
             None \<Rightarrow> None
           | Some (k', s') \<Rightarrow> kprint_wait lsr k' cs s')"

text \<open>The waits behind a log of port writes: one before each byte for the serial line.\<close>

fun log_waits :: "(nat \<Rightarrow> u8) \<Rightarrow> nat \<Rightarrow> port_write list \<Rightarrow> nat option" where
  "log_waits lsr k [] = Some k"
| "log_waits lsr k ((p, c) # ws) =
     (if p = COM1 then case serial_write_char lsr k c of None \<Rightarrow> None | Some (k', _) \<Rightarrow> log_waits lsr k' ws
      else log_waits lsr k ws)"

definition kprint_at :: "u8 list \<Rightarrow> int \<Rightarrow> int \<Rightarrow> screen \<Rightarrow> screen" where
  "kprint_at str x y s = kprint str (s\<lparr>cursor_x := x, cursor_y := y\<rparr>)"

text \<open>\<open>kprint\<close> of a pointer: the bytes are read from memory until a zero.\<close>

partial_function (option) cstring_at :: "mem \<Rightarrow> u32 \<Rightarrow> u8 list \<Rightarrow> u8 list option" where
  "cstring_at m p acc = (if m p = 0 then Some (rev acc) else cstring_at m (p + 1) (m p # acc))"

definition kprint_ptr :: "mem \<Rightarrow> u32 \<Rightarrow> screen \<Rightarrow> screen option" where
  "kprint_ptr m p s = map_option (\<lambda>cs. kprint cs s) (cstring_at m p [])"

text \<open>The digit loop of \<open>kprint_dec\<close>: \<open>i\<close> cells of the buffer are still unused, \<open>acc\<close> is its tail.\<close>

fun dec_digits :: "nat \<Rightarrow> u32 \<Rightarrow> u8 list \<Rightarrow> u8 list" where
  "dec_digits 0 v acc = acc"
| "dec_digits (Suc i) v acc =
     (if v > 0 then dec_digits i (v div 10) ((48 + ucast (v mod 10)) # acc) else acc)"

definition kprint_dec :: "u32 \<Rightarrow> screen \<Rightarrow> screen" where
  "kprint_dec v s = (if v = 0 then kprint_char 48 s else kprint (dec_digits 10 v []) s)"

definition hex_digits :: "u8 list" where
  "hex_digits = map of_char ''0123456789ABCDEF''"

definition hex_string :: "u32 \<Rightarrow> u8 list" where
  "hex_string v = [48, 120] @ map (\<lambda>i. hex_digits ! unat (drop_bit ((7 - i) * 4) v AND 0xF)) [0..<8]"

definition kprint_hex :: "u32 \<Rightarrow> screen \<Rightarrow> screen" where
  "kprint_hex v s = kprint (hex_string v) s"

subsection \<open>The loops in closed form\<close>

lemma blank_cells_closed:
  "even (hi - i) \<Longrightarrow> blank_cells col i hi v =
    (\<lambda>j. if i \<le> j \<and> j < hi then (if even (j - i) then 32 else col) else v j)"
proof (induction col i hi v rule: blank_cells.induct)
  case (1 col i hi v)
  show ?case
  proof (cases "i < hi")
    case True
    then have hi: "i + 1 < hi" using "1.prems" by presburger
    have "blank_cells col i hi v = blank_cells col (i + 2) hi (v(i := 32, i + 1 := col))"
      using True by (simp add: blank_cells.simps [of col i hi v])
    also have "\<dots> = (\<lambda>j. if i + 2 \<le> j \<and> j < hi then (if even (j - (i + 2)) then 32 else col)
        else (v(i := 32, i + 1 := col)) j)"
      by (rule "1.IH") (use True "1.prems" in auto)
    also have "\<dots> = (\<lambda>j. if i \<le> j \<and> j < hi then (if even (j - i) then 32 else col) else v j)"
      using hi by (intro ext) (auto simp: not_le, presburger+)
    finally show ?thesis .
  next
    case False
    then show ?thesis by (auto simp: blank_cells.simps [of col i hi v] intro!: ext)
  qed
qed

lemma copy_up_closed:
  "copy_up i hi v = (\<lambda>j. if i \<le> j \<and> j < hi then v (j + 160) else v j)"
proof (induction i hi v rule: copy_up.induct)
  case (1 i hi v)
  show ?case
  proof (cases "i < hi")
    case True
    have "copy_up i hi v = copy_up (i + 1) hi (v(i := v (i + MAX_COLS * 2)))"
      using True by (simp add: copy_up.simps [of i hi v])
    also have "\<dots> = (\<lambda>j. if i + 1 \<le> j \<and> j < hi then (v(i := v (i + MAX_COLS * 2))) (j + 160)
        else (v(i := v (i + MAX_COLS * 2))) j)"
      by (rule "1.IH" [OF True])
    also have "\<dots> = (\<lambda>j. if i \<le> j \<and> j < hi then v (j + 160) else v j)"
      using True by (intro ext) auto
    finally show ?thesis .
  next
    case False
    then show ?thesis by (auto simp: copy_up.simps [of i hi v] intro!: ext)
  qed
qed

subsection \<open>The screen invariant\<close>

definition screen_ok :: "screen \<Rightarrow> bool" where
  "screen_ok s \<longleftrightarrow> 0 \<le> cursor_x s \<and> cursor_x s < MAX_COLS \<and> 0 \<le> cursor_y s \<and> cursor_y s < MAX_ROWS"

definition in_frame :: "screen \<Rightarrow> screen \<Rightarrow> bool" where
  "in_frame s s' \<longleftrightarrow> (\<forall>i. i < 0 \<or> 4000 \<le> i \<longrightarrow> vidmem s' i = vidmem s i)"

lemma in_frame_refl: "in_frame s s"
  by (simp add: in_frame_def)

lemma in_frame_trans: "in_frame s t \<Longrightarrow> in_frame t u \<Longrightarrow> in_frame s u"
  by (simp add: in_frame_def)

lemma kprint_char_at_frame:
  "0 \<le> x \<Longrightarrow> x < 80 \<Longrightarrow> 0 \<le> y \<Longrightarrow> y < 25 \<Longrightarrow> in_frame s (kprint_char_at c x y s)"
  by (auto simp: in_frame_def kprint_char_at_def Let_def)

lemma kprint_char_ok:
  assumes "screen_ok s"
  shows "screen_ok (kprint_char c s) \<and> in_frame s (kprint_char c s)"
  using assms
  by (auto simp: screen_ok_def in_frame_def kprint_char_def console_char_def kprint_char_at_def wrap_line_def
      wrap_page_def scroll_def update_cursor_def outs_def Let_def blank_cells_closed copy_up_closed)

lemma kprint_ok: "screen_ok s \<Longrightarrow> screen_ok (kprint cs s) \<and> in_frame s (kprint cs s)"
proof (induction cs arbitrary: s)
  case Nil
  then show ?case by (simp add: in_frame_refl)
next
  case (Cons c cs)
  note one = kprint_char_ok [OF Cons.prems, of c]
  have "screen_ok (kprint cs (kprint_char c s)) \<and> in_frame (kprint_char c s) (kprint cs (kprint_char c s))"
    using Cons.IH one by blast
  then show ?case using one in_frame_trans Cons.prems in_frame_refl by auto
qed

definition serial_text :: "screen \<Rightarrow> u8 list" where
  "serial_text s = map snd (filter (\<lambda>w. fst w = COM1) (out_log s))"

lemma kprint_char_serial: "serial_text (kprint_char c s) = serial_text s @ [c]"
  by (simp add: serial_text_def kprint_char_def console_char_def kprint_char_at_def wrap_line_def wrap_page_def
      scroll_def update_cursor_def outs_def Let_def)

lemma kprint_serial:
  "serial_text (kprint cs s) = serial_text s @ takeWhile (\<lambda>c. c \<noteq> 0) cs"
  by (induction cs arbitrary: s) (auto simp: kprint_char_serial)

lemma cstring_at_bytes:
  "cstring_at m p acc = Some cs \<Longrightarrow> \<exists>bs. cs = rev acc @ bs \<and> 0 \<notin> set bs"
proof (erule cstring_at.raw_induct [where P = "\<lambda>m p acc cs. \<exists>bs. cs = rev acc @ bs \<and> 0 \<notin> set bs", rotated])
  fix rec :: "mem \<Rightarrow> u32 \<Rightarrow> u8 list \<Rightarrow> u8 list option" and m p acc cs
  assume IH: "\<And>m p acc cs. rec m p acc = Some cs \<Longrightarrow> \<exists>bs. cs = rev acc @ bs \<and> 0 \<notin> set bs"
    and step: "(if m p = 0 then Some (rev acc) else rec m (p + 1) (m p # acc)) = Some cs"
  show "\<exists>bs. cs = rev acc @ bs \<and> 0 \<notin> set bs"
  proof (cases "m p = 0")
    case False
    with step have "rec m (p + 1) (m p # acc) = Some cs" by simp
    from IH [OF this] obtain bs where "cs = rev (m p # acc) @ bs" "0 \<notin> set bs" by blast
    with False show ?thesis by (intro exI [of _ "m p # bs"]) simp
  qed (use step in auto)
qed

lemma kprint_ptr_serial:
  assumes "cstring_at m p [] = Some cs"
  shows "\<exists>s'. kprint_ptr m p s = Some s' \<and> serial_text s' = serial_text s @ cs"
proof -
  have "takeWhile (\<lambda>c. c \<noteq> 0) cs = cs"
    using cstring_at_bytes [OF assms] by (auto simp: takeWhile_eq_all_conv)
  then show ?thesis using assms by (simp add: kprint_ptr_def kprint_serial)
qed

subsection \<open>Numbers\<close>

text \<open>The value of a digit string, in base 10 and in base 16.\<close>

definition dec_value :: "u8 list \<Rightarrow> nat" where
  "dec_value cs = foldl (\<lambda>n c. n * 10 + (unat c - 48)) 0 cs"

definition hex_digit_value :: "u8 \<Rightarrow> nat" where
  "hex_digit_value c = (if c \<le> 57 then unat c - 48 else unat c - 55)"

definition hex_value :: "u8 list \<Rightarrow> nat" where
  "hex_value cs = foldl (\<lambda>n c. n * 16 + hex_digit_value c) 0 cs"

lemma dec_value_fold:
  "foldl (\<lambda>n c. n * 10 + (unat c - 48)) a cs = a * 10 ^ length cs + dec_value cs"
proof (induction cs rule: rev_induct)
  case Nil
  then show ?case by (simp add: dec_value_def)
next
  case (snoc c cs)
  then show ?case by (simp add: dec_value_def algebra_simps)
qed

lemma dec_value_Cons: "dec_value (c # cs) = (unat c - 48) * 10 ^ length cs + dec_value cs"
  using dec_value_fold [of "unat c - 48" cs] by (simp add: dec_value_def)

lemma digit_byte: "unat (48 + ucast (v mod 10) :: u8) = 48 + unat v mod 10" for v :: u32
proof -
  have "unat (ucast (v mod 10) :: u8) = unat v mod 10"
    by (simp add: unsigned_ucast_eq unat_mod take_bit_nat_eq_self)
  then show ?thesis by (simp add: unat_word_ariths)
qed

lemma unat_div_10: "unat (v div 10) = unat v div 10" for v :: u32
  by (simp add: unat_div)

lemma dec_digits_value:
  "unat v < 10 ^ i \<Longrightarrow>
    dec_value (dec_digits i v acc) = unat v * 10 ^ length acc + dec_value acc"
proof (induction i arbitrary: v acc)
  case 0
  then show ?case by simp
next
  case (Suc i)
  show ?case
  proof (cases "v > 0")
    case True
    let ?d = "48 + ucast (v mod 10) :: u8"
    have small: "unat (v div 10) < 10 ^ i"
      using Suc.prems by (simp add: unat_div_10 less_mult_imp_div_less)
    have "dec_value (dec_digits i (v div 10) (?d # acc)) =
        unat (v div 10) * 10 ^ length (?d # acc) + dec_value (?d # acc)"
      by (rule Suc.IH [OF small])
    also have "\<dots> = unat v div 10 * (10 * 10 ^ length acc)
        + unat v mod 10 * 10 ^ length acc + dec_value acc"
      by (simp add: dec_value_Cons digit_byte unat_div_10)
    also have "\<dots> = (unat v div 10 * 10 + unat v mod 10) * 10 ^ length acc + dec_value acc"
      by (simp only: add_mult_distrib mult.assoc)
    finally show ?thesis using True by simp
  next
    case False
    then have "v = 0" by (simp add: word_neq_0_conv [symmetric])
    then show ?thesis by simp
  qed
qed

text \<open>The digits are decimal digits and the first one is not a zero.\<close>

lemma dec_digits_form:
  assumes "unat v < 10 ^ i" "v > 0" "\<forall>c\<in>set acc. 48 \<le> c \<and> c \<le> 57"
  shows "(\<forall>c\<in>set (dec_digits i v acc). 48 \<le> c \<and> c \<le> 57) \<and> dec_digits i v acc \<noteq> [] \<and>
    hd (dec_digits i v acc) \<noteq> 48"
  using assms
proof (induction i arbitrary: v acc)
  case 0
  then show ?case by (simp add: word_less_nat_alt)
next
  case (Suc i)
  let ?d = "48 + ucast (v mod 10) :: u8"
  have d: "48 \<le> ?d \<and> ?d \<le> 57" by (simp add: word_le_nat_alt digit_byte)
  show ?case
  proof (cases "v div 10 > 0")
    case True
    have "unat (v div 10) < 10 ^ i" using Suc.prems by (simp add: unat_div_10 less_mult_imp_div_less)
    then show ?thesis using Suc.IH [of "v div 10" "?d # acc"] True Suc.prems d by simp
  next
    case False
    then have "unat (v div 10) = 0" by (simp add: word_less_nat_alt)
    then have 0: "unat v div 10 = 0" by (simp only: unat_div_10)
    then have stop: "dec_digits i (v div 10) (?d # acc) = ?d # acc"
      using False by (cases i) auto
    have "unat ?d \<noteq> 48" using 0 Suc.prems(2) by (simp add: digit_byte word_less_nat_alt)
    then have "?d \<noteq> 48" by auto
    then show ?thesis using stop d Suc.prems by simp
  qed
qed


lemma length_dec_digits: "length (dec_digits i v acc) \<le> i + length acc"
proof (induction i v acc rule: dec_digits.induct)
  case (2 i v acc)
  then show ?case by (cases "v > 0") (auto simp del: word_neq_0_conv)
qed simp

lemma hex_digit_table:
  assumes "d < 16"
  shows "hex_digit_value (hex_digits ! d) = d" and "hex_digits ! d \<noteq> 0"
proof -
  have "\<forall>d \<in> set [0..<16]. hex_digit_value (hex_digits ! d) = d \<and> hex_digits ! d \<noteq> 0"
    by code_simp
  with assms show "hex_digit_value (hex_digits ! d) = d" "hex_digits ! d \<noteq> 0" by auto
qed

lemma nibble: "unat (drop_bit n v AND 0xF) = unat v div 2 ^ n mod 16" for v :: u32
  using unat_take_drop [of 4 n v] by (simp only: and_mask_fields) simp

lemma join_nibble: "n div (a * 16) * 16 + n div a mod 16 = n div a" for n a :: nat
  by (simp add: div_mult2_eq)

lemma hex_prefix:
  fixes x :: nat
  assumes "x < 16 ^ 8" "j \<le> 8"
  shows "foldl (\<lambda>n i. n * 16 + x div 16 ^ (7 - i) mod 16) 0 [0..<j] = x div 16 ^ (8 - j)"
  using assms(2)
proof (induction j)
  case 0
  then show ?case using assms(1) by simp
next
  case (Suc j)
  then have "8 - j = Suc (7 - j)" by simp
  then have "x div 16 ^ (8 - j) * 16 + x div 16 ^ (7 - j) mod 16 = x div 16 ^ (7 - j)"
    using join_nibble [of x "16 ^ (7 - j)"] by (simp add: mult.commute)
  then show ?case using Suc by simp
qed

lemma hex_string_value: "hex_value (drop 2 (hex_string v)) = unat v"
proof -
  have "drop 2 (hex_string v) = map (\<lambda>i. hex_digits ! (unat v div 2 ^ ((7 - i) * 4) mod 16)) [0..<8]"
    by (simp only: hex_string_def nibble append_Cons append_Nil drop_Suc_Cons drop_0 numeral_2_eq_2)
  moreover have "2 ^ (k * 4) = (16 :: nat) ^ k" for k
    using power_mult [of "2 :: nat" 4 k] by (simp add: mult.commute)
  ultimately have "hex_value (drop 2 (hex_string v)) =
      foldl (\<lambda>n i. n * 16 + unat v div 16 ^ (7 - i) mod 16) 0 [0..<8]"
    by (simp only: hex_value_def foldl_map hex_digit_table mod_less_divisor zero_less_numeral)
  then show ?thesis using hex_prefix [of "unat v" 8] unsigned_less [of v, where 'a = nat] by simp
qed

subsection \<open>The properties of the console\<close>

lemma kprint_dec_screen: "screen_ok s \<Longrightarrow> screen_ok (kprint_dec v s) \<and> in_frame s (kprint_dec v s)"
  by (simp add: kprint_dec_def kprint_ok kprint_char_ok)

text \<open>
  C21. Printing is memory-safe: with the cursor on the screen, \<open>kprint\<close> of any
  bytes (control characters, line wraps and scrolls included) leaves the cursor on the screen,
  changes no byte outside the 80x25 frame buffer, and mirrors on COM1 exactly the bytes before the
  terminating zero.
\<close>

theorem kprint_screen:
  assumes "screen_ok s"
  shows "screen_ok (kprint cs s) \<and> in_frame s (kprint cs s) \<and>
    serial_text (kprint cs s) = serial_text s @ takeWhile (\<lambda>c. c \<noteq> 0) cs"
  using kprint_ok [OF assms] kprint_serial by blast

definition boot_screen :: screen where
  "boot_screen = \<lparr>cursor_x = 0, cursor_y = 0, current_color = 0x1F, vidmem = (\<lambda>_. 0), out_log = []\<rparr>"

lemma boot_screen_ok: "screen_ok boot_screen"
  by (simp add: boot_screen_def screen_ok_def)

theorem kprint_screen_witness:
  "screen_ok boot_screen \<and> serial_text (kprint [77, 120, 10, 8, 0, 65] boot_screen) = [77, 120, 10, 8]"
  using kprint_screen [OF boot_screen_ok, of "[77, 120, 10, 8, 0, 65]"] boot_screen_ok
  by (simp add: boot_screen_def serial_text_def)

text \<open>
  Remark. A line feed on the last line scrolls: every cell of rows 1 to 24 moves
  one row up, the last row becomes blank in the current colour, and the cursor is at the start of
  the last line.
\<close>

theorem kprint_char_scroll:
  assumes "screen_ok s" "cursor_y s = 24"
  shows "cursor_x (kprint_char 10 s) = 0 \<and> cursor_y (kprint_char 10 s) = 24 \<and>
    (\<forall>i. 0 \<le> i \<and> i < 3840 \<longrightarrow> vidmem (kprint_char 10 s) i = vidmem s (i + 160)) \<and>
    (\<forall>i. 3840 \<le> i \<and> i < 4000 \<longrightarrow>
      vidmem (kprint_char 10 s) i = (if even i then 32 else current_color s))"
  using assms
  by (auto simp: kprint_char_def console_char_def wrap_line_def wrap_page_def scroll_def update_cursor_def outs_def
      Let_def blank_cells_closed copy_up_closed)

theorem kprint_char_scroll_witness:
  "cursor_y (kprint_char 10 (boot_screen\<lparr>cursor_y := 24\<rparr>)) = 24"
  using kprint_char_scroll [of "boot_screen\<lparr>cursor_y := 24\<rparr>"]
  by (simp add: boot_screen_def screen_ok_def)

subsection \<open>Waiting for the UART\<close>

lemma serial_ready_iff: "serial_transmit_empty v \<longleftrightarrow> bit v 5"
proof -
  have "v AND 0x20 \<noteq> 0 \<longleftrightarrow> bit v 5" using and_exp_eq_0_iff_not_bit [of v 5] by simp
  then show ?thesis by (simp add: serial_transmit_empty_def)
qed

text \<open>The polls of one byte, counted by the status bit for an empty transmit register.\<close>

definition ready_polls :: "(nat \<Rightarrow> u8) \<Rightarrow> nat \<Rightarrow> nat \<Rightarrow> nat set" where
  "ready_polls lsr k k' = {j. k \<le> j \<and> j < k' \<and> bit (lsr j) 5}"

lemma serial_write_char_least:
  "serial_write_char lsr k c =
    (if \<exists>j\<ge>k. serial_transmit_empty (lsr j)
     then Some (Suc (LEAST j. k \<le> j \<and> serial_transmit_empty (lsr j)), [(COM1, c)]) else None)"
proof (cases "\<exists>j\<ge>k. serial_transmit_empty (lsr j)")
  case True
  define j where "j = (LEAST j. k \<le> j \<and> serial_transmit_empty (lsr j))"
  have j: "k \<le> j \<and> serial_transmit_empty (lsr j)" unfolding j_def using True by (auto intro: LeastI2_ex)
  have "\<not> serial_transmit_empty (lsr i)" if "k \<le> i" "i < j" for i
    using not_less_Least [of i "\<lambda>j. k \<le> j \<and> serial_transmit_empty (lsr j)"] that by (auto simp: j_def)
  then show ?thesis using serial_poll_ready [of k j lsr c] j True by (simp add: j_def)
next
  case False
  then show ?thesis using serial_poll_stuck by (cases "serial_write_char lsr k c") auto
qed

lemma serial_write_char_polls:
  assumes "serial_write_char lsr k c = Some (k', ws)"
  shows "k < k'" "ws = [(COM1, c)]" "ready_polls lsr k k' = {k' - 1}"
proof -
  define j where "j = (LEAST j. k \<le> j \<and> serial_transmit_empty (lsr j))"
  have ex: "\<exists>j\<ge>k. serial_transmit_empty (lsr j)" and r: "k' = Suc j" "ws = [(COM1, c)]"
    using assms by (auto simp: serial_write_char_least j_def split: if_splits)
  have j: "k \<le> j" "bit (lsr j) 5" using LeastI_ex [of "\<lambda>j. k \<le> j \<and> serial_transmit_empty (lsr j)"] ex
    by (auto simp: j_def serial_ready_iff)
  have "\<not> bit (lsr i) 5" if "k \<le> i" "i < j" for i
    using not_less_Least [of i "\<lambda>j. k \<le> j \<and> serial_transmit_empty (lsr j)"] that by (auto simp: j_def serial_ready_iff)
  then show "k < k'" "ws = [(COM1, c)]" "ready_polls lsr k k' = {k' - 1}"
    using j r by (auto simp: ready_polls_def less_Suc_eq)
qed

lemma ready_polls_split: "k \<le> k1 \<Longrightarrow> k1 \<le> k2 \<Longrightarrow> card (ready_polls lsr k k2) = card (ready_polls lsr k k1) + card (ready_polls lsr k1 k2)"
proof -
  assume a: "k \<le> k1" "k1 \<le> k2"
  have f: "finite (ready_polls lsr i j)" for i j by (rule finite_subset [of _ "{..<j}"]) (auto simp: ready_polls_def)
  have "ready_polls lsr k k2 = ready_polls lsr k k1 \<union> ready_polls lsr k1 k2" using a by (auto simp: ready_polls_def)
  moreover have "ready_polls lsr k k1 \<inter> ready_polls lsr k1 k2 = {}" by (auto simp: ready_polls_def)
  ultimately show ?thesis using f by (simp add: card_Un_disjoint)
qed

lemma kprint_char_wait_Some:
  assumes "serial_write_char lsr k c = Some (k', ws)"
  shows "kprint_char_wait lsr k c s = Some (k', kprint_char c s)"
  using assms serial_write_char_polls(2) [OF assms] by (simp add: kprint_char_wait_def kprint_char_def)

lemma kprint_wait_result:
  "kprint_wait lsr k cs s = Some (k', s') \<Longrightarrow>
    k \<le> k' \<and> s' = kprint cs s \<and> card (ready_polls lsr k k') = length (takeWhile (\<lambda>c. c \<noteq> 0) cs)"
proof (induction cs arbitrary: k s)
  case Nil
  then show ?case by (simp add: ready_polls_def)
next
  case (Cons c cs)
  show ?case
  proof (cases "c = 0")
    case True
    then show ?thesis using Cons.prems by (simp add: ready_polls_def)
  next
    case False
    obtain k1 ws where w: "serial_write_char lsr k c = Some (k1, ws)"
      using Cons.prems False by (cases "serial_write_char lsr k c") (auto simp: kprint_char_wait_def)
    note p = serial_write_char_polls [OF w]
    have "kprint_wait lsr k1 cs (kprint_char c s) = Some (k', s')"
      using Cons.prems False kprint_char_wait_Some [OF w] by simp
    from Cons.IH [OF this] p show ?thesis using False ready_polls_split [of k k1 k' lsr] by simp
  qed
qed

lemma serial_write_char_returns:
  assumes "\<forall>i. \<exists>j\<ge>i. bit (lsr j) 5"
  shows "\<exists>k'. serial_write_char lsr k c = Some (k', [(COM1, c)])"
proof -
  have "\<exists>j\<ge>k. serial_transmit_empty (lsr j)" using assms by (simp add: serial_ready_iff)
  then show ?thesis by (simp add: serial_write_char_least)
qed

lemma kprint_wait_returns:
  assumes "\<forall>i. \<exists>j\<ge>i. bit (lsr j) 5"
  shows "kprint_wait lsr k cs s \<noteq> None"
proof (induction cs arbitrary: k s)
  case (Cons c cs)
  then show ?case using serial_write_char_returns [OF assms, of k c] by (auto simp: kprint_char_wait_def)
qed simp

lemma serial_write_char_hangs: "\<forall>j\<ge>k. \<not> bit (lsr j) 5 \<Longrightarrow> serial_write_char lsr k c = None"
  by (auto simp: serial_write_char_least serial_ready_iff)

lemma log_waits_returns: "\<forall>i. \<exists>j\<ge>i. bit (lsr j) 5 \<Longrightarrow> \<exists>k'. log_waits lsr k ws = Some k'"
proof (induction lsr k ws rule: log_waits.induct)
  case (2 lsr k p c ws)
  then show ?case using serial_write_char_returns [of lsr k c] by auto
qed simp

lemma log_waits_hangs: "\<forall>j\<ge>k. \<not> bit (lsr j) 5 \<Longrightarrow> (COM1, c) \<in> set ws \<Longrightarrow> log_waits lsr k ws = None"
proof (induction lsr k ws rule: log_waits.induct)
  case (2 lsr k p b ws)
  then show ?case using serial_write_char_hangs [of k lsr b] by auto
qed simp

lemma log_waits_append: "log_waits lsr k (us @ ws) = (case log_waits lsr k us of None \<Rightarrow> None | Some k' \<Rightarrow> log_waits lsr k' ws)"
  by (induction lsr k us rule: log_waits.induct) (auto split: option.splits)

text \<open>What \<open>console_char\<close> adds to the log goes to the cursor registers.\<close>

lemma console_char_log: "\<exists>ws. out_log (console_char c s) = out_log s @ ws \<and> (\<forall>lsr k. log_waits lsr k ws = Some k)"
  by (simp add: console_char_def update_cursor_def outs_def kprint_char_at_def wrap_line_def wrap_page_def scroll_def Let_def)

lemma kprint_char_log:
  "\<exists>ws. out_log (kprint_char c s) = out_log s @ (COM1, c) # ws \<and> (\<forall>lsr k. log_waits lsr k ws = Some k)"
  using console_char_log [of c "outs [(COM1, c)] s"] by (auto simp: kprint_char_def outs_def)

text \<open>Printing with its waits is printing, once the waits that its log stands for have ended.\<close>

lemma kprint_wait_eq:
  "\<exists>ws. out_log (kprint cs s) = out_log s @ ws \<and>
    (\<forall>lsr k. kprint_wait lsr k cs s = map_option (\<lambda>k'. (k', kprint cs s)) (log_waits lsr k ws))"
proof (induction cs arbitrary: s)
  case (Cons c cs)
  show ?case
  proof (cases "c = 0")
    case False
    obtain us where us: "out_log (kprint_char c s) = out_log s @ (COM1, c) # us" "\<And>lsr k. log_waits lsr k us = Some k"
      using kprint_char_log by blast
    obtain ws where ws: "out_log (kprint cs (kprint_char c s)) = out_log (kprint_char c s) @ ws"
      "\<And>lsr k. kprint_wait lsr k cs (kprint_char c s) = map_option (\<lambda>k'. (k', kprint cs (kprint_char c s))) (log_waits lsr k ws)"
      using Cons.IH [of "kprint_char c s"] by blast
    have "kprint_wait lsr k (c # cs) s = map_option (\<lambda>k'. (k', kprint (c # cs) s)) (log_waits lsr k ((COM1, c) # us @ ws))" for lsr k
    proof (cases "serial_write_char lsr k c")
      case None
      then show ?thesis using False by (simp add: kprint_char_wait_def)
    next
      case (Some r)
      then obtain k1 v where "serial_write_char lsr k c = Some (k1, v)" by (cases r) simp
      then show ?thesis using False kprint_char_wait_Some ws(2) us(2) by (simp add: log_waits_append)
    qed
    then show ?thesis using False us(1) ws(1) by (intro exI [of _ "(COM1, c) # us @ ws"]) simp
  qed (intro exI [of _ "[]"], simp)
qed (intro exI [of _ "[]"], simp)

lemma kprint_wait_hangs:
  assumes "takeWhile (\<lambda>c. c \<noteq> 0) cs \<noteq> []" "\<forall>j\<ge>k. \<not> bit (lsr j) 5"
  shows "kprint_wait lsr k cs s = None"
  using assms serial_write_char_hangs [OF assms(2)] by (cases cs) (auto simp: kprint_char_wait_def split: if_splits)

text \<open>
  C23. Printing waits for the UART, byte by byte. When \<open>kprint\<close> returns, it has used exactly one poll that
  reported an empty transmit register (bit 5 of the line status) per byte sent, so no byte was written over one that the
  UART had not taken, and screen and serial line are as if there were no wait. It returns if the UART
  reports ready again and again; if the UART never does, the first byte hangs the machine.
\<close>

theorem kprint_waits:
  shows "(kprint_wait lsr k cs s = Some (k', s') \<longrightarrow> k \<le> k' \<and> s' = kprint cs s \<and>
      serial_text s' = serial_text s @ takeWhile (\<lambda>c. c \<noteq> 0) cs \<and>
      card {j. k \<le> j \<and> j < k' \<and> bit (lsr j) 5} = length (takeWhile (\<lambda>c. c \<noteq> 0) cs)) \<and>
    ((\<forall>i. \<exists>j\<ge>i. bit (lsr j) 5) \<longrightarrow> kprint_wait lsr k cs s \<noteq> None) \<and>
    (takeWhile (\<lambda>c. c \<noteq> 0) cs \<noteq> [] \<and> (\<forall>j\<ge>k. \<not> bit (lsr j) 5) \<longrightarrow> kprint_wait lsr k cs s = None)"
  using kprint_wait_result [of lsr k cs s k' s'] kprint_wait_returns [of lsr k cs s] kprint_wait_hangs [of cs k lsr s]
  by (auto simp: kprint_serial ready_polls_def)

theorem kprint_waits_witness:
  "\<exists>k'. kprint_wait (\<lambda>j. if even j then 0x60 else 0) 1 [72, 105, 0] boot_screen = Some (k', kprint [72, 105, 0] boot_screen) \<and>
    card {j. 1 \<le> j \<and> j < k' \<and> bit ((if even j then 0x60 else 0) :: u8) 5} = 2"
proof -
  define lsr :: "nat \<Rightarrow> u8" where "lsr = (\<lambda>j. if even j then 0x60 else 0)"
  have "bit (0x60 :: u8) 5" by (simp add: bit_numeral_rec)
  then have "\<forall>i. \<exists>j\<ge>i. bit (lsr j) 5" by (intro allI, rule_tac x = "2 * i" in exI) (simp add: lsr_def)
  then have "kprint_wait lsr 1 [72, 105, 0] boot_screen \<noteq> None" using kprint_waits by blast
  then obtain k' s' where k': "kprint_wait lsr 1 [72, 105, 0] boot_screen = Some (k', s')" by auto
  then have "s' = kprint [72, 105, 0] boot_screen" "card {j. 1 \<le> j \<and> j < k' \<and> bit (lsr j) 5} = length (takeWhile (\<lambda>c. c \<noteq> 0) [72, 105, 0 :: u8])"
    using kprint_waits by blast+
  then show ?thesis using k' unfolding lsr_def by (intro exI [of _ k']) simp
qed

text \<open>
  Remark. \<open>kprint_dec\<close> prints the shortest decimal numeral of its argument: decimal
  digits only, no leading zero unless it is the single digit \<open>0\<close>, and the value of the numeral is
  the argument. Its ten-cell buffer is large enough for every 32-bit value.
\<close>

theorem kprint_dec_text:
  "\<exists>ds. serial_text (kprint_dec v s) = serial_text s @ ds \<and> dec_value ds = unat v \<and> ds \<noteq> [] \<and>
    (\<forall>c\<in>set ds. 48 \<le> c \<and> c \<le> 57) \<and> (hd ds = 48 \<longrightarrow> ds = [48]) \<and> length ds \<le> 10"
proof (cases "v = 0")
  case True
  then show ?thesis by (intro exI [of _ "[48]"]) (simp add: kprint_dec_def kprint_char_serial dec_value_def)
next
  case False
  have v: "unat v < 10 ^ 10" using unsigned_less [of v, where 'a = nat] by simp
  let ?ds = "dec_digits 10 v []"
  have f: "\<forall>c\<in>set ?ds. 48 \<le> c \<and> c \<le> 57" "?ds \<noteq> []" "hd ?ds \<noteq> 48"
    using dec_digits_form [of v 10 "[]"] v False by (auto simp: word_neq_0_conv)
  have "takeWhile (\<lambda>c. c \<noteq> 0) ?ds = ?ds" using f(1) by (auto simp: takeWhile_eq_all_conv)
  moreover have "dec_value ?ds = unat v" using dec_digits_value [OF v, of "[]"] by (simp add: dec_value_def)
  moreover have "length ?ds \<le> 10" using length_dec_digits [of 10 v "[]"] by simp
  ultimately show ?thesis
    using f False by (intro exI [of _ ?ds]) (simp add: kprint_dec_def kprint_serial)
qed

theorem kprint_dec_text_witness:
  "\<exists>ds. serial_text (kprint_dec 42 boot_screen) = ds \<and> dec_value ds = 42 \<and> length ds \<le> 10"
  using kprint_dec_text [of 42 boot_screen] by (auto simp: boot_screen_def serial_text_def)

text \<open>
  Remark. \<open>kprint_hex\<close> prints \<open>0x\<close> and eight hexadecimal digits whose value is the
  argument.
\<close>

theorem kprint_hex_text:
  "\<exists>ds. serial_text (kprint_hex v s) = serial_text s @ [48, 120] @ ds \<and> length ds = 8 \<and>
    hex_value ds = unat v"
proof -
  let ?ds = "drop 2 (hex_string v)"
  have split: "hex_string v = [48, 120] @ ?ds" by (simp add: hex_string_def)
  have "\<forall>c\<in>set ?ds. c \<noteq> 0"
    by (auto simp: hex_string_def nibble simp del: upt_conv_Cons intro!: hex_digit_table(2))
  then have "takeWhile (\<lambda>c. c \<noteq> 0) (hex_string v) = hex_string v"
    by (subst split, subst (2) split) (auto simp: takeWhile_eq_all_conv)
  then have "serial_text (kprint_hex v s) = serial_text s @ [48, 120] @ ?ds"
    using split by (simp add: kprint_hex_def kprint_serial)
  then show ?thesis using hex_string_value [of v] by (intro exI [of _ ?ds]) (simp add: hex_string_def)
qed

end
