(* ===== verification/Ring.thy ===== *)
theory Ring
  imports Mx_Prelude
begin

text \<open>
  Circular buffers. The kernel has three of them: the IPC mailboxes of \<open>kernel/sched.c\<close>, the key
  queue of \<open>kernel/keyboard.c\<close> and the command history of \<open>kernel/shell.c\<close>. This theory holds the
  index arithmetic they share and the interface of a bounded queue, with what a client sees of any
  sequence of insertions and removals.
\<close>

definition ring_list :: "(nat \<Rightarrow> 'a) \<Rightarrow> nat \<Rightarrow> nat \<Rightarrow> nat \<Rightarrow> 'a list" where
  "ring_list f cap head count = map (\<lambda>k. f ((head + k) mod cap)) [0..<count]"

lemma length_ring_list [simp]: "length (ring_list f cap head count) = count"
  by (simp add: ring_list_def)

lemma ring_list_0 [simp]: "ring_list f cap head 0 = []"
  by (simp add: ring_list_def)

lemma ring_slots_distinct:
  assumes "j < k" "k < cap"
  shows "(head + j) mod cap \<noteq> (head + k) mod (cap :: nat)"
proof
  assume "(head + j) mod cap = (head + k) mod cap"
  then have "cap dvd (head + k) - (head + j)"
    using assms mod_eq_dvd_iff_nat [of "head + j" "head + k" cap] by simp
  then have "cap dvd k - j" by simp
  then show False using assms by (auto dest: dvd_imp_le)
qed

lemma ring_list_cong:
  "(\<And>k. k < count \<Longrightarrow> f ((head + k) mod cap) = g ((head + k) mod cap)) \<Longrightarrow>
    ring_list f cap head count = ring_list g cap head count"
  by (simp add: ring_list_def)

lemma ring_list_push:
  assumes "count < cap"
    "\<And>j. j < count \<Longrightarrow> g ((head + j) mod cap) = f ((head + j) mod cap)"
    "g ((head + count) mod cap) = v"
  shows "ring_list g cap head (Suc count) = ring_list f cap head count @ [v]"
  using assms by (simp add: ring_list_def)

lemma ring_list_pop:
  "ring_list f cap head (Suc count) = f (head mod cap) # ring_list f cap (Suc head mod cap) count"
proof -
  have "map (\<lambda>k. f ((head + k) mod cap)) [0..<Suc count] =
      f (head mod cap) # map (\<lambda>k. f ((head + Suc k) mod cap)) [0..<count]"
    by (simp add: map_upt_Suc del: upt_Suc)
  moreover have "(Suc head mod cap + k) mod cap = (head + Suc k) mod cap" for k
    by (simp add: mod_add_left_eq)
  ultimately show ?thesis by (simp add: ring_list_def)
qed

subsection \<open>Bounded queues\<close>

datatype 'a fifo_op = Put 'a | Get

text \<open>A run of queue operations: the final state, the accepted insertions and the removed items.\<close>

fun fifo_run :: "('a \<Rightarrow> 's \<Rightarrow> bool \<times> 's) \<Rightarrow> ('s \<Rightarrow> 'b option \<times> 's) \<Rightarrow> 'a fifo_op list \<Rightarrow> 's
    \<Rightarrow> 's \<times> 'a list \<times> 'b list" where
  "fifo_run put get [] s = (s, [], [])"
| "fifo_run put get (Put x # ops) s =
     (let (ok, s1) = put x s; (s', acc, got) = fifo_run put get ops s1
      in (s', if ok then x # acc else acc, got))"
| "fifo_run put get (Get # ops) s =
     (let (r, s1) = get s; (s', acc, got) = fifo_run put get ops s1
      in (s', acc, case r of None \<Rightarrow> got | Some y \<Rightarrow> y # got))"

locale bounded_fifo =
  fixes inv :: "'s \<Rightarrow> bool"
    and items :: "'s \<Rightarrow> 'b list"
    and cap :: nat
    and stored :: "'a \<Rightarrow> 'b"
    and put :: "'a \<Rightarrow> 's \<Rightarrow> bool \<times> 's"
    and get :: "'s \<Rightarrow> 'b option \<times> 's"
  assumes put_room: "inv s \<Longrightarrow> length (items s) < cap \<Longrightarrow> put x s = (ok, s') \<Longrightarrow>
      ok \<and> items s' = items s @ [stored x]"
    and put_full: "inv s \<Longrightarrow> \<not> length (items s) < cap \<Longrightarrow> put x s = (False, s)"
    and put_inv: "inv s \<Longrightarrow> put x s = (ok, s') \<Longrightarrow> inv s'"
    and get_empty: "inv s \<Longrightarrow> items s = [] \<Longrightarrow> get s = (None, s)"
    and get_item: "inv s \<Longrightarrow> items s = y # ys \<Longrightarrow> get s = (r, s') \<Longrightarrow> r = Some y \<and> items s' = ys"
    and get_inv: "inv s \<Longrightarrow> get s = (r, s') \<Longrightarrow> inv s'"
begin

lemma put_cases:
  assumes "inv s" "put x s = (ok, s')"
  shows "items s' = (if ok then items s @ [stored x] else items s)"
    and "ok \<longleftrightarrow> length (items s) < cap"
  using put_room [OF assms(1) _ assms(2)] put_full [OF assms(1)] assms(2)
  by (cases "length (items s) < cap"; auto)+

lemma get_cases:
  assumes "inv s" "get s = (r, s')"
  shows "items s = (case r of None \<Rightarrow> items s' | Some y \<Rightarrow> y # items s')"
    and "r = None \<longleftrightarrow> items s = []"
  using get_empty [OF assms(1)] get_item [OF assms(1) _ assms(2)] assms(2)
  by (cases "items s"; auto)+

text \<open>Nothing is lost, duplicated or reordered: what was queued, followed by what was accepted, is
  what came out followed by what is still queued.\<close>

lemma run_order:
  "inv s \<Longrightarrow> fifo_run put get ops s = (s', acc, got) \<Longrightarrow>
    inv s' \<and> items s @ map stored acc = got @ items s'"
proof (induction ops arbitrary: s s' acc got)
  case Nil
  then show ?case by simp
next
  case (Cons op ops)
  show ?case
  proof (cases op)
    case (Put x)
    obtain ok s1 where p: "put x s = (ok, s1)" by (cases "put x s")
    obtain s2 a g where r: "fifo_run put get ops s1 = (s2, a, g)"
      by (cases "fifo_run put get ops s1")
    have "inv s1" using put_inv Cons.prems(1) p by blast
    with Cons.IH r have IH: "inv s2 \<and> items s1 @ map stored a = g @ items s2" by blast
    show ?thesis using IH Cons.prems(2) Put p r put_cases(1) [OF Cons.prems(1) p] by auto
  next
    case Get
    obtain v s1 where p: "get s = (v, s1)" by (cases "get s")
    obtain s2 a g where r: "fifo_run put get ops s1 = (s2, a, g)"
      by (cases "fifo_run put get ops s1")
    have "inv s1" using get_inv Cons.prems(1) p by blast
    with Cons.IH r have IH: "inv s2 \<and> items s1 @ map stored a = g @ items s2" by blast
    show ?thesis using IH Cons.prems(2) Get p r get_cases(1) [OF Cons.prems(1) p]
      by (auto split: option.splits)
  qed
qed

end

end
