(* ===== verification/Mailbox.thy ===== *)
theory Mailbox
  imports Ring
begin

text \<open>
  The IPC mailbox of a task (\<open>kernel/sched.h\<close>, \<open>kernel/sched.c\<close>): a ring of four slots of 128 bytes.
  The mailbox fields of \<open>Task\<close> form a record of their own, which the task record of theory Sched
  extends.
\<close>

abbreviation MAILBOX_QUEUE_SIZE :: nat where "MAILBOX_QUEUE_SIZE \<equiv> 4"

record mbox =
  mailbox :: "nat \<Rightarrow> nat \<Rightarrow> u8"
  mailbox_len :: "nat \<Rightarrow> u32"
  mailbox_sender :: "nat \<Rightarrow> int"
  mailbox_head :: nat
  mailbox_count :: nat

definition mailbox_reset :: "'r mbox_scheme \<Rightarrow> 'r mbox_scheme" where
  "mailbox_reset t =
     t\<lparr>mailbox_head := 0, mailbox_count := 0,
       mailbox_len := fold (\<lambda>k f. f(k := 0)) [0..<MAILBOX_QUEUE_SIZE] (mailbox_len t),
       mailbox_sender := fold (\<lambda>k f. f(k := -1)) [0..<MAILBOX_QUEUE_SIZE] (mailbox_sender t)\<rparr>"

text \<open>The copy loop of \<open>ipc_send\<close>: \<open>n\<close> bytes from address \<open>src\<close> into a slot.\<close>

definition copy_in :: "mem \<Rightarrow> u32 \<Rightarrow> nat \<Rightarrow> (nat \<Rightarrow> u8) \<Rightarrow> (nat \<Rightarrow> u8)" where
  "copy_in m src n slot = fold (\<lambda>k b. b(k := m (src + of_nat k))) [0..<n] slot"

text \<open>\<open>ipc_send\<close> once the target is known: false for a full queue.\<close>

definition mailbox_put :: "mem \<Rightarrow> u32 \<Rightarrow> u32 \<Rightarrow> int \<Rightarrow> 'r mbox_scheme \<Rightarrow> bool \<times> 'r mbox_scheme" where
  "mailbox_put m data len sender t =
     (if mailbox_count t \<ge> MAILBOX_QUEUE_SIZE then (False, t)
      else
        let len = (if len > 128 then 128 else len);
            slot = (mailbox_head t + mailbox_count t) mod MAILBOX_QUEUE_SIZE
        in (True,
            t\<lparr>mailbox := (mailbox t)(slot := copy_in m data (unat len) (mailbox t slot)),
              mailbox_len := (mailbox_len t)(slot := len),
              mailbox_sender := (mailbox_sender t)(slot := sender),
              mailbox_count := mailbox_count t + 1\<rparr>))"

text \<open>\<open>ipc_recv\<close>: the bytes, their number and the sender of the oldest message.\<close>

definition mailbox_get :: "'r mbox_scheme \<Rightarrow> (u8 list \<times> u32 \<times> int) option \<times> 'r mbox_scheme" where
  "mailbox_get t =
     (if mailbox_count t = 0 then (None, t)
      else
        let slot = mailbox_head t; len = mailbox_len t slot
        in (Some (map (mailbox t slot) [0..<unat len], len, mailbox_sender t slot),
            t\<lparr>mailbox_head := (mailbox_head t + 1) mod MAILBOX_QUEUE_SIZE,
              mailbox_count := mailbox_count t - 1\<rparr>))"

subsection \<open>The mailbox as a bounded queue\<close>

definition mbox_ok :: "'r mbox_scheme \<Rightarrow> bool" where
  "mbox_ok t \<longleftrightarrow> mailbox_head t < 4 \<and> mailbox_count t \<le> 4 \<and> (\<forall>k. mailbox_len t k \<le> 128 \<or> 4 \<le> k)"

definition mbox_slot :: "'r mbox_scheme \<Rightarrow> nat \<Rightarrow> u8 list \<times> u32 \<times> int" where
  "mbox_slot t k = (map (mailbox t k) [0..<unat (mailbox_len t k)], mailbox_len t k, mailbox_sender t k)"

definition mbox_items :: "'r mbox_scheme \<Rightarrow> (u8 list \<times> u32 \<times> int) list" where
  "mbox_items t = ring_list (mbox_slot t) 4 (mailbox_head t) (mailbox_count t)"

type_synonym request = "mem \<times> u32 \<times> u32 \<times> int"

text \<open>What a send delivers: the first 128 bytes at most, their number, and the sender.\<close>

definition delivered :: "request \<Rightarrow> u8 list \<times> u32 \<times> int" where
  "delivered r = (case r of (m, data, len, sender) \<Rightarrow>
     (mem_read m data (min 128 (unat len)), min 128 len, sender))"

definition put_request :: "request \<Rightarrow> 'r mbox_scheme \<Rightarrow> bool \<times> 'r mbox_scheme" where
  "put_request r t = (case r of (m, data, len, sender) \<Rightarrow> mailbox_put m data len sender t)"

lemma mbox_reset_ok: "mbox_ok (mailbox_reset t)" and mbox_reset_items: "mbox_items (mailbox_reset t) = []"
  by (auto simp: mbox_ok_def mailbox_reset_def mbox_items_def fold_upd)

lemma length_mbox_items: "length (mbox_items t) = mailbox_count t"
  by (simp add: mbox_items_def)

lemma copy_in_closed: "copy_in m a n b = (\<lambda>k. if k < n then m (a + of_nat k) else b k)"
  by (simp add: copy_in_def fold_upd)

lemma put_request_items:
  assumes "mbox_ok t" "mailbox_count t < 4"
  shows "fst (put_request r t) \<and> mbox_ok (snd (put_request r t)) \<and>
    mbox_items (snd (put_request r t)) = mbox_items t @ [delivered r]"
proof -
  obtain m data len sender where r: "r = (m, data, len, sender)" by (cases r)
  define len' where "len' = (if len > 128 then 128 else len)"
  have l: "len' = min 128 len" by (auto simp: len'_def min_def)
  have u: "unat len' = min 128 (unat len)" by (auto simp: len'_def min_def word_less_nat_alt)
  let ?h = "mailbox_head t" and ?c = "mailbox_count t"
  let ?slot = "(?h + ?c) mod 4"
  let ?t = "t\<lparr>mailbox := (mailbox t)(?slot := copy_in m data (unat len') (mailbox t ?slot)),
    mailbox_len := (mailbox_len t)(?slot := len'), mailbox_sender := (mailbox_sender t)(?slot := sender),
    mailbox_count := ?c + 1\<rparr>"
  have p: "put_request r t = (True, ?t)"
    using assms(2) by (simp add: r put_request_def mailbox_put_def Let_def len'_def)
  have "mbox_slot ?t ((?h + j) mod 4) = mbox_slot t ((?h + j) mod 4)" if "j < ?c" for j
    using ring_slots_distinct [of j ?c 4 ?h] that assms(2) by (simp add: mbox_slot_def)
  moreover have "mbox_slot ?t ?slot = delivered r"
    by (simp add: mbox_slot_def delivered_def r copy_in_closed mem_read_def l [symmetric] u)
  ultimately have "mbox_items ?t = mbox_items t @ [delivered r]"
    using ring_list_push [of ?c 4 "mbox_slot ?t" ?h "mbox_slot t" "delivered r"] assms(2)
    by (simp add: mbox_items_def)
  moreover have "mbox_ok ?t" using assms l by (auto simp: mbox_ok_def)
  ultimately show ?thesis by (simp add: p)
qed

interpretation mq: bounded_fifo mbox_ok mbox_items 4 delivered put_request mailbox_get
proof
  fix t t' :: "'r mbox_scheme" and r ok v y ys
  show "put_request r t = (ok, t') \<Longrightarrow> ok \<and> mbox_items t' = mbox_items t @ [delivered r]"
    if "mbox_ok t" "length (mbox_items t) < 4"
    using put_request_items [of t r] that by (simp add: length_mbox_items)
  show full: "put_request r t = (False, t)" if "mbox_ok t" "\<not> length (mbox_items t) < 4"
    using that by (auto simp: length_mbox_items put_request_def mailbox_put_def split: prod.splits)
  show "mbox_ok t'" if "mbox_ok t" "put_request r t = (ok, t')"
    using put_request_items [of t r] that full by (cases "mailbox_count t < 4") (auto simp: length_mbox_items)
  show "mailbox_get t = (None, t)" if "mbox_ok t" "mbox_items t = []"
    using that by (simp add: mailbox_get_def flip: length_mbox_items)
  show "v = Some y \<and> mbox_items t' = ys"
    if asm: "mbox_ok t" "mbox_items t = y # ys" "mailbox_get t = (v, t')"
  proof -
    obtain c where c: "mailbox_count t = Suc c"
      using asm(2) length_mbox_items [of t] by (cases "mailbox_count t") auto
    have h: "mailbox_head t mod 4 = mailbox_head t" using asm(1) by (simp add: mbox_ok_def)
    have "y # ys = mbox_slot t (mailbox_head t) # ring_list (mbox_slot t) 4 (Suc (mailbox_head t) mod 4) c"
      using asm(2) ring_list_pop [of "mbox_slot t" 4 "mailbox_head t" c] c h by (simp add: mbox_items_def)
    with asm(3) c show ?thesis
      by (auto simp: mailbox_get_def Let_def mbox_items_def mbox_slot_def ring_list_def)
  qed
  show "mbox_ok t'" if "mbox_ok t" "mailbox_get t = (v, t')"
    using that by (auto simp: mailbox_get_def Let_def mbox_ok_def split: if_splits)
qed

text \<open>
  C14. A mailbox is a reliable bounded queue: over any sequence of sends and receives,
  the messages that come out, followed by those still queued, are those queued at the start
  followed by the accepted ones, in order, each cut at 128 bytes; never more than four are queued,
  and a send is refused only when four are.
\<close>

theorem mailbox_fifo:
  assumes "mbox_ok t" "fifo_run put_request mailbox_get ops t = (t', accepted, received)"
  shows "mbox_ok t' \<and> mbox_items t @ map delivered accepted = received @ mbox_items t' \<and>
    length (mbox_items t') \<le> 4 \<and> (\<forall>r. fst (put_request r t') \<longleftrightarrow> length (mbox_items t') < 4)"
proof -
  have r: "mbox_ok t'" "mbox_items t @ map delivered accepted = received @ mbox_items t'"
    using mq.run_order [OF assms] by simp_all
  have "fst (put_request r t') \<longleftrightarrow> length (mbox_items t') < 4" for r
    using mq.put_cases(2) [OF r(1), of r] by (metis prod.collapse)
  with r show ?thesis by (auto simp: length_mbox_items mbox_ok_def)
qed

definition empty_mbox :: mbox where
  "empty_mbox = \<lparr>mailbox = (\<lambda>_ _. 0), mailbox_len = (\<lambda>_. 0), mailbox_sender = (\<lambda>_. -1), mailbox_head = 0,
     mailbox_count = 0\<rparr>"

theorem mailbox_fifo_witness:
  "\<exists>t'. fifo_run put_request mailbox_get [Put (\<lambda>_. 7, 0, 2, 3), Get] empty_mbox =
      (t', [(\<lambda>_. 7, 0, 2, 3)], [([7, 7], 2, 3)]) \<and> mbox_items t' = []"
proof -
  let ?ops = "[Put (\<lambda>_. 7, 0, 2, 3), Get] :: request fifo_op list"
  obtain t' acc got where r: "fifo_run put_request mailbox_get ?ops empty_mbox = (t', acc, got)"
    by (cases "fifo_run put_request mailbox_get ?ops empty_mbox")
  then have "acc = [(\<lambda>_. 7, 0, 2, 3)]" "got = [([7, 7], 2, 3)]"
    by (auto simp: put_request_def mailbox_put_def mailbox_get_def empty_mbox_def copy_in_def upt_rec Let_def)
  moreover have "mbox_ok empty_mbox" "mbox_items empty_mbox = []"
    by (simp_all add: mbox_ok_def mbox_items_def empty_mbox_def)
  ultimately show ?thesis using mailbox_fifo [OF _ r] r
    by (simp add: delivered_def mem_read_def upt_rec)
qed

end
