(* ===== verification/Sched.thy ===== *)
theory Sched
  imports Mem Pit Paging Screen Mailbox
begin

text \<open>
  The scheduler, \<open>kernel/sched.c\<close>: the task table, election, context switch, creation and termination
  of tasks, sleeping, and IPC. The operations act on the whole kernel state that \<open>sched.c\<close> touches:
  byte memory (heap and stacks), timer, TSS, address spaces and console.
\<close>

subsection \<open>State\<close>

text \<open>\<open>Task\<close>; its mailbox fields come from the record of theory Mailbox. \<open>name\<close> is a pointer.\<close>

record task = mbox +
  esp :: u32
  stack_base :: u32
  active :: bool
  tname :: u32
  sleeping :: bool
  wake_tick :: u32
  addr_space :: int
  priority :: int

abbreviation MAX_TASKS :: nat where "MAX_TASKS \<equiv> 16"
abbreviation TASK_STACK_SIZE :: u32 where "TASK_STACK_SIZE \<equiv> 4096"
abbreviation SEL_USER_CODE :: u32 where "SEL_USER_CODE \<equiv> 0x1B"
abbreviation SEL_USER_DATA :: u32 where "SEL_USER_DATA \<equiv> 0x23"

record kernel =
  kmem :: mem
  heap_start :: u32
  kpit :: pit
  kgdt :: gdt_state
  kpaging :: paging
  kscreen :: screen
  tasks :: "nat \<Rightarrow> task"
  current_task :: nat
  multitasking_enabled :: bool
  task_count :: nat

text \<open>An operation returns, stops the machine for good (\<open>cli; hlt\<close> in a loop), or never ends.\<close>

datatype 'a outcome = Ret 'a kernel | Halt kernel | Diverge

definition upd_task :: "nat \<Rightarrow> (task \<Rightarrow> task) \<Rightarrow> kernel \<Rightarrow> kernel" where
  "upd_task i f k = k\<lparr>tasks := (tasks k)(i := f (tasks k i))\<rparr>"

abbreviation cur :: "kernel \<Rightarrow> task" where
  "cur k \<equiv> tasks k (current_task k)"

subsection \<open>Election\<close>

text \<open>One turn of the first loop of \<open>find_next_task\<close>; the state is the task table, \<open>next_task\<close> and
  \<open>best_priority\<close>.\<close>

definition visit :: "u32 \<Rightarrow> nat \<Rightarrow> (nat \<Rightarrow> task) \<times> int \<times> int \<Rightarrow> (nat \<Rightarrow> task) \<times> int \<times> int" where
  "visit now candidate st =
     (let (ts, next_task, best_priority) = st; t = ts candidate in
      if \<not> active t then st
      else if sleeping t \<and> \<not> now \<ge> wake_tick t then st
      else
        let ts = (if sleeping t then ts(candidate := t\<lparr>sleeping := False\<rparr>) else ts)
        in if priority t > best_priority then (ts, int candidate, priority t)
           else (ts, next_task, best_priority))"

definition candidates :: "nat \<Rightarrow> nat list" where
  "candidates c = map (\<lambda>i. (c + i) mod MAX_TASKS) [1..<MAX_TASKS + 1]"

definition find_next_task :: "kernel \<Rightarrow> int \<times> kernel" where
  "find_next_task k =
     (let (ts, next_task, best) =
            fold (visit (get_ticks (kpit k))) (candidates (current_task k)) (tasks k, -1, -1);
          k' = k\<lparr>tasks := ts\<rparr>
      in if next_task < 0
         then (case find (\<lambda>i. active (ts i)) [0..<MAX_TASKS] of
                 None \<Rightarrow> (next_task, k')
               | Some i \<Rightarrow> (int i, k'))
         else (next_task, k'))"

definition schedule :: "layout \<Rightarrow> u32 \<Rightarrow> kernel \<Rightarrow> u32 outcome" where
  "schedule L last_esp k =
     (let k = k\<lparr>kpit := timer_tick (kpit k)\<rparr> in
      if \<not> multitasking_enabled k then Ret last_esp k
      else
        let k = upd_task (current_task k) (\<lambda>t. t\<lparr>esp := last_esp\<rparr>) k;
            (next_task, k) = find_next_task k
        in if next_task < 0 then Halt k
           else
             let k = k\<lparr>current_task := nat next_task\<rparr>;
                 k = k\<lparr>kgdt := tss_set_kernel_stack (stack_base (cur k) + TASK_STACK_SIZE) (kgdt k)\<rparr>;
                 k = k\<lparr>kpaging := paging_switch_directory
                       (if addr_space (cur k) \<ge> 0 then paging_task_directory_phys L (addr_space (cur k))
                        else paging_kernel_directory_phys L) (kpaging k)\<rparr>
             in Ret (esp (cur k)) k)"

subsection \<open>Termination and sleep\<close>

text \<open>The block that \<open>task_exit_current\<close>, \<open>task_exit_and_reschedule\<close> and \<open>task_kill\<close> share: mark the
  task dead, give back its kernel stack and its address space.\<close>

definition end_task :: "nat \<Rightarrow> kernel \<Rightarrow> kernel" where
  "end_task pid k =
     (let k = upd_task pid (\<lambda>t. t\<lparr>active := False, sleeping := False\<rparr>) k;
          k = (if task_count k > 0 then k\<lparr>task_count := task_count k - 1\<rparr> else k);
          k = (if stack_base (tasks k pid) \<noteq> 0
               then upd_task pid (\<lambda>t. t\<lparr>stack_base := 0\<rparr>)
                      (k\<lparr>kmem := kfree (stack_base (tasks k pid)) (kmem k)\<rparr>)
               else k)
      in if addr_space (tasks k pid) \<ge> 0
         then upd_task pid (\<lambda>t. t\<lparr>addr_space := -1\<rparr>)
                (k\<lparr>kpaging := paging_free_task_directory (addr_space (tasks k pid)) (kpaging k)\<rparr>)
         else k)"

text \<open>\<open>task_exit_current\<close> up to its final \<open>hlt\<close> loop, which the task never leaves.\<close>

definition task_exit_current :: "kernel \<Rightarrow> kernel" where
  "task_exit_current k = (if active (cur k) then end_task (current_task k) k else k)"

definition task_exit :: "kernel \<Rightarrow> kernel" where
  "task_exit k = task_exit_current k"

definition task_exit_and_reschedule :: "layout \<Rightarrow> u32 \<Rightarrow> kernel \<Rightarrow> u32 outcome" where
  "task_exit_and_reschedule L current_esp k =
     (let k = (if active (cur k) then end_task (current_task k) k else k) in
      if task_count k = 0
      then Halt (k\<lparr>kscreen := kprint
             (lit ''Toutes les taches sont terminees. Arret du systeme.'' @ [10]) (kscreen k)\<rparr>)
      else schedule L current_esp k)"

definition ticks_to_wait :: "u32 \<Rightarrow> pit \<Rightarrow> u32" where
  "ticks_to_wait ms p =
     (let n = (ms * pit_get_frequency p) div 1000 in if n = 0 then 1 else n)"

definition set_sleep :: "u32 \<Rightarrow> kernel \<Rightarrow> kernel" where
  "set_sleep ms k =
     upd_task (current_task k)
       (\<lambda>t. t\<lparr>wake_tick := get_ticks (kpit k) + ticks_to_wait ms (kpit k), sleeping := True\<rparr>) k"

text \<open>\<open>task_sleep\<close> up to its wait loop; the loop is left once \<open>task_sleep_over\<close> holds.\<close>

definition task_sleep :: "u32 \<Rightarrow> kernel \<Rightarrow> kernel" where
  "task_sleep ms k = set_sleep ms k"

definition task_sleep_over :: "nat \<Rightarrow> kernel \<Rightarrow> bool" where
  "task_sleep_over pid k \<longleftrightarrow> \<not> sleeping (tasks k pid)"

definition task_sleep_and_reschedule :: "layout \<Rightarrow> u32 \<Rightarrow> u32 \<Rightarrow> kernel \<Rightarrow> u32 outcome" where
  "task_sleep_and_reschedule L ms current_esp k = schedule L current_esp (set_sleep ms k)"

subsection \<open>Creation\<close>

text \<open>\<open>*(--stack) = w\<close> for each word in turn: the memory and the final stack pointer.\<close>

fun push_words :: "u32 list \<Rightarrow> mem \<Rightarrow> u32 \<Rightarrow> mem \<times> u32" where
  "push_words [] m sp = (m, sp)"
| "push_words (w # ws) m sp = push_words ws (wr32 m (sp - 4) w) (sp - 4)"

definition free_slot :: "kernel \<Rightarrow> nat option" where
  "free_slot k = find (\<lambda>i. \<not> active (tasks k i)) [0..<MAX_TASKS]"

text \<open>The end of both creation functions: push the initial frame and fill in the task.\<close>

definition start_task :: "nat \<Rightarrow> u32 \<Rightarrow> u32 list \<Rightarrow> u32 \<Rightarrow> int \<Rightarrow> kernel \<Rightarrow> kernel" where
  "start_task i stack_address frame name space k =
     (let (m, sp) = push_words frame (kmem k) (stack_address + TASK_STACK_SIZE);
          k = k\<lparr>kmem := m\<rparr>;
          k = upd_task i (\<lambda>t. mailbox_reset
                (t\<lparr>stack_base := stack_address + TASK_STACK_SIZE - TASK_STACK_SIZE,
                   sleeping := False, wake_tick := 0, esp := sp, active := True, tname := name,
                   addr_space := space, priority := 0\<rparr>)) k
      in k\<lparr>task_count := task_count k + 1\<rparr>)"

definition kernel_frame :: "layout \<Rightarrow> u32 \<Rightarrow> u32 list" where
  "kernel_frame L entry = [task_exit_at L, 0x202, 0x08, entry] @ replicate 8 0"

definition user_frame :: "u32 \<Rightarrow> u32 \<Rightarrow> u32 \<Rightarrow> u32 \<Rightarrow> u32 list" where
  "user_frame entry user_stack_top init_ebx init_ecx =
     [SEL_USER_DATA, user_stack_top, 0x202, SEL_USER_CODE, entry,
      0, init_ecx, 0, init_ebx, 0, 0, 0, 0]"

definition create_task :: "layout \<Rightarrow> u32 \<Rightarrow> u32 \<Rightarrow> kernel \<Rightarrow> int outcome" where
  "create_task L entry name k =
     (if task_count k \<ge> MAX_TASKS then Ret (-1) k
      else case free_slot k of
        None \<Rightarrow> Ret (-1) k
      | Some i \<Rightarrow>
          (case kmalloc (heap_start k) TASK_STACK_SIZE (kmem k) of
             None \<Rightarrow> Diverge
           | Some (stack_address, m) \<Rightarrow>
               (let k = k\<lparr>kmem := m\<rparr> in
                if stack_address = 0 then Ret (-1) k
                else Ret (int i) (start_task i stack_address (kernel_frame L entry) name (-1) k))))"

definition create_user_task_argv ::
    "layout \<Rightarrow> u32 \<Rightarrow> u32 \<Rightarrow> u32 \<Rightarrow> u32 \<Rightarrow> u32 \<Rightarrow> u32 \<Rightarrow> u32 \<Rightarrow> u32 \<Rightarrow> kernel \<Rightarrow> int outcome" where
  "create_user_task_argv L entry name user_stack_top user_stack_size code_base code_size init_ebx init_ecx k =
     (if task_count k \<ge> MAX_TASKS then Ret (-1) k
      else case free_slot k of
        None \<Rightarrow> Ret (-1) k
      | Some i \<Rightarrow>
          (case kmalloc (heap_start k) TASK_STACK_SIZE (kmem k) of
             None \<Rightarrow> Diverge
           | Some (stack_address, m) \<Rightarrow>
               (let k = k\<lparr>kmem := m\<rparr> in
                if stack_address = 0 then Ret (-1) k
                else
                  let (space, p) = paging_create_task_directory_ex L code_base code_size
                        (user_stack_top - user_stack_size) user_stack_size (kpaging k);
                      k = k\<lparr>kpaging := p\<rparr>
                  in if space < 0 then Ret (-1) (k\<lparr>kmem := kfree stack_address (kmem k)\<rparr>)
                     else Ret (int i) (start_task i stack_address
                            (user_frame entry user_stack_top init_ebx init_ecx) name space k))))"

definition create_user_task_ex ::
    "layout \<Rightarrow> u32 \<Rightarrow> u32 \<Rightarrow> u32 \<Rightarrow> u32 \<Rightarrow> u32 \<Rightarrow> u32 \<Rightarrow> kernel \<Rightarrow> int outcome" where
  "create_user_task_ex L entry name user_stack_top user_stack_size code_base code_size k =
     create_user_task_argv L entry name user_stack_top user_stack_size code_base code_size 0 0 k"

definition create_user_task :: "layout \<Rightarrow> u32 \<Rightarrow> u32 \<Rightarrow> u32 \<Rightarrow> u32 \<Rightarrow> kernel \<Rightarrow> int outcome" where
  "create_user_task L entry name user_stack_top user_stack_size k =
     create_user_task_ex L entry name user_stack_top user_stack_size 0 0 k"

definition init_task :: "task \<Rightarrow> task" where
  "init_task t = mailbox_reset
     (t\<lparr>active := False, sleeping := False, wake_tick := 0, addr_space := -1, priority := 0\<rparr>)"

definition init_multitasking :: "layout \<Rightarrow> kernel \<Rightarrow> kernel" where
  "init_multitasking L k =
     (let ts = fold (\<lambda>i ts. ts(i := init_task (ts i))) [0..<MAX_TASKS] (tasks k);
          k = upd_task 0 (\<lambda>t. t\<lparr>tname := shell_name_at L, active := True, priority := 0\<rparr>) (k\<lparr>tasks := ts\<rparr>)
      in k\<lparr>task_count := 1, current_task := 0, multitasking_enabled := True\<rparr>)"

subsection \<open>Queries, kill, priority\<close>

definition valid_pid :: "int \<Rightarrow> kernel \<Rightarrow> bool" where
  "valid_pid pid k \<longleftrightarrow> \<not> (pid < 0 \<or> pid \<ge> int MAX_TASKS) \<and> active (tasks k (nat pid))"

definition task_is_active :: "int \<Rightarrow> kernel \<Rightarrow> bool" where
  "task_is_active pid k =
     (if pid < 0 \<or> pid \<ge> int MAX_TASKS then False else active (tasks k (nat pid)))"

definition sched_current_pid :: "kernel \<Rightarrow> int" where
  "sched_current_pid k = int (current_task k)"

definition task_kill :: "int \<Rightarrow> kernel \<Rightarrow> bool \<times> kernel" where
  "task_kill pid k =
     (if \<not> valid_pid pid k then (False, k)
      else if pid = int (current_task k) then (False, k)
      else (True, upd_task (nat pid) mailbox_reset (end_task (nat pid) k)))"

definition task_set_priority :: "int \<Rightarrow> int \<Rightarrow> kernel \<Rightarrow> kernel" where
  "task_set_priority pid prio k =
     (if \<not> valid_pid pid k then k else upd_task (nat pid) (\<lambda>t. t\<lparr>priority := prio\<rparr>) k)"

text \<open>The lines of the \<open>ps\<close> command; \<open>None\<close> when a task name is not a C string.\<close>

definition dump_task :: "kernel \<Rightarrow> nat \<Rightarrow> screen option \<Rightarrow> screen option" where
  "dump_task k i acc =
     (case acc of None \<Rightarrow> None
      | Some s \<Rightarrow>
          if \<not> active (tasks k i) then Some s
          else
            let s = kprint (lit ''    '') (kprint_dec (of_nat i) s) in
            (case (if tname (tasks k i) \<noteq> 0 then kprint_ptr (kmem k) (tname (tasks k i)) s
                   else Some (kprint (lit ''?'') s)) of
               None \<Rightarrow> None
             | Some s \<Rightarrow>
                 let s = kprint (lit ''            '') s;
                     s = (if i = current_task k then kprint (lit ''en cours  '') s
                          else if sleeping (tasks k i) then kprint (lit ''sommeil   '') s
                          else kprint (lit ''prete     '') s);
                     s = (if addr_space (tasks k i) \<ge> 0 then kprint (lit ''isole (ring3)'') s
                          else kprint (lit ''noyau partage'') s)
                 in Some (kprint [10] s)))"

definition sched_dump_tasks :: "kernel \<Rightarrow> screen option" where
  "sched_dump_tasks k =
     fold (dump_task k) [0..<MAX_TASKS]
       (Some (kprint (lit ''PID  NOM              ETAT       ESPACE'' @ [10]) (kscreen k)))"

subsection \<open>IPC\<close>

text \<open>1 sent, 0 mailbox full, -1 no such task.\<close>

definition ipc_send :: "int \<Rightarrow> u32 \<Rightarrow> u32 \<Rightarrow> kernel \<Rightarrow> int \<times> kernel" where
  "ipc_send target_pid data len k =
     (if \<not> valid_pid target_pid k then (-1, k)
      else
        let (ok, t) = mailbox_put (kmem k) data len (int (current_task k)) (tasks k (nat target_pid))
        in (if ok then 1 else 0, upd_task (nat target_pid) (\<lambda>_. t) k))"

text \<open>\<open>ipc_recv\<close> up to its out-parameters: the message is copied to \<open>out\<close> and removed from the queue;
  the result is its length and sender, or nothing for an empty mailbox.\<close>

definition ipc_recv_msg :: "u32 \<Rightarrow> kernel \<Rightarrow> (u32 \<times> int) option \<times> kernel" where
  "ipc_recv_msg out k =
     (case mailbox_get (cur k) of
        (None, _) \<Rightarrow> (None, k)
      | (Some (bytes, len, sender), t) \<Rightarrow>
          (Some (len, sender), upd_task (current_task k) (\<lambda>_. t) (k\<lparr>kmem := mem_write (kmem k) out bytes\<rparr>)))"

text \<open>With the optional out-parameters in memory: 1, or 0 for an empty mailbox.\<close>

definition ipc_recv :: "u32 \<Rightarrow> u32 \<Rightarrow> u32 \<Rightarrow> kernel \<Rightarrow> int \<times> kernel" where
  "ipc_recv out out_len out_sender k =
     (case ipc_recv_msg out k of
        (None, k) \<Rightarrow> (0, k)
      | (Some (len, sender), k) \<Rightarrow>
          (let m = kmem k;
               m = (if out_len \<noteq> 0 then wr32 m out_len len else m);
               m = (if out_sender \<noteq> 0 then wr32 m out_sender (word_of_int sender) else m)
           in (1, k\<lparr>kmem := m\<rparr>)))"

subsection \<open>The kernel at the start of multitasking\<close>

text \<open>The statics of \<open>sched.c\<close> are zero, as \<open>main_entry\<close> leaves the BSS, and the components that the
  scheduler uses are set up in the order of \<open>main_entry\<close> (\<open>kernel/init.c\<close>).\<close>

definition blank_task :: task where
  "blank_task = \<lparr>mailbox = (\<lambda>_ _. 0), mailbox_len = (\<lambda>_. 0), mailbox_sender = (\<lambda>_. 0), mailbox_head = 0,
     mailbox_count = 0, esp = 0, stack_base = 0, active = False, tname = 0, sleeping = False,
     wake_tick = 0, addr_space = 0, priority = 0\<rparr>"

definition boot_kernel :: "layout \<Rightarrow> mem \<Rightarrow> kernel" where
  "boot_kernel L m =
     init_multitasking L
       \<lparr>kmem = boot_heap m, heap_start = 0x100000, kpit = snd (pit_init 100 \<lparr>ticks = 0, frequency = 100\<rparr>),
        kgdt = gdt_init L blank_gdt, kpaging = paging_init L blank_paging,
        kscreen = clear_screen boot_screen, tasks = (\<lambda>_. blank_task), current_task = 0,
        multitasking_enabled = False, task_count = 0\<rparr>"

lemma fold_map_slots: "fold (\<lambda>i ts. ts(i := f (ts i))) [0..<n] ts = (\<lambda>i. if i < n then f (ts i) else ts i)"
  by (induction n) (auto simp: fun_eq_iff)

lemma boot_kernel_fields [simp]:
  "kmem (boot_kernel L m) = boot_heap m" "heap_start (boot_kernel L m) = 0x100000"
  "current_task (boot_kernel L m) = 0" "multitasking_enabled (boot_kernel L m)"
  "task_count (boot_kernel L m) = 1" "ticks (kpit (boot_kernel L m)) = 0"
  "kpaging (boot_kernel L m) = paging_init L blank_paging"
  by (simp_all add: boot_kernel_def init_multitasking_def upd_task_def pit_init_def Let_def)

lemma boot_kernel_tasks:
  "tasks (boot_kernel L m) i = (if i = 0 then (init_task blank_task)\<lparr>tname := shell_name_at L, active := True\<rparr>
     else if i < 16 then init_task blank_task else blank_task)"
proof -
  have "(init_task blank_task)\<lparr>tname := shell_name_at L, active := True, priority := 0\<rparr> =
      (init_task blank_task)\<lparr>tname := shell_name_at L, active := True\<rparr>"
    by (simp add: init_task_def blank_task_def mailbox_reset_def)
  then show ?thesis
    by (simp add: boot_kernel_def init_multitasking_def upd_task_def fold_map_slots Let_def)
qed

lemma init_blank_task:
  "stack_base (init_task blank_task) = 0" "addr_space (init_task blank_task) = -1"
  "\<not> active (init_task blank_task)" "\<not> sleeping (init_task blank_task)" "priority (init_task blank_task) = 0"
  by (simp_all add: init_task_def blank_task_def mailbox_reset_def)

end
