(* ===== verification/Election.thy ===== *)
theory Election
  imports Sched
begin

text \<open>
  What \<open>find_next_task\<close> and \<open>schedule\<close> of \<open>kernel/sched.c\<close> elect: the specification of the priority
  round-robin policy, the context switch that follows, and the bound on how long a ready task of
  the highest priority waits.
\<close>

subsection \<open>The policy\<close>

definition ready :: "u32 \<Rightarrow> task \<Rightarrow> bool" where
  "ready now t \<longleftrightarrow> active t \<and> (sleeping t \<longrightarrow> wake_tick t \<le> now)"

text \<open>The loop wakes every ready candidate.\<close>

definition woken :: "u32 \<Rightarrow> nat set \<Rightarrow> (nat \<Rightarrow> task) \<Rightarrow> (nat \<Rightarrow> task)" where
  "woken now C ts = (\<lambda>c. if c \<in> C \<and> ready now (ts c) then (ts c)\<lparr>sleeping := False\<rparr> else ts c)"

lemma not_sleeping_same: "\<not> sleeping t \<Longrightarrow> t\<lparr>sleeping := False\<rparr> = t"
  by (cases t) simp

lemma visit_eq:
  "visit now c (ts, n, b) =
    (if ready now (ts c)
     then (ts(c := (ts c)\<lparr>sleeping := False\<rparr>), if priority (ts c) > b then (int c, priority (ts c)) else (n, b))
     else (ts, n, b))"
  by (auto simp: visit_def ready_def Let_def not_sleeping_same)

text \<open>The elected candidate in a list of them: none has a priority of 0 or more, or the first one of
  the highest priority among the ready.\<close>

definition elects :: "(nat \<Rightarrow> bool) \<Rightarrow> (nat \<Rightarrow> int) \<Rightarrow> nat list \<Rightarrow> int \<Rightarrow> int \<Rightarrow> bool" where
  "elects rdy prio cs n b \<longleftrightarrow>
     (n = -1 \<and> b = -1 \<and> (\<forall>c \<in> set cs. rdy c \<longrightarrow> prio c < 0)) \<or>
     (\<exists>us c vs. cs = us @ c # vs \<and> n = int c \<and> b = prio c \<and> 0 \<le> b \<and> rdy c \<and>
        (\<forall>d \<in> set us. rdy d \<longrightarrow> prio d < prio c) \<and> (\<forall>d \<in> set vs. rdy d \<longrightarrow> prio d \<le> prio c))"

lemma elects_snoc:
  assumes "elects rdy prio cs n b"
  shows "elects rdy prio (cs @ [c])
    (if rdy c \<and> prio c > b then int c else n) (if rdy c \<and> prio c > b then prio c else b)"
proof (cases "rdy c \<and> prio c > b")
  case True
  have b: "b \<ge> -1 \<and> (\<forall>d \<in> set cs. rdy d \<longrightarrow> prio d \<le> b)"
    using assms unfolding elects_def
  proof (elim disjE exE conjE, goal_cases)
    case 1
    then have "prio d \<le> b" if "d \<in> set cs" "rdy d" for d using that by fastforce
    then show ?case using 1 by simp
  next
    case (2 us d vs)
    then show ?case by auto
  qed
  then have "0 \<le> prio c" "\<forall>d \<in> set cs. rdy d \<longrightarrow> prio d < prio c" using True by auto
  then show ?thesis using True unfolding elects_def
    by (intro disjI2 exI [of _ cs] exI [of _ c] exI [of _ "[]"]) simp
next
  case False
  from assms show ?thesis unfolding elects_def
  proof (elim disjE exE conjE, goal_cases)
    case 1
    with False show ?case by auto
  next
    case (2 us d vs)
    with False show ?case by (intro disjI2 exI [of _ us] exI [of _ d] exI [of _ "vs @ [c]"]) auto
  qed
qed

lemma visit_fold:
  assumes "distinct cs"
  shows "\<exists>n b. fold (visit now) cs (ts, -1, -1) = (woken now (set cs) ts, n, b) \<and>
    elects (\<lambda>c. ready now (ts c)) (\<lambda>c. priority (ts c)) cs n b"
  using assms
proof (induction cs rule: rev_induct)
  case Nil
  then show ?case by (simp add: woken_def elects_def)
next
  case (snoc c cs)
  then obtain n b where IH: "fold (visit now) cs (ts, -1, -1) = (woken now (set cs) ts, n, b)"
    "elects (\<lambda>c. ready now (ts c)) (\<lambda>c. priority (ts c)) cs n b" by auto
  have c: "woken now (set cs) ts c = ts c" using snoc.prems by (simp add: woken_def)
  have w: "woken now (insert c (set cs)) ts =
      (if ready now (ts c) then (woken now (set cs) ts)(c := (ts c)\<lparr>sleeping := False\<rparr>)
       else woken now (set cs) ts)"
    by (auto simp: woken_def fun_eq_iff)
  show ?case
    using elects_snoc [OF IH(2), of c] by (auto simp: IH(1) visit_eq c w)
qed

subsection \<open>The round\<close>

lemma candidates_slots: "set (candidates c) = {0..<16}"
proof
  show "set (candidates c) \<subseteq> {0..<16}" by (auto simp: candidates_def)
  show "{0..<16} \<subseteq> set (candidates c)"
  proof
    fix x :: nat assume "x \<in> {0..<16}"
    define i where "i = (x + 15 * c + 15) mod 16 + 1"
    have "(c + i) mod 16 = (c + (x + 15 * c + 15) + 1) mod 16"
      unfolding i_def by (metis add.assoc mod_add_left_eq mod_add_right_eq)
    also have "\<dots> = (x + 16 * (c + 1)) mod 16" by (simp add: algebra_simps)
    also have "\<dots> = x" using \<open>x \<in> {0..<16}\<close> by (simp only: mod_mult_self2) simp
    finally have "(c + i) mod 16 = x" .
    moreover have "1 \<le> i \<and> i < 17" by (simp add: i_def)
    ultimately show "x \<in> set (candidates c)" by (force simp: candidates_def)
  qed
qed

lemma length_candidates: "length (candidates c) = 16"
  by (simp add: candidates_def)

lemma distinct_candidates: "distinct (candidates c)"
  using candidates_slots [of c] length_candidates [of c] by (intro card_distinct) simp

lemma nth_candidates: "i < 16 \<Longrightarrow> candidates c ! i = (c + i + 1) mod 16"
  by (simp add: candidates_def del: upt_Suc)

text \<open>How many candidates are looked at before \<open>c\<close>.\<close>

definition turn :: "nat \<Rightarrow> nat \<Rightarrow> nat" where
  "turn from c = (c + 15 - from) mod 16"

lemma turn_candidates:
  assumes "from < 16" "c < 16"
  shows "candidates from ! turn from c = c" "turn from c < 16"
proof -
  show t: "turn from c < 16" by (simp add: turn_def)
  have "(from + (c + 15 - from) mod 16 + 1) mod 16 = (from + (c + 15 - from) + 1) mod 16"
    by (metis mod_add_left_eq mod_add_right_eq)
  also have "\<dots> = (c + 16) mod 16" using assms by simp
  also have "\<dots> = c" using assms by simp
  finally show "candidates from ! turn from c = c" using nth_candidates [OF t] by (simp add: turn_def)
qed

lemma split_turn:
  assumes "candidates from = us @ c # vs" "from < 16"
  shows "c < 16" "turn from c = length us"
    "d \<in> set us \<Longrightarrow> turn from d < turn from c" "d \<in> set vs \<Longrightarrow> turn from c < turn from d"
proof -
  have pos: "d < 16 \<and> turn from d = i" if "i < 16" "(us @ c # vs) ! i = d" for d i
  proof -
    have "d \<in> set (candidates from)" using that length_candidates [of "from"] assms(1) by (metis nth_mem)
    then have d: "d < 16" by (simp add: candidates_slots)
    then show ?thesis
      using turn_candidates [OF assms(2) d] that distinct_candidates [of "from"] length_candidates [of "from"]
        assms(1) by (metis nth_eq_iff_index_eq)
  qed
  have len: "length us + length vs + 1 = 16" using length_candidates [of "from"] assms(1) by simp
  show c: "c < 16" "turn from c = length us" using pos [of "length us" c] len by auto
  show "turn from d < turn from c" if "d \<in> set us"
  proof -
    from that obtain i where "i < length us" "us ! i = d" by (metis in_set_conv_nth)
    then show ?thesis using pos [of i d] len c by (auto simp: nth_append)
  qed
  show "turn from c < turn from d" if "d \<in> set vs"
  proof -
    from that obtain i where "i < length vs" "vs ! i = d" by (metis in_set_conv_nth)
    then show ?thesis using pos [of "length us + 1 + i" d] len c by (auto simp: nth_append)
  qed
qed

subsection \<open>Election\<close>

text \<open>The policy of the comment on \<open>find_next_task\<close>, as the code has it: the ready tasks of
  non-negative priority compete; the highest priority wins, and among equals the one whose turn
  comes first after the current task. If there is none, the first active task is taken.\<close>

definition policy :: "u32 \<Rightarrow> nat \<Rightarrow> (nat \<Rightarrow> task) \<Rightarrow> int \<Rightarrow> bool" where
  "policy now from ts n \<longleftrightarrow>
     (\<exists>c < 16. n = int c \<and> ready now (ts c) \<and> 0 \<le> priority (ts c) \<and>
        (\<forall>d < 16. ready now (ts d) \<longrightarrow> priority (ts d) \<le> priority (ts c) \<and>
           (priority (ts d) = priority (ts c) \<longrightarrow> turn from c \<le> turn from d))) \<or>
     (\<forall>d < 16. ready now (ts d) \<longrightarrow> priority (ts d) < 0) \<and>
       (if \<exists>d < 16. active (ts d) then n = int (LEAST d. d < 16 \<and> active (ts d)) else n = -1)"

lemma active_woken: "active (woken now C ts c) = active (ts c)"
  by (simp add: woken_def)

lemma find_active_least:
  "find (\<lambda>i. P i) [0..<16] =
    (if \<exists>d < 16. P d then Some (LEAST d. d < 16 \<and> P d) else None)" for P :: "nat \<Rightarrow> bool"
proof (cases "find P [0..<16]")
  case None
  then show ?thesis by (auto simp: find_None_iff)
next
  case (Some i)
  then have i: "i < 16" "P i" "\<forall>j < i. \<not> P j" by (auto simp: find_Some_iff)
  then have "(LEAST d. d < 16 \<and> P d) = i" by (intro Least_equality) (auto simp: not_less [symmetric])
  with i Some show ?thesis by auto
qed

lemma find_next_task_spec:
  assumes "current_task k < 16" "find_next_task k = (n, k')"
  shows "k' = k\<lparr>tasks := woken (ticks (kpit k)) {0..<16} (tasks k)\<rparr>"
    and "policy (ticks (kpit k)) (current_task k) (tasks k) n"
proof -
  let ?now = "ticks (kpit k)" and ?ts = "tasks k" and ?from = "current_task k"
  obtain n0 b where f: "fold (visit ?now) (candidates ?from) (?ts, -1, -1) = (woken ?now {0..<16} ?ts, n0, b)"
    and e: "elects (\<lambda>c. ready ?now (?ts c)) (\<lambda>c. priority (?ts c)) (candidates ?from) n0 b"
    using visit_fold [OF distinct_candidates] candidates_slots by metis
  have n: "n = (if n0 < 0 then case find (\<lambda>i. active (?ts i)) [0..<16] of None \<Rightarrow> n0 | Some i \<Rightarrow> int i else n0)"
    and "k' = k\<lparr>tasks := woken ?now {0..<16} ?ts\<rparr>"
    using assms(2) f
    by (simp_all add: find_next_task_def get_ticks_def Let_def active_woken split: option.splits if_splits)
  then show "k' = k\<lparr>tasks := woken ?now {0..<16} ?ts\<rparr>" by simp
  from e show "policy ?now ?from ?ts n"
    unfolding elects_def
  proof (elim disjE exE conjE, goal_cases)
    case 1
    then show ?case using n unfolding policy_def find_active_least
      by (auto simp: candidates_slots)
  next
    case (2 us c vs)
    note sp = split_turn [OF 2(1) assms(1)]
    have "priority (?ts d) \<le> priority (?ts c) \<and>
        (priority (?ts d) = priority (?ts c) \<longrightarrow> turn ?from c \<le> turn ?from d)"
      if "d < 16" "ready ?now (?ts d)" for d
    proof -
      have "d \<in> set (us @ c # vs)" using that(1) 2(1) candidates_slots [of ?from] by auto
      then consider "d \<in> set us" | "d = c" | "d \<in> set vs" by auto
      then show ?thesis using 2 that(2) sp(4) by cases fastforce+
    qed
    moreover have "n = int c" using n 2 by simp
    ultimately show ?case using 2 sp(1) unfolding policy_def by auto
  qed
qed

text \<open>What the election means: an active task, if there is one.\<close>

lemma policy_active:
  assumes "policy now from ts n"
  shows "(n = -1 \<and> (\<forall>d < 16. \<not> active (ts d))) \<or> (\<exists>c < 16. n = int c \<and> active (ts c))"
proof -
  have "(LEAST d. d < 16 \<and> active (ts d)) < 16 \<and> active (ts (LEAST d. d < 16 \<and> active (ts d)))"
    if "\<exists>d < 16. active (ts d)" using that by (rule LeastI_ex)
  then show ?thesis using assms unfolding policy_def ready_def by (auto split: if_splits)
qed

subsection \<open>The context switch\<close>

definition save_context :: "u32 \<Rightarrow> kernel \<Rightarrow> nat \<Rightarrow> task" where
  "save_context e k = (tasks k)(current_task k := (cur k)\<lparr>esp := e\<rparr>)"

lemma policy_save:
  "policy now from (save_context e k) n = policy now from (tasks k) n"
proof -
  have "ready now (save_context e k c) = ready now (tasks k c)"
    "priority (save_context e k c) = priority (tasks k c)"
    "active (save_context e k c) = active (tasks k c)" for c
    by (simp_all add: save_context_def ready_def)
  then show ?thesis by (simp only: policy_def)
qed

definition directory_of :: "layout \<Rightarrow> task \<Rightarrow> u32" where
  "directory_of L t = (if addr_space t \<ge> 0 then paging_task_directory_phys L (addr_space t)
     else paging_kernel_directory_phys L)"

lemma schedule_cases:
  assumes "current_task k < 16" "multitasking_enabled k"
  shows "\<exists>n. policy (ticks (kpit k) + 1) (current_task k) (tasks k) n \<and>
    (let ts = woken (ticks (kpit k) + 1) {0..<16} (save_context last_esp k);
         k1 = k\<lparr>kpit := timer_tick (kpit k), tasks := ts\<rparr>; t = ts (nat n)
     in schedule L last_esp k =
       (if n < 0 then Halt k1
        else Ret (esp t) (k1\<lparr>current_task := nat n,
          kgdt := tss_set_kernel_stack (stack_base t + TASK_STACK_SIZE) (kgdt k),
          kpaging := paging_switch_directory (directory_of L t) (kpaging k)\<rparr>)))"
proof -
  let ?k = "upd_task (current_task k) (\<lambda>t. t\<lparr>esp := last_esp\<rparr>) (k\<lparr>kpit := timer_tick (kpit k)\<rparr>)"
  obtain n k' where f: "find_next_task ?k = (n, k')" by (cases "find_next_task ?k")
  have c: "current_task ?k < 16" using assms(1) by (simp add: upd_task_def)
  have ts: "tasks ?k = save_context last_esp k" "ticks (kpit ?k) = ticks (kpit k) + 1"
    "current_task ?k = current_task k"
    by (simp_all add: upd_task_def save_context_def timer_tick_def)
  note sp = find_next_task_spec [OF c f, unfolded ts policy_save]
  have "k' = k\<lparr>kpit := timer_tick (kpit k), tasks := woken (ticks (kpit k) + 1) {0..<16} (save_context last_esp k)\<rparr>"
    using sp(1) by (simp add: upd_task_def)
  then show ?thesis using sp(2) f assms(2)
    by (intro exI [of _ n]) (simp add: schedule_def Let_def directory_of_def)
qed

lemma schedule_keeps:
  assumes "current_task k < 16" "multitasking_enabled k" "schedule L e k = Ret r k'"
  shows "active (tasks k' d) = active (tasks k d)" "sleeping (tasks k' d) \<Longrightarrow> sleeping (tasks k d)"
proof -
  let ?ts = "woken (ticks (kpit k) + 1) {0..<16} (save_context e k)"
  have "tasks k' = ?ts"
    using schedule_cases [OF assms(1,2), of e L] assms(3) by (auto simp: Let_def split: if_splits)
  then show "active (tasks k' d) = active (tasks k d)" "sleeping (tasks k' d) \<Longrightarrow> sleeping (tasks k d)"
    by (auto simp: woken_def save_context_def split: if_splits)
qed

subsection \<open>Bounded waiting\<close>

text \<open>The task \<open>c\<close> is ready at the next tick and no ready task has a higher priority.\<close>

definition contends :: "nat \<Rightarrow> kernel \<Rightarrow> bool" where
  "contends c k \<longleftrightarrow>
     (let now = ticks (kpit k) + 1 in
      ready now (tasks k c) \<and> 0 \<le> priority (tasks k c) \<and>
      (\<forall>d < 16. ready now (tasks k d) \<longrightarrow> priority (tasks k d) \<le> priority (tasks k c)))"

lemma turn_unfold: "from < 16 \<Longrightarrow> c < 16 \<Longrightarrow> turn from c = (if c \<le> from then c + 15 - from else c - from - 1)"
  by (auto simp: turn_def mod_if)

lemma turn_step:
  "from < 16 \<Longrightarrow> c < 16 \<Longrightarrow> d < 16 \<Longrightarrow> d \<noteq> c \<Longrightarrow> turn from d \<le> turn from c \<Longrightarrow> turn d c < turn from c"
  by (auto simp: turn_unfold split: if_splits)

lemma schedule_progress:
  assumes "current_task k < 16" "multitasking_enabled k" "c < 16" "contends c k"
    "schedule L e k = Ret r k'"
  shows "current_task k' < 16"
    and "current_task k' = c \<or> turn (current_task k') c < turn (current_task k) c"
proof -
  let ?now = "ticks (kpit k) + 1"
  obtain n where n: "policy ?now (current_task k) (tasks k) n" "\<not> n < 0" "current_task k' = nat n"
    using schedule_cases [OF assms(1,2), of e L] assms(5) by (auto simp: Let_def split: if_splits)
  have c: "ready ?now (tasks k c)" "0 \<le> priority (tasks k c)"
    "\<And>d. d < 16 \<Longrightarrow> ready ?now (tasks k d) \<Longrightarrow> priority (tasks k d) \<le> priority (tasks k c)"
    using assms(4) by (auto simp: contends_def Let_def)
  have "\<not> (\<forall>d < 16. ready ?now (tasks k d) \<longrightarrow> priority (tasks k d) < 0)"
    using c(1,2) assms(3) by (metis linorder_not_less)
  with n(1) obtain d where d0: "d < 16" "n = int d" "ready ?now (tasks k d)"
      "\<forall>d' < 16. ready ?now (tasks k d') \<longrightarrow> priority (tasks k d') \<le> priority (tasks k d) \<and>
         (priority (tasks k d') = priority (tasks k d) \<longrightarrow> turn (current_task k) d \<le> turn (current_task k) d')"
    unfolding policy_def by blast
  have d: "d < 16" "n = int d" "ready ?now (tasks k d)"
      "priority (tasks k c) \<le> priority (tasks k d)"
      "priority (tasks k c) = priority (tasks k d) \<longrightarrow> turn (current_task k) d \<le> turn (current_task k) c"
    using d0 assms(3) c(1) by simp_all
  have "turn (current_task k) d \<le> turn (current_task k) c" using d(4,5) c(3) [OF d(1,3)] by simp
  then show "current_task k' < 16" "current_task k' = c \<or> turn (current_task k') c < turn (current_task k) c"
    using turn_step [OF assms(1,3) d(1)] d n(3) by auto
qed

text \<open>A run of the scheduler as task \<open>c\<close> sees it: from each state the scheduler is entered (by a tick
  or a system call), and before it is entered again anything may happen that leaves the current
  task current and \<open>c\<close> a contender.\<close>

definition waits :: "layout \<Rightarrow> nat \<Rightarrow> (nat \<Rightarrow> kernel) \<Rightarrow> nat \<Rightarrow> bool" where
  "waits L c ks n \<longleftrightarrow>
     (\<forall>i < n. multitasking_enabled (ks i) \<and> contends c (ks i) \<and>
        (\<exists>e r k'. schedule L e (ks i) = Ret r k' \<and> current_task (ks (Suc i)) = current_task k'))"

lemma waits_turn:
  assumes "waits L c ks n" "current_task (ks 0) < 16" "c < 16"
  shows "(\<exists>i. 1 \<le> i \<and> i \<le> n \<and> current_task (ks i) = c) \<or>
    (current_task (ks n) < 16 \<and> turn (current_task (ks n)) c + n \<le> turn (current_task (ks 0)) c)"
  using assms(1)
proof (induction n)
  case 0
  then show ?case using assms(2) by simp
next
  case (Suc n)
  then have w: "waits L c ks n" by (simp add: waits_def)
  from Suc.IH [OF w] show ?case
  proof (elim disjE exE conjE)
    fix i assume "1 \<le> i" "i \<le> n" "current_task (ks i) = c"
    then show ?thesis by (metis le_SucI)
  next
    assume t: "current_task (ks n) < 16" "turn (current_task (ks n)) c + n \<le> turn (current_task (ks 0)) c"
    from Suc.prems obtain e r k' where s: "multitasking_enabled (ks n)" "contends c (ks n)"
      "schedule L e (ks n) = Ret r k'" "current_task (ks (Suc n)) = current_task k'"
      unfolding waits_def by blast
    note p = schedule_progress [OF t(1) s(1) assms(3) s(2,3), folded s(4)]
    show ?thesis
    proof (cases "current_task (ks (Suc n)) = c")
      case True
      then show ?thesis by (intro disjI1 exI [of _ "Suc n"]) simp
    qed (use p t(2) in simp)
  qed
qed

subsection \<open>Properties\<close>

text \<open>
  C7. \<open>find_next_task\<close> implements the priority round-robin policy. It wakes
  exactly the sleepers whose wake-up tick has come, changes nothing else, and returns the ready
  task of highest non-negative priority whose turn comes first after the current one; when no
  such task exists, the first active task; and -1 only when no task is active.
\<close>

theorem find_next_task_policy:
  assumes "current_task k < 16" "find_next_task k = (n, k')"
  shows "k' = k\<lparr>tasks := woken (ticks (kpit k)) {0..<16} (tasks k)\<rparr> \<and>
    policy (ticks (kpit k)) (current_task k) (tasks k) n \<and>
    (n = -1 \<longleftrightarrow> (\<forall>d < 16. \<not> active (tasks k d)))"
proof -
  note sp = find_next_task_spec [OF assms]
  have "n = -1 \<longleftrightarrow> (\<forall>d < 16. \<not> active (tasks k d))" using policy_active [OF sp(2)] by auto
  with sp show ?thesis by blast
qed

lemma boot_active: "i < 16 \<Longrightarrow> active (tasks (boot_kernel L m) i) \<longleftrightarrow> i = 0"
  by (simp add: boot_kernel_tasks init_blank_task)

lemma boot_some_active: "\<exists>d < 16. active (tasks (boot_kernel L m) d)"
  using boot_active [of 0] by (intro exI [of _ 0]) simp

lemma boot_elects: "policy now from (tasks (boot_kernel L m)) n \<Longrightarrow> n = 0"
  using policy_active [of now "from" "tasks (boot_kernel L m)" n] boot_some_active [of L m] boot_active [of _ L m]
  by auto

theorem find_next_task_policy_witness:
  "\<exists>n k'. find_next_task (boot_kernel example_layout (\<lambda>_. 0)) = (n, k') \<and> n \<noteq> -1"
proof -
  let ?k = "boot_kernel example_layout (\<lambda>_. 0)"
  obtain n k' where f: "find_next_task ?k = (n, k')" by (cases "find_next_task ?k")
  have "n \<noteq> -1" using find_next_task_policy [OF _ f] boot_some_active by auto
  with f show ?thesis by blast
qed

lemma schedule_elects:
  assumes "current_task k < 16" "multitasking_enabled k" "\<exists>d < 16. active (tasks k d)"
  shows "\<exists>c k'. c < 16 \<and> schedule L last_esp k = Ret (esp (tasks k' c)) k' \<and> current_task k' = c \<and>
    active (tasks k' c) \<and> policy (ticks (kpit k) + 1) (current_task k) (tasks k) (int c) \<and>
    (\<forall>d. esp (tasks k' d) = (if d = current_task k then last_esp else esp (tasks k d))) \<and>
    esp0 (tss (kgdt k')) = stack_base (tasks k c) + 4096 \<and>
    cr3 (kpaging k') = (if addr_space (tasks k c) < 0 then page_directory_at L
      else paging_task_directory_phys L (addr_space (tasks k c))) \<and>
    ticks (kpit k') = ticks (kpit k) + 1 \<and> kmem k' = kmem k"
proof -
  let ?ts = "woken (ticks (kpit k) + 1) {0..<16} (save_context last_esp k)"
  obtain n where n: "policy (ticks (kpit k) + 1) (current_task k) (tasks k) n"
    "schedule L last_esp k =
       (if n < 0 then Halt (k\<lparr>kpit := timer_tick (kpit k), tasks := ?ts\<rparr>)
        else Ret (esp (?ts (nat n))) (k\<lparr>kpit := timer_tick (kpit k), tasks := ?ts, current_task := nat n,
          kgdt := tss_set_kernel_stack (stack_base (?ts (nat n)) + TASK_STACK_SIZE) (kgdt k),
          kpaging := paging_switch_directory (directory_of L (?ts (nat n))) (kpaging k)\<rparr>))"
    using schedule_cases [OF assms(1,2), of last_esp L] by (auto simp: Let_def)
  from policy_active [OF n(1)] assms(3) obtain c where c: "c < 16" "n = int c" "active (tasks k c)" by auto
  have ts: "esp (?ts d) = (if d = current_task k then last_esp else esp (tasks k d))"
    "stack_base (?ts d) = stack_base (tasks k d)" "addr_space (?ts d) = addr_space (tasks k d)"
    "active (?ts d) = active (tasks k d)" for d
    by (auto simp: woken_def save_context_def)
  define k' where "k' = k\<lparr>kpit := timer_tick (kpit k), tasks := ?ts, current_task := c,
      kgdt := tss_set_kernel_stack (stack_base (?ts c) + TASK_STACK_SIZE) (kgdt k),
      kpaging := paging_switch_directory (directory_of L (?ts c)) (kpaging k)\<rparr>"
  have r: "schedule L last_esp k = Ret (esp (tasks k' c)) k'" using n(2) c(2) by (simp add: k'_def)
  have f: "tasks k' = ?ts" "current_task k' = c" "kmem k' = kmem k" "kpit k' = timer_tick (kpit k)"
    "esp0 (tss (kgdt k')) = stack_base (?ts c) + 4096" "cr3 (kpaging k') = directory_of L (?ts c)"
    by (simp_all add: k'_def tss_set_kernel_stack_def paging_switch_directory_def)
  show ?thesis
    by (intro exI [of _ c] exI [of _ k'] conjI r)
      (use c n(1) in \<open>simp_all add: f ts directory_of_def timer_tick_def paging_kernel_directory_phys_def\<close>)
qed

text \<open>
  C8. As long as some task is active, \<open>schedule\<close> returns: it saves the stack
  pointer of the interrupted task, makes the elected task current, returns that task's saved stack
  pointer, points TSS.esp0 at the top of its kernel stack and CR3 at its own page directory, counts
  one tick, and leaves the memory and every other saved stack pointer alone.
\<close>

theorem schedule_switch:
  assumes "current_task k < 16" "multitasking_enabled k" "\<exists>d < 16. active (tasks k d)"
  shows "\<exists>c k'. c < 16 \<and> schedule L last_esp k = Ret (esp (tasks k' c)) k' \<and> current_task k' = c \<and>
    active (tasks k' c) \<and> policy (ticks (kpit k) + 1) (current_task k) (tasks k) (int c) \<and>
    (\<forall>d. esp (tasks k' d) = (if d = current_task k then last_esp else esp (tasks k d))) \<and>
    esp0 (tss (kgdt k')) = stack_base (tasks k c) + 4096 \<and>
    cr3 (kpaging k') = (if addr_space (tasks k c) < 0 then page_directory_at L
      else paging_task_directory_phys L (addr_space (tasks k c))) \<and>
    ticks (kpit k') = ticks (kpit k) + 1 \<and> kmem k' = kmem k"
  by (rule schedule_elects [OF assms])

theorem schedule_switch_witness:
  "\<exists>k'. schedule example_layout 0x7000 (boot_kernel example_layout (\<lambda>_. 0)) = Ret 0x7000 k' \<and>
    current_task k' = 0"
proof -
  let ?k = "boot_kernel example_layout (\<lambda>_. 0)"
  from schedule_switch [OF _ _ boot_some_active, of example_layout "\<lambda>_. 0" example_layout "0x7000"] obtain c k' where c: "c < 16"
    "schedule example_layout 0x7000 ?k = Ret (esp (tasks k' c)) k'" "current_task k' = c"
    "policy (ticks (kpit ?k) + 1) (current_task ?k) (tasks ?k) (int c)"
    "esp (tasks k' 0) = 0x7000" by auto
  have "c = 0" using boot_elects [OF c(4)] by simp
  with c show ?thesis by auto
qed

text \<open>
  C9. No starvation among equals: a task that stays ready, with a
  non-negative priority that no ready task exceeds, is elected within sixteen entries of the
  scheduler, whatever the other tasks do in between.
\<close>

theorem schedule_bounded_wait:
  assumes "waits L c ks 16" "current_task (ks 0) < 16" "c < 16"
  shows "\<exists>i. 1 \<le> i \<and> i \<le> 16 \<and> current_task (ks i) = c"
proof -
  have "turn (current_task (ks 0)) c < 16" by (simp add: turn_def)
  then show ?thesis using waits_turn [OF assms] by auto
qed


lemma boot_contends: "contends 0 (boot_kernel L m)"
  by (auto simp: contends_def ready_def boot_kernel_tasks init_blank_task Let_def)

lemma boot_schedule: "\<exists>r k'. schedule L e (boot_kernel L m) = Ret r k' \<and> current_task k' = 0"
proof -
  let ?k = "boot_kernel L m"
  obtain n where n: "policy (ticks (kpit ?k) + 1) (current_task ?k) (tasks ?k) n"
    "\<not> n < 0 \<Longrightarrow> \<exists>r k'. schedule L e ?k = Ret r k' \<and> current_task k' = nat n"
    using schedule_cases [of ?k e L] by (auto simp: Let_def)
  have "n = 0" using boot_elects [OF n(1)] .
  with n(2) show ?thesis by simp
qed

theorem schedule_bounded_wait_witness:
  "\<exists>i. 1 \<le> i \<and> i \<le> 16 \<and> current_task ((\<lambda>_ :: nat. boot_kernel example_layout (\<lambda>_. 0)) i) = 0"
  using schedule_bounded_wait [of example_layout 0 "\<lambda>_. boot_kernel example_layout (\<lambda>_. 0)"]
    boot_contends boot_schedule by (simp add: waits_def)

end
