(* ===== verification/Task_Life.thy ===== *)
theory Task_Life
  imports Election
begin

text \<open>
  The life of tasks in \<open>kernel/sched.c\<close>: what the first dispatch of a created task loads into the
  processor, the invariant that ties the task table to the heap and to the address spaces, and that
  every operation of the scheduler keeps it, so that it holds in every reachable state.
\<close>

subsection \<open>Initial frames\<close>

lemma push_words_sp: "snd (push_words ws m sp) = sp - 4 * of_nat (length ws)"
  by (induction ws m sp rule: push_words.induct) (simp_all add: algebra_simps)

lemma unat_sub_nat:
  fixes a :: u32
  assumes "n \<le> unat a"
  shows "unat (a - of_nat n) = unat a - n"
proof -
  have "unat (of_nat n :: u32) = n"
    using assms unsigned_less [of a, where 'a = nat] by (intro unat_of_nat_u32) simp
  then show ?thesis using unat_sub_word [of a "of_nat n"] assms by simp
qed

lemma unat_sub_4: "4 \<le> unat a \<Longrightarrow> unat (a - 4) = unat a - 4" for a :: u32
  using unat_sub_nat [of 4 a] by simp

lemma push_words_outside:
  "4 * length ws \<le> unat sp \<Longrightarrow> unat x < unat sp - 4 * length ws \<or> unat sp \<le> unat x \<Longrightarrow>
    fst (push_words ws m sp) x = m x"
proof (induction ws m sp rule: push_words.induct)
  case (2 w ws m sp)
  have s: "unat (sp - 4) = unat sp - 4" using 2(2) by (intro unat_sub_4) simp
  have "x \<notin> region (sp - 4) 4"
    using 2(2,3) s unsigned_less [of sp, where 'a = nat] by (subst region_iff) auto
  moreover have "fst (push_words ws (wr32 m (sp - 4) w) (sp - 4)) x = wr32 m (sp - 4) w x"
    by (rule 2(1)) (use 2(2,3) s in auto)
  ultimately show ?case by (simp add: wr32_outside)
qed simp

lemma push_words_read:
  "4 * length ws \<le> unat sp \<Longrightarrow> k < length ws \<Longrightarrow>
    rd32 (fst (push_words ws m sp)) (sp - 4 * of_nat (Suc k)) = ws ! k"
proof (induction ws m sp arbitrary: k rule: push_words.induct)
  case (2 w ws m sp)
  have s: "unat (sp - 4) = unat sp - 4" using 2(2) by (intro unat_sub_4) simp
  show ?case
  proof (cases k)
    case 0
    have "rd32 (fst (push_words ws (wr32 m (sp - 4) w) (sp - 4))) (sp - 4) = rd32 (wr32 m (sp - 4) w) (sp - 4)"
    proof (rule rd32_cong)
      fix x assume "x \<in> region (sp - 4) 4"
      then have "unat (sp - 4) \<le> unat x"
        using s 2(2) unsigned_less [of sp, where 'a = nat] by (subst (asm) region_iff) auto
      then show "fst (push_words ws (wr32 m (sp - 4) w) (sp - 4)) x = wr32 m (sp - 4) w x"
        by (intro push_words_outside) (use 2(2) s in auto)
    qed
    with 0 show ?thesis by simp
  next
    case (Suc j)
    have "rd32 (fst (push_words ws (wr32 m (sp - 4) w) (sp - 4))) (sp - 4 - 4 * of_nat (Suc j)) = ws ! j"
      by (rule 2(1)) (use 2(2,3) s Suc in auto)
    moreover have "sp - 4 - 4 * of_nat (Suc j) = sp - 4 * of_nat (Suc k)" using Suc by (simp add: algebra_simps)
    ultimately have "rd32 (fst (push_words ws (wr32 m (sp - 4) w) (sp - 4))) (sp - 4 * of_nat (Suc k)) = ws ! j"
      by (simp only:)
    then show ?thesis using Suc by (simp only: push_words.simps nth_Cons_Suc)
  qed
qed simp

text \<open>What \<open>popal; iret\<close> at the end of \<open>timer_handler\<close> and \<open>syscall_handler\<close> loads from a saved
  stack pointer. The fourth popped word (ESP) is skipped; SS:ESP are popped only on a return to
  another ring.\<close>

record cpu =
  r_edi :: u32
  r_esi :: u32
  r_ebp :: u32
  r_ebx :: u32
  r_edx :: u32
  r_ecx :: u32
  r_eax :: u32
  r_eip :: u32
  r_cs :: u32
  r_eflags :: u32
  r_esp :: u32
  r_ss :: u32

definition resume :: "mem \<Rightarrow> u32 \<Rightarrow> cpu" where
  "resume m e =
     (let w = (\<lambda>i. rd32 m (e + 4 * of_nat i)) in
      \<lparr>r_edi = w 0, r_esi = w 1, r_ebp = w 2, r_ebx = w 4, r_edx = w 5, r_ecx = w 6, r_eax = w 7,
       r_eip = w 8, r_cs = w 9, r_eflags = w 10,
       r_esp = (if w 9 AND 3 = 0 then e + 44 else w 11), r_ss = (if w 9 AND 3 = 0 then 0x10 else w 12)\<rparr>)"

lemma frame_word:
  assumes "push_words ws m sp = (m', e)" "4 * length ws \<le> unat sp" "i < length ws"
  shows "rd32 m' (e + 4 * of_nat i) = ws ! (length ws - 1 - i)"
proof -
  let ?k = "length ws - 1 - i"
  have m': "m' = fst (push_words ws m sp)" and e: "e = sp - 4 * of_nat (length ws)"
    using push_words_sp [of ws m sp] assms(1) by simp_all
  have "(of_nat (length ws) :: u32) = of_nat (Suc ?k) + of_nat i"
    using assms(3) by (simp flip: of_nat_add)
  then have sp: "e + 4 * of_nat i = sp - 4 * of_nat (Suc ?k)" unfolding e by (simp only: algebra_simps)
  have "rd32 m' (sp - 4 * of_nat (Suc ?k)) = ws ! ?k"
    unfolding m' by (rule push_words_read [OF assms(2)]) (use assms(3) in simp)
  then show ?thesis unfolding sp .
qed

lemma kernel_frame_resume:
  assumes "push_words (kernel_frame L entry) m sp = (m', e)" "48 \<le> unat sp"
  shows "resume m' e = \<lparr>r_edi = 0, r_esi = 0, r_ebp = 0, r_ebx = 0, r_edx = 0, r_ecx = 0, r_eax = 0,
      r_eip = entry, r_cs = 0x08, r_eflags = 0x202, r_esp = sp - 4, r_ss = 0x10\<rparr> \<and>
    rd32 m' (sp - 4) = task_exit_at L"
proof -
  have len: "length (kernel_frame L entry) = 12" by (simp add: kernel_frame_def)
  have w: "rd32 m' (e + 4 * of_nat i) = kernel_frame L entry ! (11 - i)" if "i < 12" for i
    using frame_word [OF assms(1), of i] assms(2) that len by simp
  have e: "e = sp - 48" using push_words_sp [of "kernel_frame L entry" m sp] assms(1) by (simp add: kernel_frame_def)
  show ?thesis
    using w [of 0] w [of 1] w [of 2] w [of 3] w [of 4] w [of 5] w [of 6] w [of 7] w [of 8] w [of 9] w [of 10] w [of 11]
    by (simp add: resume_def e kernel_frame_def Let_def)
qed

lemma user_frame_resume:
  assumes "push_words (user_frame entry utop ebx ecx) m sp = (m', e)" "52 \<le> unat sp"
  shows "resume m' e = \<lparr>r_edi = 0, r_esi = 0, r_ebp = 0, r_ebx = ebx, r_edx = 0, r_ecx = ecx, r_eax = 0,
      r_eip = entry, r_cs = 0x1B, r_eflags = 0x202, r_esp = utop, r_ss = 0x23\<rparr>"
proof -
  have len: "length (user_frame entry utop ebx ecx) = 13" by (simp add: user_frame_def)
  have w: "rd32 m' (e + 4 * of_nat i) = user_frame entry utop ebx ecx ! (12 - i)" if "i < 13" for i
    using frame_word [OF assms(1), of i] assms(2) that len by simp
  show ?thesis
    using w [of 0] w [of 1] w [of 2] w [of 4] w [of 5] w [of 6] w [of 7] w [of 8] w [of 9] w [of 10]
      w [of 11] w [of 12]
    by (simp add: resume_def user_frame_def Let_def)
qed

subsection \<open>The invariant\<close>

definition live_tasks :: "(nat \<Rightarrow> task) \<Rightarrow> nat set" where
  "live_tasks ts = {i. i < 16 \<and> active (ts i)}"

definition stack_of :: "(nat \<Rightarrow> task) \<Rightarrow> nat \<Rightarrow> nat" where
  "stack_of ts i = unat (stack_base (ts i))"

definition stack_owners :: "(nat \<Rightarrow> task) \<Rightarrow> nat set" where
  "stack_owners ts = {i \<in> live_tasks ts. stack_base (ts i) \<noteq> 0}"

definition space_owners :: "(nat \<Rightarrow> task) \<Rightarrow> nat set" where
  "space_owners ts = {i \<in> live_tasks ts. addr_space (ts i) \<ge> 0}"

text \<open>The task table against the resources it manages: \<open>task_count\<close> counts the active tasks, the
  allocated blocks of the heap are exactly the kernel stacks of active tasks (the shell, which runs
  on the boot stack, has none), each of 4096 bytes or more and with one owner, and the used address
  spaces are exactly those of active tasks, again with one owner each.\<close>

definition table_inv :: "(nat \<Rightarrow> task) \<Rightarrow> nat \<Rightarrow> u32 \<Rightarrow> mem \<Rightarrow> paging \<Rightarrow> bool" where
  "table_inv ts count hs m p \<longleftrightarrow>
     count = card (live_tasks ts) \<and>
     buffers (heap_rep hs) m (stack_of ts ` stack_owners ts) 4096 \<and> inj_on (stack_of ts) (stack_owners ts) \<and>
     owned (used_spaces p) (space_owners ts) (\<lambda>i. addr_space (ts i)) \<and>
     (\<forall>i. i < 16 \<longrightarrow> mbox_ok (ts i))"

definition sched_inv :: "kernel \<Rightarrow> bool" where
  "sched_inv k \<longleftrightarrow> current_task k < 16 \<and> multitasking_enabled k \<and>
     table_inv (tasks k) (task_count k) (heap_start k) (kmem k) (kpaging k)"

lemma finite_live [simp]: "finite (live_tasks ts)"
  by (simp add: live_tasks_def)

lemma table_inv_cong:
  assumes "table_inv ts count hs m p" "used_spaces p' = used_spaces p"
    "\<And>i. i < 16 \<Longrightarrow> active (ts' i) = active (ts i) \<and> stack_base (ts' i) = stack_base (ts i) \<and>
      addr_space (ts' i) = addr_space (ts i) \<and> (mbox_ok (ts i) \<longrightarrow> mbox_ok (ts' i))"
  shows "table_inv ts' count hs m p'"
proof -
  have l: "live_tasks ts' = live_tasks ts" using assms(3) by (auto simp: live_tasks_def)
  have s: "stack_owners ts' = stack_owners ts" "space_owners ts' = space_owners ts"
    using assms(3) unfolding stack_owners_def space_owners_def l by (auto simp: live_tasks_def)
  have f: "stack_of ts' i = stack_of ts i" if "i \<in> stack_owners ts" for i
    using assms(3) that by (auto simp: stack_of_def stack_owners_def live_tasks_def)
  have g: "addr_space (ts' i) = addr_space (ts i)" if "i \<in> space_owners ts" for i
    using assms(3) that by (auto simp: space_owners_def live_tasks_def)
  have "stack_of ts' ` stack_owners ts = stack_of ts ` stack_owners ts" using f by auto
  moreover have "inj_on (stack_of ts') (stack_owners ts) = inj_on (stack_of ts) (stack_owners ts)"
    using f by (rule inj_on_cong)
  moreover have "owned (used_spaces p) (space_owners ts) (\<lambda>i. addr_space (ts' i)) =
      owned (used_spaces p) (space_owners ts) (\<lambda>i. addr_space (ts i))"
    using g by (rule owned_cong)
  ultimately show ?thesis using assms unfolding table_inv_def l s by auto
qed

subsection \<open>Termination of a task\<close>

lemma end_task_eq:
  "end_task pid k =
    (let t = tasks k pid in
     k\<lparr>tasks := (tasks k)(pid := t\<lparr>active := False, sleeping := False, stack_base := 0,
           addr_space := (if addr_space t \<ge> 0 then -1 else addr_space t)\<rparr>),
       task_count := task_count k - 1,
       kmem := (if stack_base t \<noteq> 0 then kfree (stack_base t) (kmem k) else kmem k),
       kpaging := (if addr_space t \<ge> 0 then paging_free_task_directory (addr_space t) (kpaging k)
         else kpaging k)\<rparr>)"
proof -
  have same: "t\<lparr>stack_base := 0, addr_space := x\<rparr> = t\<lparr>addr_space := x\<rparr>" if "stack_base t = 0" for t :: task and x
    using that by (cases t) simp
  show ?thesis by (auto simp: end_task_def upd_task_def Let_def same) 
qed

lemma kfree_null: "kfree 0 m = m"
  by (simp add: kfree_def)

lemma table_inv_end:
  assumes inv: "table_inv ts count hs m p" and pid: "pid < 16" "active (ts pid)"
    and t': "\<not> active t'" "mbox_ok (ts pid) \<Longrightarrow> mbox_ok t'"
  shows "table_inv (ts(pid := t')) (count - 1) hs
    (if stack_base (ts pid) \<noteq> 0 then kfree (stack_base (ts pid)) m else m)
    (if addr_space (ts pid) \<ge> 0 then paging_free_task_directory (addr_space (ts pid)) p else p)"
proof -
  let ?ts = "ts(pid := t')"
  have live: "live_tasks ?ts = live_tasks ts - {pid}" "pid \<in> live_tasks ts"
    using pid t'(1) by (auto simp: live_tasks_def)
  have st: "stack_owners ?ts = stack_owners ts - {pid}" and sp: "space_owners ?ts = space_owners ts - {pid}"
    unfolding stack_owners_def space_owners_def live by auto
  have f: "stack_of ?ts i = stack_of ts i" if "i \<in> stack_owners ts - {pid}" for i
    using that by (simp add: stack_of_def)
  have inj: "inj_on (stack_of ts) (stack_owners ts)" using inv by (simp add: table_inv_def)
  have im: "stack_of ?ts ` (stack_owners ts - {pid}) = stack_of ts ` (stack_owners ts - {pid})"
    using f by (intro image_cong) auto
  have B: "buffers (heap_rep hs) m (stack_of ts ` stack_owners ts) 4096"
    using inv by (simp add: table_inv_def)
  have "buffers (heap_rep hs) (if stack_base (ts pid) \<noteq> 0 then kfree (stack_base (ts pid)) m else m)
      (stack_of ts ` (stack_owners ts - {pid})) 4096"
  proof (cases "stack_base (ts pid) \<noteq> 0")
    case True
    then have o: "pid \<in> stack_owners ts" using live(2) by (simp add: stack_owners_def)
    then have "stack_of ts ` (stack_owners ts - {pid}) = stack_of ts ` stack_owners ts - {stack_of ts pid}"
      using inj by (auto simp: inj_on_def)
    moreover have "buffers (heap_rep hs) (kfree (stack_base (ts pid)) m)
        (stack_of ts ` stack_owners ts - {unat (stack_base (ts pid))}) 4096"
      by (rule kheap.buffers_free [OF B]) (use o in \<open>auto simp: stack_of_def\<close>)
    ultimately show ?thesis using True by (simp add: stack_of_def)
  next
    case False
    then have "pid \<notin> stack_owners ts" by (simp add: stack_owners_def)
    then show ?thesis using False B by simp
  qed
  moreover have "inj_on (stack_of ?ts) (stack_owners ts - {pid})"
    using inj f by (auto simp: inj_on_def)
  moreover have "owned (used_spaces (if addr_space (ts pid) \<ge> 0
        then paging_free_task_directory (addr_space (ts pid)) p else p))
      (space_owners ts - {pid}) (\<lambda>i. addr_space (?ts i))"
  proof (cases "addr_space (ts pid) \<ge> 0")
    case True
    have "owned (used_spaces (paging_free_task_directory (addr_space (ts pid)) p))
        (space_owners ts - {pid}) (\<lambda>i. addr_space (?ts i))"
      by (rule spaces.owned_release) (use inv True live(2) in \<open>auto simp: table_inv_def space_owners_def\<close>)
    then show ?thesis using True by simp
  next
    case False
    then have "space_owners ts - {pid} = space_owners ts" by (auto simp: space_owners_def)
    moreover have "addr_space (?ts i) = addr_space (ts i)" if "i \<in> space_owners ts" for i
      using that False by (auto simp: space_owners_def)
    then have "owned (used_spaces p) (space_owners ts) (\<lambda>i. addr_space (?ts i)) =
        owned (used_spaces p) (space_owners ts) (\<lambda>i. addr_space (ts i))" by (rule owned_cong)
    then have "owned (used_spaces p) (space_owners ts) (\<lambda>i. addr_space (?ts i))"
      using inv by (simp add: table_inv_def)
    ultimately show ?thesis using False by simp
  qed
  moreover have "count - 1 = card (live_tasks ?ts)" using inv live by (simp add: table_inv_def)
  ultimately show ?thesis using inv t'(2) pid(1) unfolding table_inv_def st sp im by auto
qed

lemma end_task_inv:
  assumes "sched_inv k" "pid < 16" "active (tasks k pid)"
  shows "sched_inv (end_task pid k)"
proof -
  let ?t = "tasks k pid"
  let ?t' = "?t\<lparr>active := False, sleeping := False, stack_base := 0,
      addr_space := (if addr_space ?t \<ge> 0 then -1 else addr_space ?t)\<rparr>"
  have "table_inv ((tasks k)(pid := ?t')) (task_count k - 1) (heap_start k)
    (if stack_base ?t \<noteq> 0 then kfree (stack_base ?t) (kmem k) else kmem k)
    (if addr_space ?t \<ge> 0 then paging_free_task_directory (addr_space ?t) (kpaging k) else kpaging k)"
    by (rule table_inv_end) (use assms in \<open>auto simp: sched_inv_def mbox_ok_def\<close>)
  then show ?thesis using assms(1) by (simp add: sched_inv_def end_task_eq Let_def)
qed

lemma upd_task_inv:
  assumes "sched_inv k" "active (f (tasks k i)) = active (tasks k i)"
    "stack_base (f (tasks k i)) = stack_base (tasks k i)" "addr_space (f (tasks k i)) = addr_space (tasks k i)"
    "mbox_ok (tasks k i) \<Longrightarrow> mbox_ok (f (tasks k i))"
  shows "sched_inv (upd_task i f k)"
  using table_inv_cong [of "tasks k" "task_count k" "heap_start k" "kmem k" "kpaging k" "kpaging k"
      "(tasks k)(i := f (tasks k i))"] assms
  by (auto simp: sched_inv_def upd_task_def)

lemma schedule_inv:
  assumes "sched_inv k" "schedule L e k = Ret r k'"
  shows "sched_inv k'"
proof -
  let ?ts = "woken (ticks (kpit k) + 1) {0..<16} (save_context e k)"
  have k: "current_task k < 16" "multitasking_enabled k" using assms(1) by (simp_all add: sched_inv_def)
  obtain n where n: "policy (ticks (kpit k) + 1) (current_task k) (tasks k) n"
    "schedule L e k =
       (if n < 0 then Halt (k\<lparr>kpit := timer_tick (kpit k), tasks := ?ts\<rparr>)
        else Ret (esp (?ts (nat n))) (k\<lparr>kpit := timer_tick (kpit k), tasks := ?ts, current_task := nat n,
          kgdt := tss_set_kernel_stack (stack_base (?ts (nat n)) + TASK_STACK_SIZE) (kgdt k),
          kpaging := paging_switch_directory (directory_of L (?ts (nat n))) (kpaging k)\<rparr>))"
    using schedule_cases [OF k, of e L] by (auto simp: Let_def)
  from n(2) assms(2) policy_active [OF n(1)] have n': "nat n < 16" "\<not> n < 0" by (auto split: if_splits)
  have "table_inv ?ts (task_count k) (heap_start k) (kmem k)
      (paging_switch_directory (directory_of L (?ts (nat n))) (kpaging k))"
    by (rule table_inv_cong [of "tasks k" _ _ _ "kpaging k"])
      (use assms(1) in \<open>auto simp: sched_inv_def used_spaces_def paging_switch_directory_def woken_def
        save_context_def mbox_ok_def\<close>)
  then show ?thesis using n(2) n' assms k by (auto simp: sched_inv_def)
qed

subsection \<open>Creation of a task\<close>

lemma free_slot_Some:
  "free_slot k = Some i \<Longrightarrow> i < 16 \<and> \<not> active (tasks k i)"
  by (auto simp: free_slot_def find_Some_iff)

lemma start_task_eq:
  assumes "push_words frame (kmem k) (a + 4096) = (m, sp)"
  shows "start_task i a frame name space k =
    k\<lparr>kmem := m, task_count := task_count k + 1,
      tasks := (tasks k)(i := mailbox_reset ((tasks k i)\<lparr>stack_base := a, sleeping := False, wake_tick := 0,
        esp := sp, active := True, tname := name, addr_space := space, priority := 0\<rparr>))\<rparr>"
  using assms by (simp add: start_task_def upd_task_def Let_def)

lemma mailbox_reset_fields [simp]:
  "esp (mailbox_reset t) = esp t" "stack_base (mailbox_reset t) = stack_base t"
  "active (mailbox_reset t) = active t" "tname (mailbox_reset t) = tname t"
  "sleeping (mailbox_reset t) = sleeping t" "wake_tick (mailbox_reset t) = wake_tick t"
  "addr_space (mailbox_reset t) = addr_space t" "priority (mailbox_reset t) = priority t"
  by (simp_all add: mailbox_reset_def)

lemma table_inv_add:
  assumes inv: "table_inv ts count hs m p" and i: "i < 16" "\<not> active (ts i)"
    and t: "active t" "stack_base t \<noteq> 0" "mbox_ok t" "addr_space t \<noteq> -1 \<longrightarrow> addr_space t \<ge> 0"
    and fresh: "unat (stack_base t) \<notin> stack_of ts ` stack_owners ts"
    and bufs: "buffers (heap_rep hs) m' (insert (unat (stack_base t)) (stack_of ts ` stack_owners ts)) 4096"
    and sp: "if addr_space t = -1 then p' = p
      else (\<exists>w L. create_space L w p = (addr_space t, p'))"
  shows "table_inv (ts(i := t)) (count + 1) hs m' p'"
proof -
  let ?ts = "ts(i := t)"
  have live: "live_tasks ?ts = insert i (live_tasks ts)" "i \<notin> live_tasks ts"
    using i t(1) by (auto simp: live_tasks_def)
  have st: "stack_owners ?ts = insert i (stack_owners ts)" "i \<notin> stack_owners ts"
    unfolding stack_owners_def live using live(2) t(2) by auto
  have f: "stack_of ?ts j = stack_of ts j" if "j \<in> stack_owners ts" for j
    using that st(2) by (auto simp: stack_of_def)
  have im: "stack_of ?ts ` insert i (stack_owners ts) = insert (unat (stack_base t)) (stack_of ts ` stack_owners ts)"
    using f by (auto simp: stack_of_def)
  have "inj_on (stack_of ?ts) (insert i (stack_owners ts))"
  proof (rule inj_on_insert [THEN iffD2], intro conjI)
    show "inj_on (stack_of ?ts) (stack_owners ts)"
      using inv f by (simp add: table_inv_def inj_on_cong [OF f])
    show "stack_of ?ts i \<notin> stack_of ?ts ` (stack_owners ts - {i})"
      using fresh f st(2) by (auto simp: stack_of_def)
  qed
  moreover have "owned (used_spaces p') (space_owners ?ts) (\<lambda>j. addr_space (?ts j))"
  proof (cases "addr_space t = -1")
    case True
    then have "space_owners ?ts = space_owners ts" unfolding space_owners_def live using live(2) by auto
    moreover have "addr_space (?ts j) = addr_space (ts j)" if "j \<in> space_owners ts" for j
      using that live(2) by (auto simp: space_owners_def)
    then have "owned (used_spaces p) (space_owners ts) (\<lambda>j. addr_space (?ts j)) =
        owned (used_spaces p) (space_owners ts) (\<lambda>j. addr_space (ts j))" by (rule owned_cong)
    ultimately show ?thesis using inv sp True by (simp add: table_inv_def)
  next
    case False
    with sp obtain w L where c: "create_space L w p = (addr_space t, p')" by auto
    have s: "space_owners ?ts = insert i (space_owners ts)" "i \<notin> space_owners ts"
      unfolding space_owners_def live using live(2) t(4) False by auto
    show ?thesis unfolding s(1)
      by (rule spaces.owned_acquire [where own = "\<lambda>j. addr_space (ts j)", OF _ c False s(2)])
        (use inv s(2) in \<open>auto simp: table_inv_def\<close>)
  qed
  moreover have "count + 1 = card (live_tasks ?ts)" using inv live by (simp add: table_inv_def)
  ultimately show ?thesis using inv bufs t(3) unfolding table_inv_def st(1) im by simp
qed

text \<open>The frame is written inside the new stack, so every other block of the heap keeps its bytes.\<close>

lemma start_task_inv:
  assumes k: "sched_inv k" and i: "i < 16" "\<not> active (tasks k i)"
    and a: "kmalloc (heap_start k) 4096 (kmem k) = Some (a, m)" "a \<noteq> 0"
    and sp: "if space = -1 then p = kpaging k else (\<exists>w L. create_space L w (kpaging k) = (space, p))"
      "space \<noteq> -1 \<longrightarrow> space \<ge> 0"
    and frame: "4 * length frame \<le> 4096"
  shows "sched_inv (start_task i a frame name space (k\<lparr>kmem := m, kpaging := p\<rparr>))"
proof -
  let ?S = "stack_of (tasks k) ` stack_owners (tasks k)" and ?hs = "heap_start k"
  obtain m' e where pw: "push_words frame m (a + 4096) = (m', e)" by (cases "push_words frame m (a + 4096)")
  have inv: "table_inv (tasks k) (task_count k) ?hs (kmem k) (kpaging k)" using k by (simp add: sched_inv_def)
  then have "buffers (heap_rep ?hs) (kmem k) ?S (unat (4096 :: u32))" by (simp add: table_inv_def)
  from kheap.buffers_alloc [OF this] a have b: "unat a \<notin> ?S"
    "buffers (heap_rep ?hs) m (insert (unat a) ?S) 4096" by auto
  have utop: "unat (a + 4096) = unat a + 4096"
    using kheap.buffers_bounds [OF b(2)] unat_plus_numeral [of a] by auto
  have "buffers (heap_rep ?hs) m' (insert (unat a) ?S) 4096"
  proof (rule kheap.buffers_write [OF b(2), of "unat a"])
    fix x :: u32
    assume "unat x < unat a \<or> unat a + 4096 \<le> unat x"
    then show "m' x = m x"
      using push_words_outside [of frame "a + 4096" x m] frame utop pw by auto
  qed simp
  then have "table_inv ((tasks k)(i := mailbox_reset ((tasks k i)\<lparr>stack_base := a, sleeping := False,
      wake_tick := 0, esp := e, active := True, tname := name, addr_space := space, priority := 0\<rparr>)))
      (task_count k + 1) ?hs m' p"
    using a b sp mbox_reset_ok by (intro table_inv_add [OF inv i]) auto
  then show ?thesis using k pw by (simp add: sched_inv_def start_task_eq)
qed

text \<open>How a creation can end: refused with nothing leaked, or a new task in a free slot.\<close>

lemma kmalloc_stack_returns:
  assumes "sched_inv k"
  obtains a m where "kmalloc (heap_start k) 4096 (kmem k) = Some (a, m)" "a = 0 \<longrightarrow> m = kmem k"
proof -
  have "buffers (heap_rep (heap_start k)) (kmem k) (stack_of (tasks k) ` stack_owners (tasks k)) (unat (4096 :: u32))"
    using assms by (simp add: sched_inv_def table_inv_def)
  from kheap.buffers_alloc [OF this] that show thesis by auto
qed

lemma free_slot_exists:
  assumes "sched_inv k" "task_count k < 16"
  obtains i where "free_slot k = Some i"
proof (cases "free_slot k")
  case None
  then have "live_tasks (tasks k) = {0..<16}" by (auto simp: free_slot_def find_None_iff live_tasks_def)
  then have "task_count k = 16" using assms(1) by (simp add: sched_inv_def table_inv_def)
  then show thesis using assms(2) by simp
qed (use that in blast)

lemma same_heap: "k\<lparr>kmem := kmem k\<rparr> = k" for k :: kernel
  by simp

lemma create_task_cases:
  assumes "sched_inv k"
  shows "create_task L entry name k = Ret (-1) k \<and>
      (task_count k \<ge> 16 \<or> kmalloc (heap_start k) 4096 (kmem k) = Some (0, kmem k)) \<or>
    (\<exists>i a m. free_slot k = Some i \<and> kmalloc (heap_start k) 4096 (kmem k) = Some (a, m) \<and> a \<noteq> 0 \<and>
      create_task L entry name k =
        Ret (int i) (start_task i a (kernel_frame L entry) name (-1) (k\<lparr>kmem := m\<rparr>)))"
proof (cases "task_count k \<ge> 16")
  case True
  then show ?thesis by (simp add: create_task_def)
next
  case False
  then obtain i where i: "free_slot k = Some i" using free_slot_exists [OF assms] by auto
  obtain a m where a: "kmalloc (heap_start k) 4096 (kmem k) = Some (a, m)" "a = 0 \<longrightarrow> m = kmem k"
    using kmalloc_stack_returns [OF assms] .
  show ?thesis using False i a by (cases "a = 0") (simp_all add: create_task_def Let_def)
qed

lemma create_task_inv:
  assumes "sched_inv k" "create_task L entry name k = Ret r k'"
  shows "sched_inv k'"
  using create_task_cases [OF assms(1), of L entry name]
proof (elim disjE exE conjE)
  fix i a m assume *: "free_slot k = Some i" "kmalloc (heap_start k) 4096 (kmem k) = Some (a, m)" "a \<noteq> 0"
    "create_task L entry name k = Ret (int i) (start_task i a (kernel_frame L entry) name (-1) (k\<lparr>kmem := m\<rparr>))"
  have "sched_inv (start_task i a (kernel_frame L entry) name (-1) (k\<lparr>kmem := m, kpaging := kpaging k\<rparr>))"
    by (rule start_task_inv [OF assms(1) _ _ *(2,3)])
      (use free_slot_Some [OF *(1)] in \<open>auto simp: kernel_frame_def\<close>)
  then show ?thesis using * assms(2) by simp
qed (use assms in auto)

lemma create_user_task_cases:
  assumes "sched_inv k"
  shows "(\<exists>k'. create_user_task_argv L entry name utop sz cb cs ebx ecx k = Ret (-1) k' \<and>
      (k' = k \<and> (task_count k \<ge> 16 \<or> kmalloc (heap_start k) 4096 (kmem k) = Some (0, kmem k)) \<or>
       (\<exists>a m. kmalloc (heap_start k) 4096 (kmem k) = Some (a, m) \<and> a \<noteq> 0 \<and>
         (\<forall>i < 6. task_dir_used (kpaging k) i) \<and> k' = k\<lparr>kmem := kfree a m\<rparr>))) \<or>
    (\<exists>i a m space p. free_slot k = Some i \<and> kmalloc (heap_start k) 4096 (kmem k) = Some (a, m) \<and> a \<noteq> 0 \<and>
      create_space L (cb, cs, utop - sz, sz) (kpaging k) = (space, p) \<and> 0 \<le> space \<and>
      create_user_task_argv L entry name utop sz cb cs ebx ecx k =
        Ret (int i) (start_task i a (user_frame entry utop ebx ecx) name space (k\<lparr>kmem := m, kpaging := p\<rparr>)))"
proof (cases "task_count k \<ge> 16")
  case True
  then show ?thesis by (simp add: create_user_task_argv_def)
next
  case False
  then obtain i where i: "free_slot k = Some i" using free_slot_exists [OF assms] by auto
  obtain a m where a: "kmalloc (heap_start k) 4096 (kmem k) = Some (a, m)" "a = 0 \<longrightarrow> m = kmem k"
    using kmalloc_stack_returns [OF assms] .
  obtain space p where s: "paging_create_task_directory_ex L cb cs (utop - sz) sz (kpaging k) = (space, p)"
    by (cases "paging_create_task_directory_ex L cb cs (utop - sz) sz (kpaging k)")
  have p: "space < 0 \<Longrightarrow> p = kpaging k \<and> (\<forall>i < 6. task_dir_used (kpaging k) i)"
    using create_cases [OF s] by auto
  show ?thesis
  proof (cases "a = 0")
    case True
    then show ?thesis using False i a by (simp add: create_user_task_argv_def Let_def)
  next
    case ne: False
    show ?thesis
    proof (cases "space < 0")
      case True
      then show ?thesis using False i a ne s p by (simp add: create_user_task_argv_def Let_def)
    next
      case ok: False
      then show ?thesis using False i a ne s by (simp add: create_user_task_argv_def create_space_def Let_def)
    qed
  qed
qed

lemma create_user_task_inv:
  assumes "sched_inv k" "create_user_task_argv L entry name utop sz cb cs ebx ecx k = Ret r k'"
  shows "sched_inv k'"
  using create_user_task_cases [OF assms(1), where L = L and entry = entry and name = name and utop = utop
      and sz = sz and cb = cb and cs = cs and ebx = ebx and ecx = ecx]
proof (elim disjE exE conjE)
  fix k'' a m
  assume *: "create_user_task_argv L entry name utop sz cb cs ebx ecx k = Ret (-1) k''"
    "kmalloc (heap_start k) 4096 (kmem k) = Some (a, m)" "a \<noteq> 0" "k'' = k\<lparr>kmem := kfree a m\<rparr>"
  let ?S = "stack_of (tasks k) ` stack_owners (tasks k)"
  have "buffers (heap_rep (heap_start k)) (kmem k) ?S (unat (4096 :: u32))"
    using assms(1) by (simp add: sched_inv_def table_inv_def)
  from kheap.buffers_alloc [OF this] *(2,3) have b: "unat a \<notin> ?S"
    "buffers (heap_rep (heap_start k)) m (insert (unat a) ?S) 4096" by auto
  have "buffers (heap_rep (heap_start k)) (kfree a m) (insert (unat a) ?S - {unat a}) 4096"
    by (rule kheap.buffers_free [OF b(2)]) simp
  then show ?thesis using b(1) assms * by (auto simp: sched_inv_def table_inv_def)
next
  fix i a m space p
  assume *: "free_slot k = Some i" "kmalloc (heap_start k) 4096 (kmem k) = Some (a, m)" "a \<noteq> 0"
    "create_space L (cb, cs, utop - sz, sz) (kpaging k) = (space, p)" "0 \<le> space"
    "create_user_task_argv L entry name utop sz cb cs ebx ecx k =
        Ret (int i) (start_task i a (user_frame entry utop ebx ecx) name space (k\<lparr>kmem := m, kpaging := p\<rparr>))"
  have ex: "\<exists>w L. create_space L w (kpaging k) = (space, p)" using *(4) by blast
  have "sched_inv (start_task i a (user_frame entry utop ebx ecx) name space (k\<lparr>kmem := m, kpaging := p\<rparr>))"
    by (rule start_task_inv [OF assms(1) _ _ *(2,3)])
      (use free_slot_Some [OF *(1)] ex *(5) in \<open>simp_all add: user_frame_def\<close>)
  then show ?thesis using * assms(2) by simp
qed (use assms in auto)

subsection \<open>The other operations\<close>

lemma task_kill_inv:
  assumes "sched_inv k" "task_kill pid k = (ok, k')"
  shows "sched_inv k'"
proof (cases "valid_pid pid k \<and> pid \<noteq> int (current_task k)")
  case True
  then have "sched_inv (end_task (nat pid) k)" using assms(1) by (intro end_task_inv) (auto simp: valid_pid_def)
  then have "sched_inv (upd_task (nat pid) mailbox_reset (end_task (nat pid) k))"
    by (rule upd_task_inv) (simp_all add: mbox_reset_ok)
  then show ?thesis using True assms(2) by (auto simp: task_kill_def split: if_splits)
qed (use assms in \<open>auto simp: task_kill_def split: if_splits\<close>)

lemma exit_block_inv:
  "sched_inv k \<Longrightarrow> sched_inv (if active (cur k) then end_task (current_task k) k else k)"
  using end_task_inv [of k "current_task k"] by (auto simp: sched_inv_def)

lemma set_sleep_inv: "sched_inv k \<Longrightarrow> sched_inv (set_sleep ms k)"
  unfolding set_sleep_def by (rule upd_task_inv) (simp_all add: mbox_ok_def)

lemma set_priority_inv: "sched_inv k \<Longrightarrow> sched_inv (task_set_priority pid prio k)"
  unfolding task_set_priority_def by (auto intro!: upd_task_inv simp: mbox_ok_def)

lemma mailbox_put_fields:
  "mailbox_put m data len s t = (ok, t') \<Longrightarrow>
    active t' = active t \<and> stack_base t' = stack_base t \<and> addr_space t' = addr_space t \<and>
    esp t' = esp t \<and> (mbox_ok t \<longrightarrow> mbox_ok t')" for t t' :: task
  using mq.put_inv [of t "(m, data, len, s)" ok t']
  by (auto simp: put_request_def mailbox_put_def Let_def split: if_splits)

lemma mailbox_get_fields:
  "mailbox_get t = (r, t') \<Longrightarrow>
    active t' = active t \<and> stack_base t' = stack_base t \<and> addr_space t' = addr_space t \<and>
    esp t' = esp t \<and> (mbox_ok t \<longrightarrow> mbox_ok t')" for t t' :: task
  using mq.get_inv [of t r t'] by (auto simp: mailbox_get_def Let_def split: if_splits)

lemma ipc_send_inv:
  assumes "sched_inv k" "ipc_send pid data len k = (r, k')"
  shows "sched_inv k'"
proof (cases "valid_pid pid k")
  case True
  obtain ok t where p: "mailbox_put (kmem k) data len (int (current_task k)) (tasks k (nat pid)) = (ok, t)"
    by (cases "mailbox_put (kmem k) data len (int (current_task k)) (tasks k (nat pid))")
  have "sched_inv (upd_task (nat pid) (\<lambda>_. t) k)"
    by (rule upd_task_inv [OF assms(1)]) (use mailbox_put_fields [OF p] in auto)
  then show ?thesis using True p assms(2) by (auto simp: ipc_send_def Let_def)
qed (use assms in \<open>auto simp: ipc_send_def\<close>)

text \<open>A creation writes to no address outside the heap.\<close>

lemma create_user_task_outside:
  assumes "sched_inv k" "create_user_task_argv L entry name utop sz cb cs ebx ecx k = Ret r k'"
    "unat x < unat (heap_start k) \<or> HEAP_END \<le> unat x"
  shows "kmem k' x = kmem k x"
proof -
  let ?hs = "heap_start k" and ?S = "stack_of (tasks k) ` stack_owners (tasks k)"
  have B: "buffers (heap_rep ?hs) (kmem k) ?S (unat (4096 :: u32))" using assms(1) by (simp add: sched_inv_def table_inv_def)
  then obtain L0 where L0: "heap_rep ?hs (kmem k) L0" by (auto simp: buffers_def)
  have new: "m x = kmem k x" "\<exists>n L1. heap_rep ?hs m L1 \<and> (unat a, n) \<in> L1 \<and> 4096 \<le> n"
    if "kmalloc ?hs 4096 (kmem k) = Some (a, m)" "a \<noteq> 0" for a m
    using kmalloc_outside [OF L0 _ that(1) assms(3)] kheap.alloc_fresh [OF L0 _ that] by (simp, auto)
  from create_user_task_cases [OF assms(1), where L = L and entry = entry and name = name and utop = utop
      and sz = sz and cb = cb and cs = cs and ebx = ebx and ecx = ecx]
  show ?thesis
  proof (elim disjE exE conjE)
    fix k1 a m assume c: "create_user_task_argv L entry name utop sz cb cs ebx ecx k = Ret (-1) k1"
      "kmalloc ?hs 4096 (kmem k) = Some (a, m)" "a \<noteq> 0" "k1 = k\<lparr>kmem := kfree a m\<rparr>"
    obtain n L1 where "heap_rep ?hs m L1" "(unat a, n) \<in> L1" using new(2) [OF c(2,3)] by blast
    from kfree_outside [OF this assms(3)] show ?thesis using assms(2) c new(1) [OF c(2,3)] by auto
  next
    fix i a m space p assume c: "kmalloc ?hs 4096 (kmem k) = Some (a, m)" "a \<noteq> 0"
      "create_user_task_argv L entry name utop sz cb cs ebx ecx k =
        Ret (int i) (start_task i a (user_frame entry utop ebx ecx) name space (k\<lparr>kmem := m, kpaging := p\<rparr>))"
    obtain n L1 where n: "heap_rep ?hs m L1" "(unat a, n) \<in> L1" "4096 \<le> n" using new(2) [OF c(1,2)] by blast
    have a: "unat ?hs + 12 \<le> unat a" "unat a + 4096 \<le> HEAP_END" using heap_rep_bounds [OF n(1,2)] n(3) by auto
    then have utop: "unat (a + 4096) = unat a + 4096" using unat_plus_numeral [of a] by simp
    obtain m' e where pw: "push_words (user_frame entry utop ebx ecx) m (a + 4096) = (m', e)"
      by (cases "push_words (user_frame entry utop ebx ecx) m (a + 4096)")
    have "length (user_frame entry utop ebx ecx) * 4 \<le> 4096" by (simp add: user_frame_def)
    then have "m' x = m x"
      using push_words_outside [of "user_frame entry utop ebx ecx" "a + 4096" x m] utop pw a assms(3) by auto
    then show ?thesis using assms(2) c pw new(1) [OF c(1,2)] by (auto simp: start_task_eq)
  qed (use assms(2) in auto)
qed

text \<open>Memory that is not part of the heap's bookkeeping: outside the heap, or inside a live stack.\<close>

definition safe_store :: "kernel \<Rightarrow> mem \<Rightarrow> bool" where
  "safe_store k m' \<longleftrightarrow>
     (\<exists>i \<in> stack_owners (tasks k). \<forall>x. m' x \<noteq> kmem k x \<longrightarrow>
        stack_of (tasks k) i \<le> unat x \<and> unat x < stack_of (tasks k) i + 4096) \<or>
     (\<forall>x. m' x \<noteq> kmem k x \<longrightarrow> unat x < unat (heap_start k) \<or> HEAP_END \<le> unat x)"

lemma safe_store_inv:
  assumes "sched_inv k" "safe_store k m'"
  shows "sched_inv (k\<lparr>kmem := m'\<rparr>)"
proof -
  let ?S = "stack_of (tasks k) ` stack_owners (tasks k)" and ?hs = "heap_start k"
  have b: "buffers (heap_rep ?hs) (kmem k) ?S 4096" using assms(1) by (simp add: sched_inv_def table_inv_def)
  have "buffers (heap_rep ?hs) m' ?S 4096"
    using assms(2) unfolding safe_store_def
  proof (elim disjE bexE)
    fix i assume i: "i \<in> stack_owners (tasks k)" and *: "\<forall>x. m' x \<noteq> kmem k x \<longrightarrow>
      stack_of (tasks k) i \<le> unat x \<and> unat x < stack_of (tasks k) i + 4096"
    show ?thesis
      by (rule kheap.buffers_write [OF b, of "stack_of (tasks k) i"]) (use i * in \<open>auto simp: not_less [symmetric]\<close>)
  next
    assume "\<forall>x. m' x \<noteq> kmem k x \<longrightarrow> unat x < unat ?hs \<or> HEAP_END \<le> unat x"
    then show ?thesis using b heap_rep_outside [of ?hs "kmem k" _ m'] by (auto simp: buffers_def)
  qed
  then show ?thesis using assms(1) by (auto simp: sched_inv_def table_inv_def)
qed

lemma ipc_recv_inv:
  assumes "sched_inv k" "ipc_recv out out_len out_sender k = (r, k')" "safe_store k (kmem k')"
  shows "sched_inv k'"
proof -
  obtain v t where g: "mailbox_get (cur k) = (v, t)" by (cases "mailbox_get (cur k)")
  show ?thesis
  proof (cases v)
    case None
    then show ?thesis using g assms by (simp add: ipc_recv_def ipc_recv_msg_def)
  next
    case (Some msg)
    obtain bytes len sender where msg: "msg = (bytes, len, sender)" by (cases msg)
    have k': "k' = upd_task (current_task k) (\<lambda>_. t) (k\<lparr>kmem := kmem k'\<rparr>)"
      using assms(2) g Some msg by (auto simp: ipc_recv_def ipc_recv_msg_def upd_task_def Let_def)
    have "sched_inv (upd_task (current_task k) (\<lambda>_. t) (k\<lparr>kmem := kmem k'\<rparr>))"
      by (rule upd_task_inv [OF safe_store_inv [OF assms(1,3)]]) (use mailbox_get_fields [OF g] in auto)
    then show ?thesis using k' by simp
  qed
qed

subsection \<open>Reachable states\<close>

text \<open>The entry points of \<open>sched.c\<close> as steps, in any order and with any arguments. \<open>store\<close> is the running
  task writing memory, and \<open>recv\<close> delivers to a buffer; both stay clear of the heap's headers.\<close>

inductive kstep :: "layout \<Rightarrow> kernel \<Rightarrow> kernel \<Rightarrow> bool" for L where
  tick: "schedule L e k = Ret r k' \<Longrightarrow> kstep L k k'"
| exit_call: "task_exit_and_reschedule L e k = Ret r k' \<Longrightarrow> kstep L k k'"
| exit_direct: "kstep L k (task_exit k)"
| sleep_call: "task_sleep_and_reschedule L ms e k = Ret r k' \<Longrightarrow> kstep L k k'"
| sleep_direct: "kstep L k (task_sleep ms k)"
| kill: "task_kill pid k = (ok, k') \<Longrightarrow> kstep L k k'"
| create: "create_task L entry name k = Ret pid k' \<Longrightarrow> kstep L k k'"
| create_user: "create_user_task_argv L entry name utop sz cb cs ebx ecx k = Ret pid k' \<Longrightarrow> kstep L k k'"
| set_priority: "kstep L k (task_set_priority pid prio k)"
| send: "ipc_send pid data len k = (r, k') \<Longrightarrow> kstep L k k'"
| recv: "ipc_recv out out_len out_sender k = (r, k') \<Longrightarrow> safe_store k (kmem k') \<Longrightarrow> kstep L k k'"
| store: "safe_store k m' \<Longrightarrow> kstep L k (k\<lparr>kmem := m'\<rparr>)"

inductive reachable :: "layout \<Rightarrow> mem \<Rightarrow> kernel \<Rightarrow> bool" for L m where
  boot: "reachable L m (boot_kernel L m)"
| step: "reachable L m k \<Longrightarrow> kstep L k k' \<Longrightarrow> reachable L m k'"

inductive_cases kstepE: "kstep L k k'"

lemma exit_call_inv:
  assumes "sched_inv k" "task_exit_and_reschedule L e k = Ret r k'"
  shows "sched_inv k'"
  using assms(2) schedule_inv [OF exit_block_inv [OF assms(1)]]
  by (auto simp: task_exit_and_reschedule_def Let_def split: if_splits)

lemma kstep_inv: "kstep L k k' \<Longrightarrow> sched_inv k \<Longrightarrow> sched_inv k'"
proof (induction rule: kstep.induct)
  case (exit_direct k)
  then show ?case using exit_block_inv by (simp add: task_exit_def task_exit_current_def)
next
  case (sleep_call ms e k r k')
  then show ?case using schedule_inv [OF set_sleep_inv] by (simp add: task_sleep_and_reschedule_def)
qed (auto intro: schedule_inv exit_call_inv set_sleep_inv task_kill_inv create_task_inv create_user_task_inv
    set_priority_inv ipc_send_inv ipc_recv_inv safe_store_inv simp: task_sleep_def)

lemma boot_inv: "sched_inv (boot_kernel L m)"
proof -
  let ?ts = "tasks (boot_kernel L m)"
  have live: "live_tasks ?ts = {0}" by (auto simp: live_tasks_def boot_kernel_tasks init_blank_task)
  then have "stack_owners ?ts = {}" "space_owners ?ts = {}"
    by (auto simp: stack_owners_def space_owners_def boot_kernel_tasks init_blank_task)
  moreover have "used_spaces (paging_init L blank_paging) = {}"
    by (simp add: used_spaces_def paging_init_def blank_paging_def)
  moreover have "mbox_ok (?ts i)" if "i < 16" for i
    using that by (auto simp: boot_kernel_tasks init_task_def mbox_ok_def mailbox_reset_def blank_task_def fold_upd)
  ultimately show ?thesis using live boot_heap_rep [of m]
    by (auto simp: sched_inv_def table_inv_def owned_def buffers_def)
qed

lemma reachable_inv: "reachable L m k \<Longrightarrow> sched_inv k"
  by (induction rule: reachable.induct) (auto intro: boot_inv kstep_inv)

subsection \<open>What the operations leave alone\<close>

text \<open>The bytes of the kernel stack of every live task of \<open>k\<close> other than \<open>pid\<close> are the same in \<open>m'\<close>.\<close>

definition stacks_kept :: "kernel \<Rightarrow> nat set \<Rightarrow> mem \<Rightarrow> bool" where
  "stacks_kept k X m' \<longleftrightarrow>
     (\<forall>i x. i \<in> stack_owners (tasks k) \<and> i \<notin> X \<and> stack_of (tasks k) i \<le> unat x \<and>
        unat x < stack_of (tasks k) i + 4096 \<longrightarrow> m' x = kmem k x)"

lemma inv_buffers:
  "sched_inv k \<Longrightarrow> buffers (heap_rep (heap_start k)) (kmem k) (stack_of (tasks k) ` stack_owners (tasks k)) 4096"
  by (simp add: sched_inv_def table_inv_def)

lemma start_task_kept:
  assumes "sched_inv k" "kmalloc (heap_start k) 4096 (kmem k) = Some (a, m)" "a \<noteq> 0"
    "push_words frame m (a + 4096) = (m', e)" "4 * length frame \<le> 4096"
  shows "stacks_kept k X m'" and "unat (a + 4096) = unat a + 4096"
proof -
  let ?S = "stack_of (tasks k) ` stack_owners (tasks k)"
  have B: "buffers (heap_rep (heap_start k)) (kmem k) ?S (unat (4096 :: u32))"
    using inv_buffers [OF assms(1)] by simp
  from kheap.buffers_alloc [OF B] assms(2,3) have b: "unat a \<notin> ?S"
    "buffers (heap_rep (heap_start k)) m (insert (unat a) ?S) 4096" by auto
  show utop: "unat (a + 4096) = unat a + 4096"
    using kheap.buffers_bounds [OF b(2)] unat_plus_numeral [of a] by auto
  show "stacks_kept k X m'" unfolding stacks_kept_def
  proof (intro allI impI, elim conjE)
    fix i and x :: u32
    assume x: "i \<in> stack_owners (tasks k)" "stack_of (tasks k) i \<le> unat x" "unat x < stack_of (tasks k) i + 4096"
    have "m x = kmem k x" using kheap.buffers_alloc_frame [OF B _ assms(2), of "stack_of (tasks k) i" x] x by auto
    moreover have S: "stack_of (tasks k) i \<in> ?S" using x(1) by simp
    then have "stack_of (tasks k) i \<noteq> unat a" using b(1) by metis
    then have "stack_of (tasks k) i + 4096 \<le> unat a \<or> unat a + 4096 \<le> stack_of (tasks k) i"
      using kheap.buffers_separate [OF b(2)] S by blast
    then have "m' x = m x"
      using push_words_outside [of frame "a + 4096" x m] x utop assms(4,5) by auto
    ultimately show "m' x = kmem k x" by simp
  qed
qed

lemma end_task_kept:
  assumes "sched_inv k" "pid < 16" "active (tasks k pid)"
  shows "stacks_kept k {pid} (kmem (end_task pid k))"
proof -
  have "kfree (stack_base (tasks k pid)) (kmem k) x = kmem k x"
    if "stack_base (tasks k pid) \<noteq> 0" "i \<in> stack_owners (tasks k)" "stack_of (tasks k) i \<le> unat x"
      "unat x < stack_of (tasks k) i + 4096" for i x
    by (rule kheap.buffers_free_frame [OF inv_buffers [OF assms(1)], of _ "stack_of (tasks k) i"])
      (use that assms in \<open>auto simp: stack_of_def stack_owners_def live_tasks_def\<close>)
  then show ?thesis by (auto simp: stacks_kept_def end_task_eq Let_def)
qed

subsection \<open>Properties\<close>

text \<open>
  C6. In every state that the scheduler's entry points can reach from
  boot: \<open>task_count\<close> is the number of active tasks; the allocated heap blocks are exactly the kernel
  stacks of active tasks, so nothing leaks; two tasks never share a byte of kernel stack; and the
  address spaces in use are exactly those of active ring-3 tasks, one each.
\<close>

theorem task_resources_exclusive:
  assumes "reachable L m k"
  shows "current_task k < 16 \<and> task_count k = card (live_tasks (tasks k)) \<and>
    buffers (heap_rep (heap_start k)) (kmem k) (stack_of (tasks k) ` stack_owners (tasks k)) 4096 \<and>
    (\<forall>i j. i \<in> stack_owners (tasks k) \<and> j \<in> stack_owners (tasks k) \<and> i \<noteq> j \<longrightarrow>
      stack_of (tasks k) i + 4096 \<le> stack_of (tasks k) j \<or> stack_of (tasks k) j + 4096 \<le> stack_of (tasks k) i) \<and>
    (\<lambda>i. addr_space (tasks k i)) ` space_owners (tasks k) = used_spaces (kpaging k) \<and>
    inj_on (\<lambda>i. addr_space (tasks k i)) (space_owners (tasks k))"
proof -
  note inv = reachable_inv [OF assms]
  then have i: "table_inv (tasks k) (task_count k) (heap_start k) (kmem k) (kpaging k)" "current_task k < 16"
    by (simp_all add: sched_inv_def)
  have "stack_of (tasks k) i + 4096 \<le> stack_of (tasks k) j \<or> stack_of (tasks k) j + 4096 \<le> stack_of (tasks k) i"
    if "i \<in> stack_owners (tasks k)" "j \<in> stack_owners (tasks k)" "i \<noteq> j" for i j
    by (rule kheap.buffers_separate [OF inv_buffers [OF inv]])
      (use that i in \<open>auto simp: table_inv_def inj_on_def\<close>)
  then show ?thesis using i by (auto simp: table_inv_def owned_def)
qed

lemma boot_create_stack:
  "\<exists>k'. create_task L entry name (boot_kernel L m) = Ret 1 k' \<and> stack_base (tasks k' 1) = 0x10000C \<and>
    active (tasks k' 1)"
proof -
  obtain m' where m': "kmalloc 0x100000 0x1000 (boot_heap m) = Some (0x10000C, m')" using boot_heap_alloc by blast
  obtain m2 e where pw: "push_words (kernel_frame L entry) m' (0x10000C + 4096) = (m2, e)"
    by (cases "push_words (kernel_frame L entry) m' (0x10000C + 4096)")
  have "free_slot (boot_kernel L m) = Some 1"
    by (simp add: free_slot_def boot_kernel_tasks init_blank_task upt_rec)
  with m' have "create_task L entry name (boot_kernel L m) =
      Ret 1 (start_task 1 0x10000C (kernel_frame L entry) name (-1) ((boot_kernel L m)\<lparr>kmem := m'\<rparr>))"
    by (simp add: create_task_def Let_def)
  then show ?thesis using start_task_eq [of "kernel_frame L entry" "(boot_kernel L m)\<lparr>kmem := m'\<rparr>" "0x10000C" m2 e] pw
    by simp
qed

lemma boot_create: "\<exists>k'. create_task L entry name (boot_kernel L m) = Ret 1 k'"
  using boot_create_stack by blast

theorem task_resources_exclusive_witness:
  "\<exists>k'. create_task example_layout 0x9400 0xF010 (boot_kernel example_layout (\<lambda>_. 0)) = Ret 1 k' \<and>
    task_count k' = card (live_tasks (tasks k'))"
proof -
  obtain k' where k': "create_task example_layout 0x9400 0xF010 (boot_kernel example_layout (\<lambda>_. 0)) = Ret 1 k'"
    using boot_create by blast
  then have "reachable example_layout (\<lambda>_. 0) k'" by (blast intro: reachable.intros kstep.create)
  from task_resources_exclusive [OF this] k' show ?thesis by blast
qed

text \<open>
  Remark. A successful \<open>create_task\<close> takes a free slot and nothing else: the other
  tasks and the bytes of their kernel stacks are as before. When the new task is first dispatched,
  \<open>popal; iret\<close> on its saved stack pointer starts \<open>entry\<close> in ring 0 with interrupts enabled and
  cleared registers, on the last word of its own stack, where the return address is \<open>task_exit\<close>.
\<close>

theorem create_task_starts:
  assumes "sched_inv k" "create_task L entry name k = Ret pid k'" "pid \<noteq> -1"
  shows "\<exists>i < 16. pid = int i \<and> \<not> active (tasks k i) \<and>
    (let t = tasks k' i in
      active t \<and> \<not> sleeping t \<and> tname t = name \<and> addr_space t = -1 \<and> mbox_items t = [] \<and>
      resume (kmem k') (esp t) = \<lparr>r_edi = 0, r_esi = 0, r_ebp = 0, r_ebx = 0, r_edx = 0, r_ecx = 0, r_eax = 0,
        r_eip = entry, r_cs = 0x08, r_eflags = 0x202, r_esp = stack_base t + 4092, r_ss = 0x10\<rparr> \<and>
      rd32 (kmem k') (stack_base t + 4092) = task_exit_at L) \<and>
    (\<forall>j. j \<noteq> i \<longrightarrow> tasks k' j = tasks k j) \<and> stacks_kept k {} (kmem k')"
  using create_task_cases [OF assms(1), of L entry name]
proof (elim disjE exE conjE)
  fix i a m assume *: "free_slot k = Some i" "kmalloc (heap_start k) 4096 (kmem k) = Some (a, m)" "a \<noteq> 0"
    "create_task L entry name k = Ret (int i) (start_task i a (kernel_frame L entry) name (-1) (k\<lparr>kmem := m\<rparr>))"
  obtain m' e where pw: "push_words (kernel_frame L entry) m (a + 4096) = (m', e)"
    by (cases "push_words (kernel_frame L entry) m (a + 4096)")
  have len: "4 * length (kernel_frame L entry) \<le> 4096" by (simp add: kernel_frame_def)
  note kept = start_task_kept [OF assms(1) *(2,3) pw len]
  have "a + 4096 - 4 = a + 4092" by simp
  with kernel_frame_resume [OF pw] kept(2) have "resume m' e = \<lparr>r_edi = 0, r_esi = 0, r_ebp = 0, r_ebx = 0,
      r_edx = 0, r_ecx = 0, r_eax = 0, r_eip = entry, r_cs = 0x08, r_eflags = 0x202, r_esp = a + 4092,
      r_ss = 0x10\<rparr> \<and> rd32 m' (a + 4092) = task_exit_at L" by simp
  then show ?thesis
    using *(4) assms(2) pw kept(1) free_slot_Some [OF *(1)] start_task_eq [of "kernel_frame L entry" "k\<lparr>kmem := m\<rparr>" a m' e]
    by (intro exI [of _ i]) (auto simp: Let_def mbox_reset_items)
qed (use assms in auto)

theorem create_task_starts_witness:
  "\<exists>k'. create_task example_layout 0x9400 0xF010 (boot_kernel example_layout (\<lambda>_. 0)) = Ret 1 k' \<and>
    r_eip (resume (kmem k') (esp (tasks k' 1))) = 0x9400"
proof -
  obtain k' where k': "create_task example_layout 0x9400 0xF010 (boot_kernel example_layout (\<lambda>_. 0)) = Ret 1 k'"
    using boot_create by blast
  from create_task_starts [OF boot_inv k'] k' show ?thesis by (auto simp: Let_def)
qed


lemma created_user_task:
  assumes "sched_inv k"
    "create_user_task_argv L entry name user_stack_top user_stack_size code_base code_size ebx ecx k = Ret pid k'"
    "pid \<noteq> -1"
  shows "\<exists>i < 16. pid = int i \<and> \<not> active (tasks k i) \<and>
    (let t = tasks k' i in
      active t \<and> \<not> sleeping t \<and> tname t = name \<and> 0 \<le> addr_space t \<and> addr_space t < 6 \<and>
      addr_space t \<notin> used_spaces (kpaging k) \<and>
      space_set L (kpaging k') (nat (addr_space t)) code_base code_size (user_stack_top - user_stack_size)
        user_stack_size \<and>
      resume (kmem k') (esp t) = \<lparr>r_edi = 0, r_esi = 0, r_ebp = 0, r_ebx = ebx, r_edx = 0, r_ecx = ecx,
        r_eax = 0, r_eip = entry, r_cs = 0x1B, r_eflags = 0x202, r_esp = user_stack_top, r_ss = 0x23\<rparr>) \<and>
    (\<forall>j. j \<noteq> i \<longrightarrow> tasks k' j = tasks k j) \<and> stacks_kept k {} (kmem k')"
  using create_user_task_cases [OF assms(1), where L = L and entry = entry and name = name
      and utop = user_stack_top and sz = user_stack_size and cb = code_base and cs = code_size
      and ebx = ebx and ecx = ecx]
proof (elim disjE exE conjE)
  let ?frame = "user_frame entry user_stack_top ebx ecx"
  fix i a m space p
  assume *: "free_slot k = Some i" "kmalloc (heap_start k) 4096 (kmem k) = Some (a, m)" "a \<noteq> 0"
    "create_space L (code_base, code_size, user_stack_top - user_stack_size, user_stack_size) (kpaging k) = (space, p)"
    "0 \<le> space"
    "create_user_task_argv L entry name user_stack_top user_stack_size code_base code_size ebx ecx k =
        Ret (int i) (start_task i a ?frame name space (k\<lparr>kmem := m, kpaging := p\<rparr>))"
  obtain m' e where pw: "push_words ?frame m (a + 4096) = (m', e)" by (cases "push_words ?frame m (a + 4096)")
  have len: "4 * length ?frame \<le> 4096" by (simp add: user_frame_def)
  note kept = start_task_kept [OF assms(1) *(2,3) pw len]
  note r = user_frame_resume [OF pw]
  have "paging_create_task_directory_ex L code_base code_size (user_stack_top - user_stack_size) user_stack_size
      (kpaging k) = (space, p)" using *(4) by (simp add: create_space_def)
  from create_cases [OF this] *(5) have s: "space_set L p (nat space) code_base code_size
      (user_stack_top - user_stack_size) user_stack_size" by auto
  have f: "space < 6 \<and> space \<notin> used_spaces (kpaging k)" using spaces.acquire_fresh [OF *(4)] *(5) by simp
  have k': "k' = k\<lparr>kmem := m', kpaging := p, task_count := task_count k + 1,
      tasks := (tasks k)(i := mailbox_reset ((tasks k i)\<lparr>stack_base := a, sleeping := False, wake_tick := 0,
        esp := e, active := True, tname := name, addr_space := space, priority := 0\<rparr>))\<rparr>" "pid = int i"
    using *(6) assms(2) start_task_eq [of ?frame "k\<lparr>kmem := m, kpaging := p\<rparr>" a m' e] pw by simp_all
  show ?thesis
    by (rule exI [of _ i]) (use free_slot_Some [OF *(1)] *(5) kept r s f in \<open>simp add: k' Let_def\<close>)
qed (use assms in auto)

text \<open>
  C13. A successful \<open>create_user_task_argv\<close> gives the new task an address
  space that no task had, leaves the other tasks and their kernel stacks alone, and its first
  dispatch enters \<open>entry\<close> in ring 3 (CS 0x1B, SS 0x23) with interrupts enabled, on the top of the
  user stack, with EBX and ECX holding the arguments and all other registers cleared.
\<close>

theorem create_user_task_starts:
  assumes "sched_inv k"
    "create_user_task_argv L entry name user_stack_top user_stack_size code_base code_size ebx ecx k = Ret pid k'"
    "pid \<noteq> -1"
  shows "\<exists>i < 16. pid = int i \<and> \<not> active (tasks k i) \<and>
    (let t = tasks k' i in
      active t \<and> \<not> sleeping t \<and> tname t = name \<and> 0 \<le> addr_space t \<and> addr_space t < 6 \<and>
      addr_space t \<notin> used_spaces (kpaging k) \<and>
      space_set L (kpaging k') (nat (addr_space t)) code_base code_size (user_stack_top - user_stack_size)
        user_stack_size \<and>
      resume (kmem k') (esp t) = \<lparr>r_edi = 0, r_esi = 0, r_ebp = 0, r_ebx = ebx, r_edx = 0, r_ecx = ecx,
        r_eax = 0, r_eip = entry, r_cs = 0x1B, r_eflags = 0x202, r_esp = user_stack_top, r_ss = 0x23\<rparr>) \<and>
    (\<forall>j. j \<noteq> i \<longrightarrow> tasks k' j = tasks k j) \<and> stacks_kept k {} (kmem k')"
  by (rule created_user_task [OF assms])

lemma boot_create_user:
  "\<exists>k'. create_user_task_argv L entry name utop sz cb cs ebx ecx (boot_kernel L m) = Ret 1 k'"
proof -
  obtain m' where "kmalloc 0x100000 0x1000 (boot_heap m) = Some (0x10000C, m')" using boot_heap_alloc by blast
  moreover have "free_slot (boot_kernel L m) = Some 1"
    by (simp add: free_slot_def boot_kernel_tasks init_blank_task upt_rec)
  moreover obtain p where "paging_create_task_directory_ex L cb cs (utop - sz) sz (paging_init L blank_paging) = (0, p)"
    by (simp add: paging_create_task_directory_ex_def paging_init_def blank_paging_def upt_rec)
  ultimately show ?thesis by (simp add: create_user_task_argv_def Let_def)
qed

theorem create_user_task_starts_witness:
  "\<exists>k'. create_user_task_argv example_layout 0x9500 0xF020 0x21010 0x1000 0 0 2 0x20FF0
      (boot_kernel example_layout (\<lambda>_. 0)) = Ret 1 k' \<and>
    r_ebx (resume (kmem k') (esp (tasks k' 1))) = 2 \<and> r_cs (resume (kmem k') (esp (tasks k' 1))) = 0x1B"
proof -
  obtain k' where k': "create_user_task_argv example_layout 0x9500 0xF020 0x21010 0x1000 0 0 2 0x20FF0
      (boot_kernel example_layout (\<lambda>_. 0)) = Ret 1 k'" using boot_create_user by blast
  from create_user_task_starts [OF boot_inv k'] k' show ?thesis by (auto simp: Let_def)
qed

text \<open>A stack that is given back at once.\<close>

lemma stack_returned:
  assumes "sched_inv k" "kmalloc (heap_start k) 4096 (kmem k) = Some (a, m)" "a \<noteq> 0"
  shows "buffers (heap_rep (heap_start k)) (kfree a m) (stack_of (tasks k) ` stack_owners (tasks k)) 4096"
    and "stacks_kept k X (kfree a m)"
proof -
  let ?S = "stack_of (tasks k) ` stack_owners (tasks k)"
  have B: "buffers (heap_rep (heap_start k)) (kmem k) ?S (unat (4096 :: u32))"
    using inv_buffers [OF assms(1)] by simp
  from kheap.buffers_alloc [OF B] assms(2,3) have b: "unat a \<notin> ?S"
    "buffers (heap_rep (heap_start k)) m (insert (unat a) ?S) 4096" by auto
  have "buffers (heap_rep (heap_start k)) (kfree a m) (insert (unat a) ?S - {unat a}) 4096"
    by (rule kheap.buffers_free [OF b(2)]) simp
  then show "buffers (heap_rep (heap_start k)) (kfree a m) ?S 4096" using b(1) by simp
  have "kfree a m x = kmem k x" if "i \<in> stack_owners (tasks k)" "stack_of (tasks k) i \<le> unat x"
    "unat x < stack_of (tasks k) i + 4096" for i x
    using kheap.buffers_alloc_frame [OF B _ assms(2), of "stack_of (tasks k) i" x]
      kheap.buffers_free_frame [OF b(2), of a "stack_of (tasks k) i" x] that by simp
  then show "stacks_kept k X (kfree a m)" by (auto simp: stacks_kept_def)
qed

lemma refused_creation:
  assumes "sched_inv k"
  shows "\<exists>pid k'. create_user_task_argv L entry name user_stack_top user_stack_size code_base code_size ebx ecx k
      = Ret pid k' \<and>
    (pid = -1 \<longrightarrow> tasks k' = tasks k \<and> task_count k' = task_count k \<and> kpaging k' = kpaging k \<and>
      k' = k\<lparr>kmem := kmem k'\<rparr> \<and>
      buffers (heap_rep (heap_start k)) (kmem k') (stack_of (tasks k) ` stack_owners (tasks k)) 4096 \<and>
      stacks_kept k {} (kmem k') \<and>
      (task_count k \<ge> 16 \<or> kmalloc (heap_start k) 4096 (kmem k) = Some (0, kmem k) \<or>
        used_spaces (kpaging k) = {0..<6}))"
  using create_user_task_cases [OF assms, where L = L and entry = entry and name = name
      and utop = user_stack_top and sz = user_stack_size and cb = code_base and cs = code_size
      and ebx = ebx and ecx = ecx]
proof (elim disjE exE conjE, goal_cases)
  case (1 k')
  then show ?case using inv_buffers [OF assms] by (auto simp: stacks_kept_def)
next
  case (2 k')
  then show ?case using inv_buffers [OF assms] by (auto simp: stacks_kept_def)
next
  case (3 k' a m)
  note stack_returned [OF assms 3(2,3)]
  moreover have "used_spaces (kpaging k) = {0..<6}" using 3(4) by (auto simp: used_spaces_def)
  ultimately show ?case using 3 by simp
next
  case (4 i a m space p)
  then show ?case by auto
qed

text \<open>
  C19. A refused \<open>create_user_task_argv\<close> has no effect: no task, no address
  space and no heap block is taken (a stack allocated before the address spaces run out is given
  back), no kernel stack changes, and no byte of memory outside the heap. It always returns, and
  refuses only when all 16 task slots, the heap or all 6 address spaces are exhausted. (The witness is a kernel whose
  six address spaces are taken.)
\<close>

theorem create_user_task_refused:
  assumes "sched_inv k"
  shows "\<exists>pid k'. create_user_task_argv L entry name user_stack_top user_stack_size code_base code_size ebx ecx k
      = Ret pid k' \<and>
    (pid = -1 \<longrightarrow> tasks k' = tasks k \<and> task_count k' = task_count k \<and> kpaging k' = kpaging k \<and>
      k' = k\<lparr>kmem := kmem k'\<rparr> \<and>
      buffers (heap_rep (heap_start k)) (kmem k') (stack_of (tasks k) ` stack_owners (tasks k)) 4096 \<and>
      stacks_kept k {} (kmem k') \<and> (\<forall>x. unat x < unat (heap_start k) \<or> HEAP_END \<le> unat x \<longrightarrow> kmem k' x = kmem k x) \<and>
      (task_count k \<ge> 16 \<or> kmalloc (heap_start k) 4096 (kmem k) = Some (0, kmem k) \<or>
        used_spaces (kpaging k) = {0..<6}))"
proof -
  obtain pid k' where "create_user_task_argv L entry name user_stack_top user_stack_size code_base code_size ebx ecx k = Ret pid k'"
    using refused_creation [OF assms] by blast
  from refused_creation [OF assms, of L entry name user_stack_top user_stack_size code_base code_size ebx ecx]
    create_user_task_outside [OF assms this] this show ?thesis by auto
qed

text \<open>The boot kernel with six more tasks, which hold the six address spaces.\<close>

definition crowded_kernel :: "layout \<Rightarrow> kernel" where
  "crowded_kernel L =
     (boot_kernel L (\<lambda>_. 0))\<lparr>tasks := (\<lambda>i. if i \<in> {1..6} then (tasks (boot_kernel L (\<lambda>_. 0)) i)\<lparr>active := True, addr_space := int i - 1\<rparr>
         else tasks (boot_kernel L (\<lambda>_. 0)) i),
       task_count := 7, kpaging := (paging_init L blank_paging)\<lparr>task_dir_used := (\<lambda>i. i < 6)\<rparr>\<rparr>"

lemma crowded_inv: "sched_inv (crowded_kernel L)"
proof -
  let ?k = "crowded_kernel L" and ?b = "boot_kernel L (\<lambda>_. 0)"
  have live: "live_tasks (tasks ?k) = {0..6}"
    by (auto simp: live_tasks_def crowded_kernel_def boot_kernel_tasks init_blank_task)
  have "stack_owners (tasks ?k) = {}"
    unfolding stack_owners_def live by (auto simp: crowded_kernel_def boot_kernel_tasks init_blank_task)
  moreover have own: "space_owners (tasks ?k) = {1..6}"
    unfolding space_owners_def live by (auto simp: crowded_kernel_def boot_kernel_tasks init_blank_task)
  moreover have "owned (used_spaces (kpaging ?k)) {1..6} (\<lambda>i. addr_space (tasks ?k i))"
  proof -
    have "(\<lambda>i. addr_space (tasks ?k i)) ` {1..6} = (\<lambda>i. int i - 1) ` {1..6}" by (rule image_cong) (simp_all add: crowded_kernel_def)
    moreover have "(\<lambda>i. int i - 1) ` {1..6 :: nat} = {0..<6}"
    proof (intro equalityI subsetI)
      fix x :: int assume "x \<in> {0..<6}"
      then have "x = int (nat x + 1) - 1" "nat x + 1 \<in> {1..6}" by auto
      then show "x \<in> (\<lambda>i. int i - 1) ` {1..6 :: nat}" by (rule image_eqI)
    qed auto
    moreover have "used_spaces (kpaging ?k) = {0..<6}" by (auto simp: used_spaces_def crowded_kernel_def)
    moreover have "inj_on (\<lambda>i. addr_space (tasks ?k i)) {1..6}" by (auto simp: inj_on_def crowded_kernel_def)
    ultimately show ?thesis by (simp add: owned_def)
  qed
  moreover have "mbox_ok (tasks ?k i)" if "i < 16" for i
    using that boot_inv [of L "\<lambda>_. 0"] by (auto simp: crowded_kernel_def sched_inv_def table_inv_def mbox_ok_def)
  ultimately show ?thesis using live boot_heap_rep [of "\<lambda>_. 0"]
    by (auto simp: sched_inv_def table_inv_def buffers_def crowded_kernel_def)
qed

theorem create_user_task_refused_witness:
  "\<exists>k'. create_user_task_argv example_layout 0x9500 0xF020 0x21010 0x1000 0 0 0 0 (crowded_kernel example_layout) = Ret (-1) k' \<and>
    tasks k' = tasks (crowded_kernel example_layout) \<and> task_count k' = 7 \<and> used_spaces (kpaging k') = {0..<6}"
proof -
  let ?k = "crowded_kernel example_layout"
  obtain m' where "kmalloc 0x100000 0x1000 (boot_heap (\<lambda>_. 0)) = Some (0x10000C, m')" using boot_heap_alloc by blast
  moreover have "free_slot ?k = Some 7"
    by (simp add: free_slot_def crowded_kernel_def boot_kernel_tasks init_blank_task upt_rec)
  moreover have "paging_create_task_directory_ex example_layout 0 0 0x20010 0x1000 (kpaging ?k) = (-1, kpaging ?k)"
    by (simp add: paging_create_task_directory_ex_def crowded_kernel_def upt_rec)
  ultimately have r: "\<exists>k'. create_user_task_argv example_layout 0x9500 0xF020 0x21010 0x1000 0 0 0 0 ?k = Ret (-1) k'"
    by (simp add: create_user_task_argv_def Let_def) (simp add: crowded_kernel_def)
  have "task_count ?k = 7" "used_spaces (kpaging ?k) = {0..<6}" by (auto simp: crowded_kernel_def used_spaces_def)
  moreover obtain k' where k': "create_user_task_argv example_layout 0x9500 0xF020 0x21010 0x1000 0 0 0 0 ?k = Ret (-1) k'" using r by blast
  moreover have "tasks k' = tasks ?k \<and> task_count k' = task_count ?k \<and> kpaging k' = kpaging ?k"
    using create_user_task_refused [OF crowded_inv [of example_layout], of example_layout "0x9500" "0xF020" "0x21010" "0x1000" 0 0 0 0]
    unfolding k' by blast
  ultimately show ?thesis by (intro exI [of _ k']) simp
qed

lemma end_task_memory:
  assumes "sched_inv k" "pid < 16" "active (tasks k pid)" "kmem (end_task pid k) x \<noteq> kmem k x"
  shows "pid \<in> stack_owners (tasks k) \<and> stack_of (tasks k) pid - 12 \<le> unat x \<and> unat x < stack_of (tasks k) pid"
proof -
  let ?p = "stack_base (tasks k pid)"
  have p: "?p \<noteq> 0" "kfree ?p (kmem k) x \<noteq> kmem k x" using assms(4) by (auto simp: end_task_eq Let_def split: if_splits)
  then have own: "pid \<in> stack_owners (tasks k)" using assms(2,3) by (simp add: stack_owners_def live_tasks_def)
  obtain B where B: "heap_rep (heap_start k) (kmem k) B" "fst ` B = stack_of (tasks k) ` stack_owners (tasks k)"
    using inv_buffers [OF assms(1)] by (auto simp: buffers_def)
  then obtain n where "(unat ?p, n) \<in> B" using own by (force simp: stack_of_def)
  from heap_rep_bounds [OF B(1) this] B(1) have b: "0 < unat ?p - 12" "unat ?p - 12 + 12 = unat ?p"
    by (auto simp: heap_rep_def heap_inv_def)
  have "unat ?p < 2 ^ 32" using unsigned_less [of ?p, where 'a = nat] by simp
  with kfree_frame [of "unat ?p - 12" x "kmem k"] b p(2) have "\<not> (unat x < unat ?p - 12 \<or> unat ?p \<le> unat x)" by auto
  with own show ?thesis by (simp add: stack_of_def not_less)
qed

text \<open>
  C17. \<open>task_kill\<close> succeeds exactly on an active task other than the caller, and is without effect
  otherwise. On success it ends that task alone: its kernel stack and its address space are given back, its
  mailbox is emptied, the task count drops by one and the invariant holds. Nothing else changes: no other task, no
  other field of the kernel (current task, timer, descriptor tables, CR3, screen), no page table of any address space, and in memory only the 12 bytes of
  the header of the block that is given back.
\<close>

theorem task_kill_effect:
  assumes "sched_inv k"
  shows "\<exists>ok k'. task_kill pid k = (ok, k') \<and>
    (ok \<longleftrightarrow> 0 \<le> pid \<and> pid < 16 \<and> active (tasks k (nat pid)) \<and> nat pid \<noteq> current_task k) \<and>
    (\<not> ok \<longrightarrow> k' = k) \<and>
    (ok \<longrightarrow> \<not> active (tasks k' (nat pid)) \<and> (\<forall>j. j \<noteq> nat pid \<longrightarrow> tasks k' j = tasks k j) \<and>
      live_tasks (tasks k') = live_tasks (tasks k) - {nat pid} \<and> task_count k' = task_count k - 1 \<and>
      stack_owners (tasks k') = stack_owners (tasks k) - {nat pid} \<and>
      buffers (heap_rep (heap_start k)) (kmem k') (stack_of (tasks k) ` (stack_owners (tasks k) - {nat pid})) 4096 \<and>
      used_spaces (kpaging k') = used_spaces (kpaging k) -
        (if addr_space (tasks k (nat pid)) \<ge> 0 then {addr_space (tasks k (nat pid))} else {}) \<and>
      mbox_items (tasks k' (nat pid)) = [] \<and> stacks_kept k {nat pid} (kmem k') \<and> sched_inv k' \<and>
      k' = k\<lparr>kmem := kmem k', kpaging := kpaging k', tasks := tasks k', task_count := task_count k'\<rparr> \<and>
      kpaging k' = (kpaging k)\<lparr>task_dir_used := task_dir_used (kpaging k')\<rparr> \<and>
      (\<forall>x. kmem k' x \<noteq> kmem k x \<longrightarrow> nat pid \<in> stack_owners (tasks k) \<and>
        stack_of (tasks k) (nat pid) - 12 \<le> unat x \<and> unat x < stack_of (tasks k) (nat pid)))"
proof -
  obtain ok k' where r: "task_kill pid k = (ok, k')" by (cases "task_kill pid k")
  have ok: "ok \<longleftrightarrow> 0 \<le> pid \<and> pid < 16 \<and> active (tasks k (nat pid)) \<and> nat pid \<noteq> current_task k"
    using r by (auto simp: task_kill_def valid_pid_def split: if_splits)
  show ?thesis
  proof (cases ok)
    case False
    then have "k' = k" using r by (auto simp: task_kill_def split: if_splits)
    with False r ok show ?thesis by auto
  next
    case True
    define t' where "t' = mailbox_reset ((tasks k (nat pid))\<lparr>active := False, sleeping := False, stack_base := 0,
      addr_space := (if addr_space (tasks k (nat pid)) \<ge> 0 then -1 else addr_space (tasks k (nat pid)))\<rparr>)"
    have k': "k' = upd_task (nat pid) mailbox_reset (end_task (nat pid) k)"
      using r True by (auto simp: task_kill_def split: if_splits)
    have t: "tasks k' = (tasks k)(nat pid := t')" "task_count k' = task_count k - 1"
      "kmem k' = kmem (end_task (nat pid) k)" "heap_start k' = heap_start k"
      "kpaging k' = (if addr_space (tasks k (nat pid)) \<ge> 0
        then paging_free_task_directory (addr_space (tasks k (nat pid))) (kpaging k) else kpaging k)"
      by (simp_all add: k' upd_task_def end_task_eq t'_def Let_def)
    have t': "\<not> active t'" "mbox_items t' = []" by (simp_all add: t'_def mbox_reset_items)
    have live: "live_tasks (tasks k') = live_tasks (tasks k) - {nat pid}" using t t' by (auto simp: live_tasks_def)
    have own: "stack_owners (tasks k') = stack_owners (tasks k) - {nat pid}"
      unfolding stack_owners_def live by (auto simp: t)
    have inv: "sched_inv k'" by (rule task_kill_inv [OF assms r])
    have "stack_of (tasks k') ` (stack_owners (tasks k) - {nat pid}) =
        stack_of (tasks k) ` (stack_owners (tasks k) - {nat pid})"
      by (intro image_cong) (auto simp: stack_of_def t)
    with inv_buffers [OF inv] own t(4)
    have "buffers (heap_rep (heap_start k)) (kmem k') (stack_of (tasks k) ` (stack_owners (tasks k) - {nat pid})) 4096"
      by simp
    moreover have "stacks_kept k {nat pid} (kmem k')"
      unfolding t(3) by (rule end_task_kept [OF assms]) (use ok True in auto)
    moreover have "used_spaces (kpaging k') = used_spaces (kpaging k) -
        (if addr_space (tasks k (nat pid)) \<ge> 0 then {addr_space (tasks k (nat pid))} else {})"
      by (simp add: t(5) spaces.release_used)
    moreover have "k' = k\<lparr>kmem := kmem k', kpaging := kpaging k', tasks := tasks k', task_count := task_count k'\<rparr>"
      by (simp add: k' upd_task_def end_task_eq Let_def)
    moreover have "kpaging k' = (kpaging k)\<lparr>task_dir_used := task_dir_used (kpaging k')\<rparr>"
      by (simp add: t(5) paging_free_task_directory_def)
    moreover have "nat pid \<in> stack_owners (tasks k) \<and> stack_of (tasks k) (nat pid) - 12 \<le> unat x \<and> unat x < stack_of (tasks k) (nat pid)"
      if "kmem k' x \<noteq> kmem k x" for x
      by (rule end_task_memory [OF assms]) (use ok True that t(3) in auto)
    ultimately show ?thesis using r ok True live own t(1,2) t' inv by auto
  qed
qed

theorem task_kill_effect_witness:
  "\<exists>k k'. active (tasks k 1) \<and> 1 \<in> stack_owners (tasks k) \<and> task_kill 1 k = (True, k') \<and> \<not> active (tasks k' 1) \<and>
    live_tasks (tasks k') = live_tasks (tasks k) - {1} \<and> current_task k' = current_task k"
proof -
  obtain k where c: "create_user_task_argv example_layout 0x9500 0xF020 0x21010 0x1000 0 0 0 0 (boot_kernel example_layout (\<lambda>_. 0)) = Ret 1 k"
    using boot_create_user by blast
  have inv: "sched_inv k" by (rule create_user_task_inv [OF boot_inv c])
  obtain m' where "kmalloc 0x100000 0x1000 (boot_heap (\<lambda>_. 0)) = Some (0x10000C, m')" using boot_heap_alloc by blast
  with c have k: "active (tasks k 1)" "stack_base (tasks k 1) = 0x10000C" "current_task k = 0"
    by (auto simp: create_user_task_argv_def start_task_def upd_task_def mailbox_reset_def fold_upd Let_def split: if_splits option.splits prod.splits)
  from task_kill_effect [OF inv, of 1] k obtain k' where k': "task_kill 1 k = (True, k')" "\<not> active (tasks k' 1)"
    "live_tasks (tasks k') = live_tasks (tasks k) - {1}"
    "k' = k\<lparr>kmem := kmem k', kpaging := kpaging k', tasks := tasks k', task_count := task_count k'\<rparr>" by auto
  have "current_task k' = current_task k" by (subst k'(4)) simp
  then show ?thesis using k k'(1-3) by (auto simp: stack_owners_def live_tasks_def)
qed

subsection \<open>A race\<close>

text \<open>\<open>task_kill\<close> behind its checks. The shell runs it with interrupts enabled, so the target may run, and exit, between
  the checks and this part.\<close>

definition task_kill_rest :: "nat \<Rightarrow> kernel \<Rightarrow> kernel" where
  "task_kill_rest pid k = upd_task pid mailbox_reset (end_task pid k)"

lemma task_kill_parts:
  "task_kill pid k = (if valid_pid pid k \<and> pid \<noteq> int (current_task k) then (True, task_kill_rest (nat pid) k) else (False, k))"
  by (simp add: task_kill_def task_kill_rest_def)

text \<open>
  Remark. If the target of \<open>task_kill\<close> has ended by itself after the checks, the rest of \<open>task_kill\<close> still counts
  it off: \<open>task_count\<close> is one less than the number of active tasks and the invariant is broken. When in the end
  one task is left besides the shell, its exit stops the machine although the shell is active.
\<close>

theorem task_kill_race:
  assumes "sched_inv k" "pid < 16" "\<not> active (tasks k pid)" "stack_base (tasks k pid) = 0" "addr_space (tasks k pid) = -1"
    "live_tasks (tasks k) \<noteq> {}"
  shows "live_tasks (tasks (task_kill_rest pid k)) = live_tasks (tasks k) \<and>
    task_count (task_kill_rest pid k) + 1 = card (live_tasks (tasks k)) \<and> \<not> sched_inv (task_kill_rest pid k) \<and>
    (card (live_tasks (tasks k)) = 2 \<and> active (cur k) \<longrightarrow> (\<exists>k'. task_exit_and_reschedule L e (task_kill_rest pid k) = Halt k'))"
proof -
  let ?k = "task_kill_rest pid k"
  have n: "task_count k = card (live_tasks (tasks k))" "0 < card (live_tasks (tasks k))" using assms(1,6)
    by (auto simp: sched_inv_def table_inv_def card_gt_0_iff)
  have t: "tasks ?k = (tasks k)(pid := mailbox_reset ((tasks k pid)\<lparr>active := False, sleeping := False, stack_base := 0, addr_space := -1\<rparr>))"
    "task_count ?k = task_count k - 1" "current_task ?k = current_task k"
    using assms(4,5) by (simp_all add: task_kill_rest_def upd_task_def end_task_eq Let_def)
  have live: "live_tasks (tasks ?k) = live_tasks (tasks k)" using assms(3) by (auto simp: t(1) live_tasks_def)
  moreover have "task_count ?k + 1 = card (live_tasks (tasks k))" using n t(2) by simp
  moreover from this have "\<not> sched_inv ?k" unfolding sched_inv_def table_inv_def live by simp
  moreover have "\<exists>k'. task_exit_and_reschedule L e ?k = Halt k'" if "card (live_tasks (tasks k)) = 2" "active (cur k)"
  proof -
    have "current_task k \<noteq> pid" using that(2) assms(3) by auto
    then have "active (cur ?k)" using that(2) by (simp add: t)
    then show ?thesis using n that(1) t(2) by (simp add: task_exit_and_reschedule_def end_task_eq Let_def)
  qed
  ultimately show ?thesis by blast
qed

theorem task_kill_race_witness:
  "\<not> sched_inv (task_kill_rest 1 (boot_kernel example_layout (\<lambda>_. 0)))"
proof -
  let ?k = "boot_kernel example_layout (\<lambda>_. 0)"
  have "live_tasks (tasks ?k) = {0}" by (auto simp: live_tasks_def boot_kernel_tasks init_blank_task)
  then show ?thesis using task_kill_race [OF boot_inv, of 1 example_layout "\<lambda>_. 0"] by (simp add: boot_kernel_tasks init_blank_task)
qed

end
