(* ===== verification/Sleep_Ipc.thy ===== *)
theory Sleep_Ipc
  imports Task_Life
begin

text \<open>
  Exit, sleep and message passing of \<open>kernel/sched.c\<close>, as a task sees them: what an exiting task
  leaves behind, when a sleeper is woken, and what a message carries from sender to receiver.
\<close>

text \<open>
  C18. \<open>task_exit_and_reschedule\<close> ends the calling task for good. If it was the last
  one the machine stops; otherwise the scheduler resumes some other active task at its saved stack
  pointer, the caller is inactive, and its kernel stack and address space have been given back.
\<close>

theorem task_exit_effect:
  assumes "sched_inv k" "active (cur k)"
  shows "if task_count k = 1 then \<exists>k'. task_exit_and_reschedule L e k = Halt k'
    else \<exists>r k'. task_exit_and_reschedule L e k = Ret r k' \<and> current_task k' \<noteq> current_task k \<and>
      active (cur k') \<and> r = esp (tasks k (current_task k')) \<and> \<not> active (tasks k' (current_task k)) \<and>
      live_tasks (tasks k') = live_tasks (tasks k) - {current_task k} \<and> sched_inv k' \<and>
      stacks_kept k {current_task k} (kmem k')"
proof -
  let ?p = "current_task k" and ?k = "end_task (current_task k) k"
  have p: "?p < 16" "multitasking_enabled k" using assms(1) by (simp_all add: sched_inv_def)
  have e: "current_task ?k = ?p" "multitasking_enabled ?k" "task_count ?k = task_count k - 1"
    "\<not> active (tasks ?k ?p)" "\<And>d. d \<noteq> ?p \<Longrightarrow> tasks ?k d = tasks k d"
    using p by (simp_all add: end_task_eq Let_def)
  have inv: "sched_inv ?k" by (rule end_task_inv [OF assms(1) p(1) assms(2)])
  have live: "live_tasks (tasks ?k) = live_tasks (tasks k) - {?p}"
  proof (rule set_eqI)
    fix d
    show "d \<in> live_tasks (tasks ?k) \<longleftrightarrow> d \<in> live_tasks (tasks k) - {?p}"
      by (cases "d = ?p") (use e(4,5) in \<open>auto simp: live_tasks_def\<close>)
  qed
  have "?p \<in> live_tasks (tasks k)" using p assms(2) by (simp add: live_tasks_def)
  then have pos: "task_count k > 0" using assms(1) by (auto simp: sched_inv_def table_inv_def card_gt_0_iff)
  show ?thesis
  proof (cases "task_count k = 1")
    case True
    then show ?thesis using assms(2) e(3) by (simp add: task_exit_and_reschedule_def Let_def)
  next
    case False
    then have n0: "task_count ?k \<noteq> 0" using pos e(3) by simp
    then have "live_tasks (tasks ?k) \<noteq> {}" using inv by (auto simp: sched_inv_def table_inv_def)
    then have "\<exists>d < 16. active (tasks ?k d)" by (auto simp: live_tasks_def)
    from schedule_elects [OF _ _ this, of L e] e p obtain c k' where c: "c < 16"
      "schedule L e ?k = Ret (esp (tasks k' c)) k'" "current_task k' = c" "active (tasks k' c)"
      "policy (ticks (kpit ?k) + 1) ?p (tasks ?k) (int c)"
      "\<forall>d. esp (tasks k' d) = (if d = ?p then e else esp (tasks ?k d))" "kmem k' = kmem ?k" by auto
    have "c \<noteq> ?p" using policy_active [OF c(5)] e(4) by auto
    have act: "active (tasks k' d) = active (tasks ?k d)" for d
      by (rule schedule_keeps(1) [OF _ e(2) c(2)]) (simp add: e(1) p(1))
    have "live_tasks (tasks k') = live_tasks (tasks k) - {?p}"
      unfolding live [symmetric] by (simp add: live_tasks_def act)
    moreover have "task_exit_and_reschedule L e k = Ret (esp (tasks k' c)) k'"
      using c(2) n0 assms(2) by (simp add: task_exit_and_reschedule_def Let_def)
    moreover have "esp (tasks k' c) = esp (tasks k c)" using c(6) \<open>c \<noteq> ?p\<close> e(5) by simp
    moreover have "stacks_kept k {?p} (kmem k')"
      using end_task_kept [OF assms(1) p(1) assms(2)] c(7) by simp
    ultimately show ?thesis using False c \<open>c \<noteq> ?p\<close> act e(4) schedule_inv [OF inv c(2)] by auto
  qed
qed

text \<open>The last task stops the machine; with a second task that one is resumed.\<close>

theorem task_exit_effect_witness:
  "(\<exists>k'. task_exit_and_reschedule example_layout 0x7000 (boot_kernel example_layout (\<lambda>_. 0)) = Halt k') \<and>
   (\<exists>k r k'. current_task k = 0 \<and> task_exit_and_reschedule example_layout 0x7000 k = Ret r k' \<and> current_task k' \<noteq> 0 \<and>
      active (cur k') \<and> \<not> active (tasks k' 0))"
proof -
  let ?b = "boot_kernel example_layout (\<lambda>_. 0)"
  have "\<exists>k'. task_exit_and_reschedule example_layout 0x7000 ?b = Halt k'"
    using task_exit_effect [OF boot_inv, of example_layout "\<lambda>_. 0" example_layout "0x7000"] by (simp add: boot_kernel_tasks)
  moreover obtain k where c: "create_task example_layout 0x9400 0xF010 ?b = Ret 1 k" using boot_create_stack by blast
  then have k: "current_task k = 0" "task_count k = 2" "active (tasks k 0)"
    by (auto simp: create_task_def start_task_def upd_task_def boot_kernel_tasks Let_def split: option.splits if_splits prod.splits)
  ultimately show ?thesis using task_exit_effect [OF create_task_inv [OF boot_inv c], of example_layout "0x7000"] by fastforce
qed

subsection \<open>Sleep\<close>

lemma ticks_to_wait_value:
  assumes "unat ms * unat (frequency p) < 2 ^ 32"
  shows "unat (ticks_to_wait ms p) = max 1 (unat ms * unat (frequency p) div 1000)"
proof -
  have "unat (ms * frequency p) = unat ms * unat (frequency p)"
    using assms by (simp add: unat_word_ariths)
  then have "unat ((ms * frequency p) div 1000) = unat ms * unat (frequency p) div 1000"
    by (simp add: unat_div)
  then show ?thesis
    by (auto simp: ticks_to_wait_def pit_get_frequency_def Let_def max_def simp flip: unat_eq_0)
qed

text \<open>
  C22. As long as neither the product \<open>ms * freq\<close> nor the tick counter overflows, a
  task that sleeps for \<open>ms\<close> milliseconds becomes ready exactly \<open>max 1 (ms * freq / 1000)\<close> ticks later
  (rounded down), and until then every election that finds a ready task of non-negative priority
  elects another one. The comment on \<open>task_sleep\<close> promises at least \<open>ms\<close> milliseconds; what the code keeps is the number of
  whole ticks, up to one tick less (\<open>task_sleep_short\<close>).
\<close>

theorem task_sleep_wakes:
  assumes "active (cur k)" "unat ms * unat (frequency (kpit k)) < 2 ^ 32"
    "unat (ticks (kpit k)) + max 1 (unat ms * unat (frequency (kpit k)) div 1000) < 2 ^ 32"
  shows "(ready now (cur (task_sleep ms k)) \<longleftrightarrow>
      unat (ticks (kpit k)) + max 1 (unat ms * unat (frequency (kpit k)) div 1000) \<le> unat now) \<and>
    (policy now from (tasks (task_sleep ms k)) n \<and> \<not> ready now (cur (task_sleep ms k)) \<and>
      d < 16 \<and> ready now (tasks (task_sleep ms k) d) \<and> 0 \<le> priority (tasks (task_sleep ms k) d) \<longrightarrow>
      n \<noteq> int (current_task k))"
proof -
  let ?w = "ticks_to_wait ms (kpit k)" and ?t = "ticks (kpit k)"
  note w = ticks_to_wait_value [OF assms(2)]
  have "unat (?t + of_nat (unat ?w)) = unat ?t + unat ?w"
    by (rule unat_plus_no_wrap) (simp only: w assms(3))
  then have "unat (?t + ?w) = unat ?t + max 1 (unat ms * unat (frequency (kpit k)) div 1000)"
    by (simp only: w [symmetric]) simp
  then have "ready now (cur (task_sleep ms k)) \<longleftrightarrow>
      unat ?t + max 1 (unat ms * unat (frequency (kpit k)) div 1000) \<le> unat now"
    using assms(1) by (simp add: ready_def task_sleep_def set_sleep_def upd_task_def get_ticks_def word_le_nat_alt)
  moreover have c: "current_task (task_sleep ms k) = current_task k"
    by (simp add: task_sleep_def set_sleep_def upd_task_def)
  moreover have "n \<noteq> int (current_task k)" if "policy now from (tasks (task_sleep ms k)) n"
    "\<not> ready now (cur (task_sleep ms k))" "d < 16" "ready now (tasks (task_sleep ms k) d)"
    "0 \<le> priority (tasks (task_sleep ms k) d)"
    using that unfolding policy_def c by fastforce
  ultimately show ?thesis by blast
qed

theorem task_sleep_wakes_witness:
  "ready 20 (cur (task_sleep 200 (boot_kernel example_layout (\<lambda>_. 0)))) \<and>
    \<not> ready 19 (cur (task_sleep 200 (boot_kernel example_layout (\<lambda>_. 0))))"
proof -
  let ?k = "boot_kernel example_layout (\<lambda>_. 0)"
  have f: "frequency (kpit ?k) = 100"
    by (simp add: boot_kernel_def init_multitasking_def upd_task_def pit_init_def Let_def)
  have a: "active (cur ?k)" by (simp add: boot_kernel_tasks)
  show ?thesis using task_sleep_wakes [OF a, of 200 20] task_sleep_wakes [OF a, of 200 19] by (simp add: f)
qed

text \<open>
  Remark. A sleep may be shorter than asked for: at the boot-time rate of 100 Hz a sleep of 15 ms is over after one
  tick, that is after at most 10 ms, and any duration whose product with the frequency is not a multiple of 1000 (and fits in 32 bits)
  gets a number of ticks that lasts less than the duration.
\<close>

theorem task_sleep_short:
  assumes "unat ms * unat (frequency p) < 2 ^ 32" "1000 \<le> unat ms * unat (frequency p)" "unat ms * unat (frequency p) mod 1000 \<noteq> 0"
  shows "unat (ticks_to_wait ms p) * 1000 < unat ms * unat (frequency p)"
proof -
  let ?n = "unat ms * unat (frequency p)"
  have "unat (ticks_to_wait ms p) = ?n div 1000" using ticks_to_wait_value [OF assms(1)] assms(2) by (simp add: max_def)
  moreover have "?n div 1000 * 1000 + ?n mod 1000 = ?n" by (rule div_mult_mod_eq)
  ultimately show ?thesis using assms(3) by linarith
qed

theorem task_sleep_short_witness: "ticks_to_wait 15 \<lparr>ticks = 0, frequency = 100\<rparr> = 1 \<and>
    unat (ticks_to_wait 15 \<lparr>ticks = 0, frequency = 100\<rparr>) * 1000 < 15 * 100"
  using task_sleep_short [of 15 "\<lparr>ticks = 0, frequency = 100\<rparr>"] by (simp add: ticks_to_wait_def pit_get_frequency_def)

text \<open>
  Remark. The product \<open>ms * freq\<close> is computed in 32 bits: at the boot-time rate of
  100 Hz a sleep of 42949673 ms (close to twelve hours) lasts a single tick.
\<close>

theorem task_sleep_overflow:
  "ticks_to_wait 42949673 \<lparr>ticks = t, frequency = 100\<rparr> = 1"
  by (simp add: ticks_to_wait_def pit_get_frequency_def)

text \<open>
  Remark. When every other task has ended, \<open>task_sleep_and_reschedule\<close> returns to its
  caller at once, for any duration: the election falls back to the first active task even though
  it is asleep, so the promised minimum wait is not kept.
\<close>

theorem task_sleep_alone:
  assumes "sched_inv k" "live_tasks (tasks k) = {current_task k}"
  shows "\<exists>k'. task_sleep_and_reschedule L ms e k = Ret e k' \<and> current_task k' = current_task k \<and>
    ticks (kpit k') = ticks (kpit k) + 1"
proof -
  let ?k = "set_sleep ms k"
  have p: "current_task ?k = current_task k" "kpit ?k = kpit k" "multitasking_enabled ?k" "current_task k < 16"
    "live_tasks (tasks ?k) = {current_task k}"
    using assms by (auto simp: sched_inv_def set_sleep_def upd_task_def live_tasks_def)
  then have "\<exists>d < 16. active (tasks ?k d)" by (auto simp: live_tasks_def)
  from schedule_elects [OF _ p(3) this, of L e] p obtain c k' where c: "c < 16"
    "schedule L e ?k = Ret (esp (tasks k' c)) k'" "current_task k' = c"
    "policy (ticks (kpit ?k) + 1) (current_task k) (tasks ?k) (int c)"
    "\<forall>d. esp (tasks k' d) = (if d = current_task k then e else esp (tasks ?k d))"
    "ticks (kpit k') = ticks (kpit k) + 1" by auto
  have "c \<in> live_tasks (tasks ?k)" using policy_active [OF c(4)] c(1) by (auto simp: live_tasks_def)
  then have "c = current_task k" using p(5) by simp
  then show ?thesis using c by (auto simp: task_sleep_and_reschedule_def)
qed

theorem task_sleep_alone_witness:
  "\<exists>k'. task_sleep_and_reschedule example_layout 60000 0x7000 (boot_kernel example_layout (\<lambda>_. 0)) = Ret 0x7000 k'
    \<and> ticks (kpit k') = 1"
proof -
  have "live_tasks (tasks (boot_kernel example_layout (\<lambda>_. 0))) = {current_task (boot_kernel example_layout (\<lambda>_. 0))}"
    by (auto simp: live_tasks_def boot_kernel_tasks init_blank_task)
  from task_sleep_alone [OF boot_inv this, of example_layout 60000 "0x7000"] show ?thesis by auto
qed

subsection \<open>Messages\<close>

lemma mem_write_read_other:
  assumes "n \<le> 2 ^ 32" "region b 4 \<inter> region a n = {}"
  shows "mem_read (wr32 m b v) a n = mem_read m a n"
  by (rule mem_read_cong) (use assms in \<open>auto intro!: wr32_outside\<close>)

lemma rd32_other:
  assumes "region b 4 \<inter> region a 4 = {}"
  shows "rd32 (wr32 m b v) a = rd32 m a"
  by (rule rd32_cong) (use assms in \<open>auto intro!: wr32_outside\<close>)

text \<open>
  C15. A message arrives as it was sent. Sending to an active task with an empty mailbox
  succeeds and changes only that mailbox; when that task is current and receives, it gets the first
  128 bytes at most of the sender's buffer as they were at the time of the send, their number, and
  the PID of the sender, however memory and scheduling changed in between.
\<close>

theorem ipc_roundtrip:
  assumes "sched_inv k" "target < 16" "active (tasks k target)" "mbox_items (tasks k target) = []"
    "ipc_send (int target) data len k = (r, k1)"
    "current_task k2 = target" "tasks k2 target = tasks k1 target"
    "n = min 128 (unat len)"
    "out_len \<noteq> 0" "out_sender \<noteq> 0" "region out_len 4 \<inter> region out n = {}"
    "region out_sender 4 \<inter> region out n = {}" "region out_sender 4 \<inter> region out_len 4 = {}"
    "ipc_recv out out_len out_sender k2 = (r', k3)"
  shows "r = 1 \<and> kmem k1 = kmem k \<and> (\<forall>j. j \<noteq> target \<longrightarrow> tasks k1 j = tasks k j) \<and> r' = 1 \<and>
    mem_read (kmem k3) out n = mem_read (kmem k) data n \<and> rd32 (kmem k3) out_len = of_nat n \<and>
    rd32 (kmem k3) out_sender = of_nat (current_task k) \<and> mbox_items (tasks k3 target) = []"
proof -
  let ?req = "(kmem k, data, len, int (current_task k)) :: request" and ?t = "tasks k target"
  have ok: "mbox_ok ?t" using assms(1,2) by (simp add: sched_inv_def table_inv_def)
  obtain b t where p: "put_request ?req ?t = (b, t)" by (cases "put_request ?req ?t")
  have b: "b" "mbox_items t = [delivered ?req]"
    using mq.put_cases [OF ok p] assms(4) by simp_all
  have k1: "r = 1" "k1 = upd_task target (\<lambda>_. t) k"
    using assms(2,3,5) p b(1) by (auto simp: ipc_send_def valid_pid_def put_request_def)
  have t: "cur k2 = t" using assms(6,7) k1(2) by (simp add: upd_task_def)
  obtain v t' where g: "mailbox_get t = (v, t')" by (cases "mailbox_get t")
  have ok': "mbox_ok t" using mq.put_inv [OF ok p] .
  have v: "v = Some (delivered ?req)" "mbox_items t' = []" using mq.get_item [OF ok' b(2) g] by simp_all
  have n: "n \<le> 128" "min 128 len = of_nat n"
    using assms(8) by (auto simp: min_def word_le_nat_alt word_unat_eq_iff)
  let ?m = "mem_write (kmem k2) out (mem_read (kmem k) data n)"
  have k3: "r' = 1" "kmem k3 = wr32 (wr32 ?m out_len (of_nat n)) out_sender (word_of_int (int (current_task k)))"
    "tasks k3 target = t'"
    using assms(6,9,10,14) g v(1) n(2) t by (auto simp: ipc_recv_def ipc_recv_msg_def delivered_def assms(8) upd_task_def Let_def)
  have "mem_read ?m out n = mem_read (kmem k) data n"
    using mem_read_write_same [of "mem_read (kmem k) data n" "kmem k2" out] n(1) by simp
  then have "mem_read (kmem k3) out n = mem_read (kmem k) data n"
    using n(1) assms(11,12) by (simp add: k3(2) mem_write_read_other)
  moreover have "rd32 (kmem k3) out_len = of_nat n" using rd32_other [OF assms(13)] by (simp add: k3(2))
  moreover have "rd32 (kmem k3) out_sender = of_nat (current_task k)" by (simp add: k3(2))
  ultimately show ?thesis using k1 k3 v(2) by (auto simp: upd_task_def)
qed

theorem ipc_roundtrip_witness:
  "\<exists>r k1 r' k3. ipc_send 0 0x5000 3 (boot_kernel example_layout (\<lambda>_. 0)) = (r, k1) \<and>
    ipc_recv 0x6000 0x6100 0x6200 k1 = (r', k3) \<and> r = 1 \<and> r' = 1 \<and> rd32 (kmem k3) 0x6100 = 3"
proof -
  let ?k = "boot_kernel example_layout (\<lambda>_. 0)"
  obtain r k1 where s: "ipc_send (int 0) 0x5000 3 ?k = (r, k1)" by (cases "ipc_send (int 0) 0x5000 3 ?k")
  obtain r' k3 where v: "ipc_recv 0x6000 0x6100 0x6200 k1 = (r', k3)" by (cases "ipc_recv 0x6000 0x6100 0x6200 k1")
  have c: "current_task k1 = 0"
    using s by (auto simp: ipc_send_def upd_task_def Let_def split: if_splits prod.splits)
  have a: "active (tasks ?k 0)" by (simp add: boot_kernel_tasks)
  have e: "mbox_items (tasks ?k 0) = []"
    by (simp add: boot_kernel_tasks mbox_items_def init_task_def mailbox_reset_def)
  have n: "(3 :: nat) = min 128 (unat (3 :: u32))" by simp
  have d: "region 0x6100 4 \<inter> region 0x6000 3 = {}" "region 0x6200 4 \<inter> region 0x6000 3 = {}"
    "region 0x6200 4 \<inter> region 0x6100 4 = {}"
    by (auto simp: region_iff)
  have "r = 1 \<and> r' = 1 \<and> rd32 (kmem k3) 0x6100 = of_nat 3"
    using ipc_roundtrip [OF boot_inv _ a e s c refl n _ _ d v] by simp
  with s v show ?thesis by simp
qed

text \<open>
  Remark. The status of \<open>ipc_send\<close>: -1 exactly when the target is not an active task,
  0 exactly when its mailbox holds four messages, both without any effect, and 1 otherwise; only
  the target's mailbox ever changes. The length does not show in the status: a message cut at 128
  bytes is reported like a whole one.
\<close>

theorem ipc_send_status:
  assumes "sched_inv k" "ipc_send pid data len k = (r, k')"
  shows "(r = -1 \<longleftrightarrow> \<not> (0 \<le> pid \<and> pid < 16 \<and> active (tasks k (nat pid)))) \<and>
    (r = 0 \<longleftrightarrow> 0 \<le> pid \<and> pid < 16 \<and> active (tasks k (nat pid)) \<and> length (mbox_items (tasks k (nat pid))) = 4) \<and>
    r \<in> {-1, 0, 1} \<and> (r \<noteq> 1 \<longrightarrow> k' = k) \<and>
    (r = 1 \<longrightarrow> mbox_items (tasks k' (nat pid)) = mbox_items (tasks k (nat pid)) @
      [(mem_read (kmem k) data (min 128 (unat len)), min 128 len, int (current_task k))])"
proof (cases "valid_pid pid k")
  case False
  then show ?thesis using assms(2) by (auto simp: ipc_send_def valid_pid_def)
next
  case True
  let ?req = "(kmem k, data, len, int (current_task k)) :: request" and ?t = "tasks k (nat pid)"
  have v: "0 \<le> pid" "pid < 16" "active ?t" using True by (auto simp: valid_pid_def)
  then have ok: "mbox_ok ?t" using assms(1) by (simp add: sched_inv_def table_inv_def)
  obtain b t where p: "put_request ?req ?t = (b, t)" by (cases "put_request ?req ?t")
  have c: "b \<longleftrightarrow> length (mbox_items ?t) < 4" "mbox_items t = (if b then mbox_items ?t @ [delivered ?req] else mbox_items ?t)"
    using mq.put_cases [OF ok p] by auto
  have l: "length (mbox_items ?t) \<le> 4" using ok by (simp add: length_mbox_items mbox_ok_def)
  have r: "r = (if b then 1 else 0)" "k' = upd_task (nat pid) (\<lambda>_. t) k"
    using assms(2) True p by (auto simp: ipc_send_def put_request_def)
  have same: "k' = k" if "\<not> b"
    using mq.put_full [OF ok, of ?req] that c(1) p r(2) by (simp add: upd_task_def)
  show ?thesis using v c l r same by (auto simp: upd_task_def delivered_def)
qed

theorem ipc_send_status_witness:
  "\<exists>k'. ipc_send 7 0x5000 3 (boot_kernel example_layout (\<lambda>_. 0)) = (-1, k')"
proof -
  let ?k = "boot_kernel example_layout (\<lambda>_. 0)"
  obtain r k' where s: "ipc_send 7 0x5000 3 ?k = (r, k')" by (cases "ipc_send 7 0x5000 3 ?k")
  have "\<not> active (tasks ?k 7)" by (simp add: boot_kernel_tasks init_blank_task)
  with ipc_send_status [OF boot_inv s] s show ?thesis by auto
qed

end
