(* ===== verification/Interrupts.thy ===== *)
theory Interrupts
  imports Gdt Screen
begin

text \<open>
  The interrupt descriptor table and the PIC (\<open>kernel/interrupts.c\<close>), the exception stubs and their
  report (\<open>kernel/exceptions.c\<close>), and \<open>syscall_init\<close> (\<open>kernel/syscall.c\<close>).
\<close>

subsection \<open>kernel/interrupts.c\<close>

record idt_entry =
  idt_base_low :: u16
  idt_sel :: u16
  idt_always0 :: u8
  idt_flags :: u8
  idt_base_high :: u16

record idt_ptr =
  idtp_limit :: u16
  idtp_base :: u32

record idt_state =
  idt :: "nat \<Rightarrow> idt_entry"
  idtp :: idt_ptr
  idtr :: idt_ptr

definition set_idt_gate_flags :: "nat \<Rightarrow> u32 \<Rightarrow> u8 \<Rightarrow> idt_state \<Rightarrow> idt_state" where
  "set_idt_gate_flags n handler flags s =
     s\<lparr>idt := (idt s)(n :=
       \<lparr>idt_base_low = ucast (handler AND 0xFFFF), idt_sel = 0x08, idt_always0 = 0, idt_flags = flags,
        idt_base_high = ucast (drop_bit 16 handler AND 0xFFFF)\<rparr>)\<rparr>"

definition set_idt_gate :: "nat \<Rightarrow> u32 \<Rightarrow> idt_state \<Rightarrow> idt_state" where
  "set_idt_gate n handler s =
     s\<lparr>idt := (idt s)(n :=
       \<lparr>idt_base_low = ucast (handler AND 0xFFFF), idt_sel = 0x08, idt_always0 = 0, idt_flags = 0x8E,
        idt_base_high = ucast (drop_bit 16 handler AND 0xFFFF)\<rparr>)\<rparr>"

definition load_idt :: "layout \<Rightarrow> idt_state \<Rightarrow> idt_state" where
  "load_idt L s =
     (let p = \<lparr>idtp_limit = 8 * 256 - 1, idtp_base = idt_at L\<rparr> in s\<lparr>idtp := p, idtr := p\<rparr>)"

definition remap_pic :: "port_write list" where
  "remap_pic =
     [(0x20, 0x11), (0xA0, 0x11), (0x21, 0x20), (0xA1, 0x28), (0x21, 0x04), (0xA1, 0x02),
      (0x21, 0x01), (0xA1, 0x01), (0x21, 0xFC), (0xA1, 0xFF)]"

subsection \<open>kernel/exceptions.c\<close>

text \<open>The vectors declared with \<open>EXC_ERR\<close>: the processor pushes an error code itself.\<close>

definition exc_err :: "nat \<Rightarrow> bool" where
  "exc_err n \<longleftrightarrow> n \<in> {8, 10, 11, 12, 13, 14, 17}"

text \<open>The words that the stub \<open>isrN\<close> pushes, in push order, before it jumps to the common stub.\<close>

definition isr_pushes :: "nat \<Rightarrow> u32 list" where
  "isr_pushes n = (if exc_err n then [of_nat n] else [0, of_nat n])"

text \<open>\<open>isr_common_stub\<close>: \<open>pushal\<close>, then the address of the saved registers is the argument of the
  report. A stack is a list, its top first.\<close>

definition isr_common_stub :: "u32 list \<Rightarrow> u32 list \<Rightarrow> u32 list" where
  "isr_common_stub pushal_regs stack = rev pushal_regs @ stack"

text \<open>\<open>exception_report\<close> never returns: the result is the screen on which it halts.\<close>

definition exception_report :: "u32 list \<Rightarrow> u32 \<Rightarrow> screen \<Rightarrow> screen" where
  "exception_report regs cr2 s =
     (let vector = regs ! 8; error_code = regs ! 9; eip = regs ! 10;
          s = kprint (10 # lit ''*** EXCEPTION '') s;
          s = kprint_dec vector s;
          s = kprint (lit '' (code '') s;
          s = kprint_hex error_code s;
          s = kprint (lit '') at EIP='') s;
          s = kprint_hex eip s;
          s = (if vector = 14 then kprint_hex cr2 (kprint (lit '' CR2='') s) else s)
      in kprint (lit '' - System Halted ***'' @ [10]) s)"

text \<open>The thirty-two calls, in order.\<close>

definition install_exception_handlers :: "layout \<Rightarrow> idt_state \<Rightarrow> idt_state" where
  "install_exception_handlers L s = fold (\<lambda>n. set_idt_gate n (isr_at L n)) [0..<32] s"

definition syscall_init :: "layout \<Rightarrow> idt_state \<Rightarrow> idt_state" where
  "syscall_init L s = set_idt_gate_flags 0x80 (syscall_handler_at L) 0xEE s"

text \<open>The interrupt set-up of \<open>main_entry\<close> (\<open>kernel/init.c\<close>).\<close>

definition boot_idt :: "layout \<Rightarrow> idt_state \<Rightarrow> idt_state" where
  "boot_idt L s =
     (let s = install_exception_handlers L s;
          s = set_idt_gate 32 (timer_handler_at L) s;
          s = set_idt_gate 33 (keyboard_handler_at L) s;
          s = syscall_init L s
      in load_idt L s)"

subsection \<open>What the processor does with the table\<close>

definition gate_offset :: "idt_entry \<Rightarrow> u32" where
  "gate_offset e = ucast (idt_base_low e) OR push_bit 16 (ucast (idt_base_high e))"

definition gate_present :: "idt_entry \<Rightarrow> bool" where
  "gate_present e = bit (idt_flags e) 7"

definition gate_dpl :: "idt_entry \<Rightarrow> nat" where
  "gate_dpl e = unat (drop_bit 5 (idt_flags e) AND 3)"

text \<open>A 32-bit interrupt gate: the processor clears IF on entry.\<close>

definition interrupt_gate :: "idt_entry \<Rightarrow> bool" where
  "interrupt_gate e \<longleftrightarrow> idt_flags e AND 0x1F = 0x0E"

text \<open>\<open>int n\<close> at privilege \<open>cpl\<close> enters the handler exactly when the vector is inside the table, the
  gate is present and its privilege level admits the caller.\<close>

definition software_int :: "idt_state \<Rightarrow> nat \<Rightarrow> nat \<Rightarrow> u32 option" where
  "software_int s cpl n =
     (if 8 * n + 7 \<le> unat (idtp_limit (idtr s)) \<and> gate_present (idt s n) \<and> cpl \<le> gate_dpl (idt s n)
      then Some (gate_offset (idt s n)) else None)"

text \<open>The interrupt vector of the IRQ lines, and the masked lines, after the PIC initialisation: the
  command words in the order ICW1 to ICW4, then the mask, for each of the two controllers.\<close>

definition pic_words :: "u16 \<Rightarrow> port_write list \<Rightarrow> u8 list" where
  "pic_words data ws = map snd (filter (\<lambda>w. fst w = data) ws)"

definition irq_vector :: "port_write list \<Rightarrow> nat \<Rightarrow> nat" where
  "irq_vector ws irq = (if irq < 8 then unat (pic_words 0x21 ws ! 0) + irq
     else unat (pic_words 0xA1 ws ! 0) + (irq - 8))"

definition irq_enabled :: "port_write list \<Rightarrow> nat \<Rightarrow> bool" where
  "irq_enabled ws irq = (if irq < 8 then \<not> bit (pic_words 0x21 ws ! 3) irq
     else \<not> bit (pic_words 0xA1 ws ! 3) (irq - 8) \<and> \<not> bit (pic_words 0x21 ws ! 3) 2)"

lemma gate_offset_set: "gate_offset (idt (set_idt_gate_flags n h f s) n) = h"
proof (rule bit_word_eqI)
  fix k assume "k < LENGTH(32)"
  then show "bit (gate_offset (idt (set_idt_gate_flags n h f s) n)) k = bit h k"
    by (cases "k < 16") (auto simp: gate_offset_def set_idt_gate_flags_def bit_simps and_mask_fields)
qed

lemma set_idt_gate_eq: "set_idt_gate n h s = set_idt_gate_flags n h 0x8E s"
  by (simp add: set_idt_gate_def set_idt_gate_flags_def)

lemma idt_set_other: "k \<noteq> n \<Longrightarrow> idt (set_idt_gate_flags n h f s) k = idt s k"
  by (simp add: set_idt_gate_flags_def)

lemma idt_set_same:
  "gate_present (idt (set_idt_gate_flags n h f s) n) = bit f 7"
  "gate_dpl (idt (set_idt_gate_flags n h f s) n) = unat (drop_bit 5 f AND 3)"
  "idt_flags (idt (set_idt_gate_flags n h f s) n) = f"
  "idt_sel (idt (set_idt_gate_flags n h f s) n) = 0x08"
  by (simp_all add: set_idt_gate_flags_def gate_present_def gate_dpl_def)

lemma fold_gates_other:
  "n \<notin> set ns \<Longrightarrow> idt (fold (\<lambda>n. set_idt_gate n (h n)) ns s) n = idt s n"
  by (induction ns arbitrary: s) (auto simp: set_idt_gate_eq idt_set_other)

lemma fold_gates_same:
  "n \<in> set ns \<Longrightarrow> distinct ns \<Longrightarrow> \<exists>s'. idt (fold (\<lambda>n. set_idt_gate n (h n)) ns s) n =
    idt (set_idt_gate_flags n (h n) 0x8E s') n"
  by (induction ns arbitrary: s) (auto simp: fold_gates_other set_idt_gate_eq)

text \<open>The handler of a vector after the set-up of \<open>main_entry\<close>.\<close>

definition boot_handler :: "layout \<Rightarrow> nat \<Rightarrow> (u32 \<times> u8) option" where
  "boot_handler L n =
     (if n < 32 then Some (isr_at L n, 0x8E) else if n = 32 then Some (timer_handler_at L, 0x8E)
      else if n = 33 then Some (keyboard_handler_at L, 0x8E)
      else if n = 0x80 then Some (syscall_handler_at L, 0xEE) else None)"

lemma boot_idt_gate:
  "case boot_handler L n of Some (h, f) \<Rightarrow> \<exists>s'. idt (boot_idt L s) n = idt (set_idt_gate_flags n h f s') n
    | None \<Rightarrow> idt (boot_idt L s) n = idt s n"
proof -
  let ?e = "install_exception_handlers L s"
  have "idt (boot_idt L s) n =
      idt (set_idt_gate_flags 0x80 (syscall_handler_at L) 0xEE
        (set_idt_gate_flags 33 (keyboard_handler_at L) 0x8E
          (set_idt_gate_flags 32 (timer_handler_at L) 0x8E ?e))) n"
    by (simp add: boot_idt_def load_idt_def syscall_init_def set_idt_gate_eq Let_def)
  then show ?thesis
    using fold_gates_same [of n "[0..<32]" "isr_at L" s] fold_gates_other [of n "[0..<32]" "isr_at L" s]
    by (auto simp: boot_handler_def idt_set_other install_exception_handlers_def)
qed

lemma boot_idt_limit: "idtp_limit (idtr (boot_idt L s)) = 2047"
  by (simp add: boot_idt_def load_idt_def Let_def)

text \<open>The table as the loader leaves it: \<open>main_entry\<close> has zeroed the BSS.\<close>

definition blank_idt :: idt_state where
  "blank_idt =
     \<lparr>idt = (\<lambda>_. \<lparr>idt_base_low = 0, idt_sel = 0, idt_always0 = 0, idt_flags = 0, idt_base_high = 0\<rparr>),
      idtp = \<lparr>idtp_limit = 0, idtp_base = 0\<rparr>, idtr = \<lparr>idtp_limit = 0, idtp_base = 0\<rparr>\<rparr>"

lemma boot_idt_entry:
  "software_int (boot_idt L blank_idt) cpl n =
    (case boot_handler L n of
       Some (h, f) \<Rightarrow> if cpl \<le> (if f = 0xEE then 3 else 0) then Some h else None
     | None \<Rightarrow> None)"
proof (cases "boot_handler L n")
  case None
  then show ?thesis using boot_idt_gate [of L blank_idt n]
    by (simp add: software_int_def gate_present_def blank_idt_def)
next
  case (Some hf)
  obtain h f where hf: "hf = (h, f)" by (cases hf)
  with Some have f: "n \<le> 0x80" "f = 0x8E \<or> f = 0xEE" by (auto simp: boot_handler_def split: if_splits)
  obtain s' where "idt (boot_idt L blank_idt) n = idt (set_idt_gate_flags n h f s') n"
    using boot_idt_gate [of L blank_idt n] Some hf by auto
  then show ?thesis using Some hf f
    by (auto simp: software_int_def boot_idt_limit idt_set_same gate_offset_set)
qed

subsection \<open>Properties\<close>

text \<open>
  C20. After the interrupt set-up of \<open>main_entry\<close>, \<open>int n\<close> executed in ring 3
  enters the kernel for exactly one vector, \<open>0x80\<close>, and there at \<open>syscall_handler\<close>; every other
  software interrupt of a user program is refused.
\<close>

theorem boot_idt_user_gates:
  "software_int (boot_idt L blank_idt) 3 n = (if n = 0x80 then Some (syscall_handler_at L) else None)"
  by (auto simp: boot_idt_entry boot_handler_def)

text \<open>
  Remark. Every exception vector, the two unmasked IRQs (as remapped by
  \<open>remap_pic\<close>) and the system call enter their own handler in the kernel code segment through an
  interrupt gate, so with interrupts disabled; no other IRQ line is unmasked, and the remapped IRQ
  vectors are disjoint from the exception vectors.
\<close>

theorem boot_idt_handlers:
  "let s = boot_idt L blank_idt in
    (n < 32 \<longrightarrow> software_int s 0 n = Some (isr_at L n)) \<and>
    software_int s 0 (irq_vector remap_pic 0) = Some (timer_handler_at L) \<and>
    software_int s 0 (irq_vector remap_pic 1) = Some (keyboard_handler_at L) \<and>
    software_int s 0 0x80 = Some (syscall_handler_at L) \<and>
    (software_int s 0 n \<noteq> None \<longrightarrow> interrupt_gate (idt s n) \<and> idt_sel (idt s n) = 0x08) \<and>
    (irq < 16 \<longrightarrow> (irq_enabled remap_pic irq \<longleftrightarrow> irq \<le> 1) \<and> 32 \<le> irq_vector remap_pic irq)"
proof -
  have irq: "\<forall>irq \<in> set [0..<16]. (irq_enabled remap_pic irq \<longleftrightarrow> irq \<le> 1) \<and> 32 \<le> irq_vector remap_pic irq"
    "irq_vector remap_pic 0 = 32" "irq_vector remap_pic 1 = 33"
    by code_simp+
  have "interrupt_gate (idt (boot_idt L blank_idt) n) \<and> idt_sel (idt (boot_idt L blank_idt) n) = 0x08"
    if some: "software_int (boot_idt L blank_idt) 0 n \<noteq> None"
  proof -
    from some obtain h f where h: "boot_handler L n = Some (h, f)"
      by (auto simp: boot_idt_entry split: option.splits)
    then have "f = 0x8E \<or> f = 0xEE" by (auto simp: boot_handler_def split: if_splits)
    then have "f AND 0x1F = 0x0E" by auto
    moreover obtain s' where "idt (boot_idt L blank_idt) n = idt (set_idt_gate_flags n h f s') n"
      using boot_idt_gate [of L blank_idt n] h by auto
    ultimately show ?thesis by (simp add: interrupt_gate_def idt_set_same)
  qed
  with irq show ?thesis by (auto simp: Let_def boot_idt_entry boot_handler_def)
qed

theorem boot_idt_handlers_witness:
  "software_int (boot_idt example_layout blank_idt) 0 14 = Some (isr_at example_layout 14) \<and>
    \<not> irq_enabled remap_pic 14"
  using boot_idt_handlers [of example_layout 14 14] by (simp add: Let_def)

text \<open>
  Remark. The stubs make one frame of two processor conventions: whether or not the
  processor pushed an error code, \<open>exception_report\<close> finds the vector, the error code (0 when there
  is none) and the faulting EIP in \<open>regs[8]\<close>, \<open>regs[9]\<close> and \<open>regs[10]\<close>.
\<close>

theorem isr_stub_frame:
  assumes "length pushal_regs = 8" "n < 32"
  shows "let cpu_frame = (if exc_err n then [error_code] else []) @ [eip, cs, eflags];
        regs = isr_common_stub pushal_regs (rev (isr_pushes n) @ cpu_frame)
    in regs ! 8 = of_nat n \<and> regs ! 9 = (if exc_err n then error_code else 0) \<and> regs ! 10 = eip"
  using assms by (simp add: isr_common_stub_def isr_pushes_def Let_def nth_append)

theorem isr_stub_frame_witness:
  "isr_common_stub [1, 2, 3, 4, 5, 6, 7, 8] (rev (isr_pushes 14) @ [2, 0x9000, 8, 0x202]) ! 9 = 2"
  using isr_stub_frame [of "[1, 2, 3, 4, 5, 6, 7, 8]" 14 2 "0x9000" 8 "0x202"]
  by (simp add: exc_err_def Let_def)

end
