(* ===== verification/Syscall.thy ===== *)
theory Syscall
  imports Sleep_Ipc Interrupts
begin

text \<open>
  The system calls, \<open>kernel/syscall.c\<close>: \<open>syscall_dispatch\<close> on the register block that \<open>pushal\<close> leaves on
  the caller's kernel stack. Every register is read from memory at the point where the C code reads
  it, since a message may be delivered over the block itself.
\<close>

abbreviation SYS_PRINT :: u32 where "SYS_PRINT \<equiv> 1"
abbreviation SYS_EXIT :: u32 where "SYS_EXIT \<equiv> 2"
abbreviation SYS_SLEEP :: u32 where "SYS_SLEEP \<equiv> 3"
abbreviation SYS_SEND :: u32 where "SYS_SEND \<equiv> 4"
abbreviation SYS_RECV :: u32 where "SYS_RECV \<equiv> 5"

text \<open>\<open>struct registers\<close>: edi, esi, ebp, esp_dummy, ebx, edx, ecx, eax, four bytes each.\<close>

definition regs_ebx :: "u32 \<Rightarrow> mem \<Rightarrow> u32" where "regs_ebx regs m = rd32 m (regs + 16)"
definition regs_edx :: "u32 \<Rightarrow> mem \<Rightarrow> u32" where "regs_edx regs m = rd32 m (regs + 20)"
definition regs_ecx :: "u32 \<Rightarrow> mem \<Rightarrow> u32" where "regs_ecx regs m = rd32 m (regs + 24)"
definition regs_eax :: "u32 \<Rightarrow> mem \<Rightarrow> u32" where "regs_eax regs m = rd32 m (regs + 28)"

definition set_regs_eax :: "u32 \<Rightarrow> u32 \<Rightarrow> kernel \<Rightarrow> kernel" where
  "set_regs_eax regs v k = k\<lparr>kmem := wr32 (kmem k) (regs + 28) v\<rparr>"

text \<open>The case of \<open>SYS_RECV\<close>; \<open>len\<close> and \<open>sender\<close> are locals of the dispatcher.\<close>

definition sys_recv :: "u32 \<Rightarrow> kernel \<Rightarrow> kernel" where
  "sys_recv regs k =
     (case ipc_recv_msg (regs_ebx regs (kmem k)) k of
        (None, k) \<Rightarrow> set_regs_eax regs 0 k
      | (Some (len, sender), k) \<Rightarrow>
          (let m = kmem k;
               m = (if regs_ecx regs m \<noteq> 0 then wr32 m (regs_ecx regs m) len else m);
               m = (if regs_edx regs m \<noteq> 0 then wr32 m (regs_edx regs m) (word_of_int sender) else m)
           in set_regs_eax regs 1 (k\<lparr>kmem := m\<rparr>)))"

definition syscall_dispatch :: "layout \<Rightarrow> u32 \<Rightarrow> kernel \<Rightarrow> u32 outcome" where
  "syscall_dispatch L regs k =
     (let nr = regs_eax regs (kmem k) in
      if nr = SYS_PRINT then
        (case kprint_ptr (kmem k) (regs_ebx regs (kmem k)) (kscreen k) of
           None \<Rightarrow> Diverge
         | Some s \<Rightarrow> Ret regs (k\<lparr>kscreen := s\<rparr>))
      else if nr = SYS_EXIT then task_exit_and_reschedule L regs k
      else if nr = SYS_SLEEP then task_sleep_and_reschedule L (regs_ebx regs (kmem k)) regs k
      else if nr = SYS_SEND then
        (case ipc_send (sint (regs_ebx regs (kmem k))) (regs_ecx regs (kmem k)) (regs_edx regs (kmem k)) k of
           (r, k) \<Rightarrow> Ret regs (set_regs_eax regs (word_of_int r) k))
      else if nr = SYS_RECV then Ret regs (sys_recv regs k)
      else Ret regs k)"

subsection \<open>System calls keep the scheduler's invariant\<close>

text \<open>The register block lies inside the kernel stack of the calling task: the processor switched to
  TSS.esp0 on entry from ring 3.\<close>

definition regs_on_stack :: "u32 \<Rightarrow> kernel \<Rightarrow> bool" where
  "regs_on_stack regs k \<longleftrightarrow> current_task k \<in> stack_owners (tasks k) \<and>
     stack_of (tasks k) (current_task k) \<le> unat regs \<and>
     unat regs + 32 \<le> stack_of (tasks k) (current_task k) + 4096"

lemma safe_store_trans:
  assumes "sched_inv k" "i \<in> stack_owners (tasks k)" "unat a + 4 \<le> stack_of (tasks k) i + 4096"
    "stack_of (tasks k) i \<le> unat a"
  shows "safe_store k (wr32 (kmem k) a v)"
proof -
  have "stack_of (tasks k) i + 4096 < 2 ^ 32"
    using kheap.buffers_bounds [OF inv_buffers [OF assms(1)]] assms(2) by auto
  then have "x \<in> region a 4 \<longleftrightarrow> unat a \<le> unat x \<and> unat x < unat a + 4" for x
    using assms(3) by (intro region_iff) simp
  then have "stack_of (tasks k) i \<le> unat x \<and> unat x < stack_of (tasks k) i + 4096"
    if "wr32 (kmem k) a v x \<noteq> kmem k x" for x
    using wr32_outside [of x a "kmem k" v] that assms(3,4) by fastforce
  with assms(2) show ?thesis by (auto simp: safe_store_def)
qed

lemma set_regs_eax_inv:
  assumes "sched_inv k" "regs_on_stack regs k"
  shows "sched_inv (set_regs_eax regs v k)"
proof -
  let ?i = "current_task k"
  have b: "stack_of (tasks k) ?i + 4096 < 2 ^ 32"
    using kheap.buffers_bounds [OF inv_buffers [OF assms(1)]] assms(2) by (auto simp: regs_on_stack_def)
  then have "unat (regs + 28) = unat regs + 28"
    using assms(2) by (intro unat_plus_numeral) (simp add: regs_on_stack_def)
  then have "safe_store k (wr32 (kmem k) (regs + 28) v)"
    using assms(2) by (intro safe_store_trans [OF assms(1), of ?i]) (simp_all add: regs_on_stack_def)
  from safe_store_inv [OF assms(1) this] show ?thesis by (simp add: set_regs_eax_def)
qed

lemma regs_on_stack_upd:
  assumes "regs_on_stack regs k" "active t = active (tasks k i)" "stack_base t = stack_base (tasks k i)"
  shows "regs_on_stack regs (upd_task i (\<lambda>_. t) k)"
proof -
  have "stack_owners ((tasks k)(i := t)) = stack_owners (tasks k)"
    using assms(2,3) by (auto simp: stack_owners_def live_tasks_def)
  moreover have "stack_of ((tasks k)(i := t)) j = stack_of (tasks k) j" for j
    using assms(3) by (simp add: stack_of_def)
  ultimately show ?thesis using assms(1) by (simp add: regs_on_stack_def upd_task_def)
qed

lemma ipc_send_upd:
  assumes "ipc_send pid data len k = (r, k1)"
  shows "\<exists>i t. k1 = upd_task i (\<lambda>_. t) k \<and> active t = active (tasks k i) \<and> stack_base t = stack_base (tasks k i)"
proof (cases "valid_pid pid k")
  case False
  then have "k1 = upd_task 0 (\<lambda>_. tasks k 0) k" using assms by (simp add: ipc_send_def upd_task_def)
  then show ?thesis by blast
next
  case True
  obtain ok t where p: "mailbox_put (kmem k) data len (int (current_task k)) (tasks k (nat pid)) = (ok, t)"
    by (cases "mailbox_put (kmem k) data len (int (current_task k)) (tasks k (nat pid))")
  then have "k1 = upd_task (nat pid) (\<lambda>_. t) k" using assms True by (auto simp: ipc_send_def)
  then show ?thesis using mailbox_put_fields [OF p] by blast
qed

lemma sys_recv_upd:
  "\<exists>t. sys_recv regs k = upd_task (current_task k) (\<lambda>_. t) (k\<lparr>kmem := kmem (sys_recv regs k)\<rparr>) \<and>
    active t = active (cur k) \<and> stack_base t = stack_base (cur k) \<and> addr_space t = addr_space (cur k) \<and>
    (mbox_ok (cur k) \<longrightarrow> mbox_ok t)"
proof -
  obtain v t where g: "mailbox_get (cur k) = (v, t)" by (cases "mailbox_get (cur k)")
  show ?thesis
  proof (cases v)
    case None
    then have "sys_recv regs k = set_regs_eax regs 0 k" using g by (simp add: sys_recv_def ipc_recv_msg_def)
    then show ?thesis
      by (intro exI [of _ "cur k"]) (simp add: set_regs_eax_def upd_task_def)
  next
    case (Some msg)
    obtain bytes len sender where "msg = (bytes, len, sender)" by (cases msg)
    then show ?thesis using g Some mailbox_get_fields [OF g]
      by (intro exI [of _ t]) (simp add: sys_recv_def ipc_recv_msg_def set_regs_eax_def upd_task_def Let_def)
  qed
qed

lemma syscall_inv:
  assumes "sched_inv k" "regs_on_stack regs k" "syscall_dispatch L regs k = Ret r k'"
    "regs_eax regs (kmem k) = SYS_RECV \<longrightarrow> safe_store k (kmem k')"
  shows "sched_inv k'"
proof -
  let ?nr = "regs_eax regs (kmem k)"
  consider "?nr = SYS_PRINT" | "?nr = SYS_EXIT" | "?nr = SYS_SLEEP" | "?nr = SYS_SEND" | "?nr = SYS_RECV"
    | "?nr \<notin> {SYS_PRINT, SYS_EXIT, SYS_SLEEP, SYS_SEND, SYS_RECV}" by auto
  then show ?thesis
  proof cases
    case 1
    then show ?thesis using assms(1,3) by (auto simp: syscall_dispatch_def sched_inv_def split: option.splits)
  next
    case 2
    then show ?thesis using assms(1,3) exit_call_inv by (simp add: syscall_dispatch_def)
  next
    case 3
    then show ?thesis using assms(1,3) schedule_inv [OF set_sleep_inv]
      by (simp add: syscall_dispatch_def task_sleep_and_reschedule_def)
  next
    case 4
    obtain st k1 where s: "ipc_send (sint (regs_ebx regs (kmem k))) (regs_ecx regs (kmem k))
        (regs_edx regs (kmem k)) k = (st, k1)" by (rule prod.exhaust)
    have "regs_on_stack regs k1" using ipc_send_upd [OF s] regs_on_stack_upd [OF assms(2)] by metis
    then have "sched_inv (set_regs_eax regs (word_of_int st) k1)"
      using ipc_send_inv [OF assms(1) s] by (rule set_regs_eax_inv [rotated])
    then show ?thesis using 4 s assms(3) by (auto simp: syscall_dispatch_def)
  next
    case 5
    then have k': "k' = sys_recv regs k" using assms(3) by (auto simp: syscall_dispatch_def)
    obtain t where t: "k' = upd_task (current_task k) (\<lambda>_. t) (k\<lparr>kmem := kmem k'\<rparr>)"
      "active t = active (cur k)" "stack_base t = stack_base (cur k)" "addr_space t = addr_space (cur k)"
      "mbox_ok (cur k) \<longrightarrow> mbox_ok t"
      using sys_recv_upd [of regs k] unfolding k' [symmetric] by blast
    have "sched_inv (upd_task (current_task k) (\<lambda>_. t) (k\<lparr>kmem := kmem k'\<rparr>))"
      by (rule upd_task_inv [OF safe_store_inv [OF assms(1)]]) (use t assms(4) 5 in auto)
    then show ?thesis using t(1) by simp
  next
    case 6
    then show ?thesis using assms(1,3) by (simp add: syscall_dispatch_def)
  qed
qed

subsection \<open>Properties\<close>

text \<open>
  Remark. Every system call made with the register block on the caller's own kernel
  stack keeps the scheduler's invariant, whatever the call number and the arguments; for \<open>SYS_RECV\<close>
  under the condition that the caller's pointers stay clear of the heap's headers, which the
  kernel does not check.
\<close>

theorem syscall_keeps_inv:
  assumes "sched_inv k" "regs_on_stack regs k" "syscall_dispatch L regs k = Ret r k'"
    "regs_eax regs (kmem k) = SYS_RECV \<longrightarrow> safe_store k (kmem k')"
  shows "sched_inv k'"
  by (rule syscall_inv [OF assms])

lemma boot_syscall_state:
  "\<exists>k. sched_inv k \<and> regs_on_stack 0x100800 k \<and> regs_eax 0x100800 (kmem k) = nr"
proof -
  obtain k1 where k1: "create_task example_layout 0x9400 0xF010 (boot_kernel example_layout (\<lambda>_. 0)) = Ret 1 k1"
    "stack_base (tasks k1 1) = 0x10000C" "active (tasks k1 1)" using boot_create_stack by blast
  let ?k = "k1\<lparr>current_task := 1\<rparr>"
  have "sched_inv ?k" using create_task_inv [OF boot_inv k1(1)] by (simp add: sched_inv_def)
  moreover have "regs_on_stack 0x100800 ?k"
    using k1(2,3) by (simp add: regs_on_stack_def stack_owners_def live_tasks_def stack_of_def)
  ultimately have "sched_inv (set_regs_eax 0x100800 nr ?k)" "regs_on_stack 0x100800 (set_regs_eax 0x100800 nr ?k)"
    using set_regs_eax_inv [of ?k "0x100800" nr] by (simp, simp add: regs_on_stack_def set_regs_eax_def)
  moreover have "regs_eax 0x100800 (kmem (set_regs_eax 0x100800 nr ?k)) = nr"
    by (simp add: regs_eax_def set_regs_eax_def)
  ultimately show ?thesis by blast
qed

theorem syscall_keeps_inv_witness:
  "\<exists>k r k'. regs_eax 0x100800 (kmem k) = 99 \<and> syscall_dispatch example_layout 0x100800 k = Ret r k' \<and> sched_inv k'"
proof -
  obtain k where k: "sched_inv k" "regs_on_stack 0x100800 k" "regs_eax 0x100800 (kmem k) = 99"
    using boot_syscall_state by blast
  then have r: "syscall_dispatch example_layout 0x100800 k = Ret 0x100800 k"
    by (simp add: syscall_dispatch_def)
  from syscall_keeps_inv [OF k(1,2) r] k r show ?thesis by auto
qed

text \<open>
  Remark. \<open>SYS_SEND\<close> resumes the caller with the status of \<open>ipc_send\<close> (1, 0 or -1) in
  EAX, and writes no other byte of memory.
\<close>

theorem syscall_send_result:
  assumes "regs_eax regs (kmem k) = SYS_SEND"
    "ipc_send (sint (regs_ebx regs (kmem k))) (regs_ecx regs (kmem k)) (regs_edx regs (kmem k)) k = (st, k1)"
  shows "\<exists>k'. syscall_dispatch L regs k = Ret regs k' \<and> regs_eax regs (kmem k') = word_of_int st \<and>
    tasks k' = tasks k1 \<and> (\<forall>x. x \<notin> region (regs + 28) 4 \<longrightarrow> kmem k' x = kmem k x)"
proof -
  obtain i t where "k1 = upd_task i (\<lambda>_. t) k" using ipc_send_upd [OF assms(2)] by blast
  then have "kmem k1 = kmem k" by (simp add: upd_task_def)
  then show ?thesis using assms by (simp add: syscall_dispatch_def set_regs_eax_def regs_eax_def wr32_outside)
qed

theorem syscall_send_result_witness:
  "\<exists>k k' st. regs_eax 0x100800 (kmem k) = SYS_SEND \<and> syscall_dispatch example_layout 0x100800 k = Ret 0x100800 k' \<and>
    regs_eax 0x100800 (kmem k') = word_of_int st"
proof -
  obtain k :: kernel where k: "regs_eax 0x100800 (kmem k) = SYS_SEND" using boot_syscall_state [of SYS_SEND] by auto
  obtain st k1 where s: "ipc_send (sint (regs_ebx 0x100800 (kmem k))) (regs_ecx 0x100800 (kmem k))
      (regs_edx 0x100800 (kmem k)) k = (st, k1)" by (rule prod.exhaust)
  from syscall_send_result [OF k s, of example_layout] k show ?thesis by blast
qed

text \<open>
  Remark. \<open>SYS_PRINT\<close> does not check its pointer: the bytes up to the next zero are
  printed from any address, also one that the page tables close to ring 3.
\<close>

theorem sys_print_unchecked:
  assumes "regs_eax regs (kmem k) = SYS_PRINT" "translate L (kpaging k) True False (regs_ebx regs (kmem k)) = None"
    "cstring_at (kmem k) (regs_ebx regs (kmem k)) [] = Some cs"
  shows "\<exists>k'. syscall_dispatch L regs k = Ret regs k' \<and>
    serial_text (kscreen k') = serial_text (kscreen k) @ cs"
  using kprint_ptr_serial [OF assms(3), of "kscreen k"] assms(1) by (auto simp: syscall_dispatch_def)

lemma region_fields:
  "region (a + 4) 4 \<subseteq> region a 16" "region (a + 8) 4 \<subseteq> region a 16" "region (a + 12) 4 \<subseteq> region a 16"
  by (auto simp: region_shift_numeral intro: region_mono)

text \<open>
  Remark. \<open>SYS_RECV\<close> does not check its pointers either: the oldest message is written
  to any address, also one that the page tables close to ring 3, so a task can have bytes of its
  choice (sent by itself or another task) stored over kernel memory.
\<close>

theorem sys_recv_unchecked:
  assumes "mbox_ok (cur k)" "mbox_items (cur k) = (bytes, len, sender) # rest"
    "regs_eax regs (kmem k) = SYS_RECV" "regs_ebx regs (kmem k) = p"
    "translate L (kpaging k) True True p = None"
    "regs_ecx regs (kmem k) = 0" "regs_edx regs (kmem k) = 0"
    "region p (length bytes) \<inter> region (regs + 16) 16 = {}"
  shows "\<exists>k'. syscall_dispatch L regs k = Ret regs k' \<and> mem_read (kmem k') p (length bytes) = bytes"
proof -
  obtain v t where g: "mailbox_get (cur k) = (v, t)" by (cases "mailbox_get (cur k)")
  have v: "v = Some (bytes, len, sender)" using mq.get_item [OF assms(1,2) g] by simp
  let ?m = "mem_write (kmem k) p bytes"
  have len: "length bytes \<le> 2 ^ 32"
  proof -
    have "length bytes = unat len"
      using g v assms(1) by (auto simp: mailbox_get_def Let_def split: if_splits)
    then show ?thesis using unsigned_less [of len, where 'a = nat] by simp
  qed
  have sub: "region (regs + 16 + 4) 4 \<subseteq> region (regs + 16) 16" "region (regs + 16 + 8) 4 \<subseteq> region (regs + 16) 16"
    "region (regs + 16 + 12) 4 \<subseteq> region (regs + 16) 16"
    by (rule region_fields)+
  have apart: "?m x = kmem k x" if "x \<in> region (regs + 16) 16" for x
    using that assms(8) mem_write_outside [OF len] by blast
  have "regs_ecx regs ?m = regs_ecx regs (kmem k)" "regs_edx regs ?m = regs_edx regs (kmem k)"
    unfolding regs_ecx_def regs_edx_def
    by (rule rd32_cong, rule apart, use sub in \<open>auto simp: add.assoc\<close>)+
  then have c: "regs_ecx regs ?m = 0" "regs_edx regs ?m = 0" using assms(6,7) by simp_all
  then have "syscall_dispatch L regs k = Ret regs (sys_recv regs k)"
    "kmem (sys_recv regs k) = wr32 ?m (regs + 28) 1"
    using assms(3,4) g v
    by (simp_all add: syscall_dispatch_def sys_recv_def ipc_recv_msg_def upd_task_def set_regs_eax_def Let_def)
  moreover have "mem_read (wr32 ?m (regs + 28) 1) p (length bytes) = mem_read ?m p (length bytes)"
    by (rule mem_write_read_other [OF len]) (use sub(3) assms(8) in \<open>auto simp: add.assoc\<close>)
  moreover have "mem_read ?m p (length bytes) = bytes" by (rule mem_read_write_same [OF len])
  ultimately show ?thesis by auto
qed

definition recv_example :: kernel where
  "recv_example =
     upd_task 0 (\<lambda>t. t\<lparr>mailbox := (\<lambda>_ _. 7), mailbox_len := (\<lambda>_. 2), mailbox_count := 1\<rparr>)
       ((boot_kernel example_layout (\<lambda>_. 0))\<lparr>kmem := wr32 (wr32 (\<lambda>_. 0) 0x10081C 5) 0x100810 0x30000\<rparr>)"

theorem sys_recv_unchecked_witness:
  "\<exists>k'. syscall_dispatch example_layout 0x100800 recv_example = Ret 0x100800 k' \<and>
    mem_read (kmem k') 0x30000 2 = [7, 7]"
proof -
  let ?k = recv_example
  have c: "cur ?k = (tasks (boot_kernel example_layout (\<lambda>_. 0)) 0)
      \<lparr>mailbox := (\<lambda>_ _. 7), mailbox_len := (\<lambda>_. 2), mailbox_count := 1\<rparr>"
    by (simp add: recv_example_def upd_task_def)
  have ok: "mbox_ok (cur ?k)"
    by (simp add: c mbox_ok_def boot_kernel_tasks init_task_def mailbox_reset_def)
  have items: "mbox_items (cur ?k) = ([7, 7], 2, -1) # []"
    by (simp add: c mbox_items_def boot_kernel_tasks init_task_def mailbox_reset_def blank_task_def
        ring_list_def mbox_slot_def fold_upd upt_rec)
  have m: "kmem ?k = wr32 (wr32 (\<lambda>_. 0) 0x10081C 5) 0x100810 0x30000"
    by (simp add: recv_example_def upd_task_def)
  have regs: "regs_eax 0x100800 (kmem ?k) = SYS_RECV" "regs_ebx 0x100800 (kmem ?k) = 0x30000"
    "regs_ecx 0x100800 (kmem ?k) = 0" "regs_edx 0x100800 (kmem ?k) = 0"
    by (simp_all add: m regs_eax_def regs_ebx_def regs_ecx_def regs_edx_def rd32_def wr32_def bytes32_def)
  have p: "kpaging ?k = paging_init example_layout blank_paging" by (simp add: recv_example_def upd_task_def)
  have "translate example_layout (kpaging ?k) True True 0x30000 = None"
    unfolding p by (subst translate_kernel [OF example_layout_paging paging_init_kernel])
      (simp_all add: paging_init_def touches_iff example_layout_def)
  moreover have "region 0x30000 (length [7 :: u8, 7]) \<inter> region (0x100800 + 16) 16 = {}"
    by (auto simp: region_iff)
  ultimately show ?thesis
    using sys_recv_unchecked [OF ok items regs(1,2) _ regs(3,4), of example_layout] by (simp add: numeral_2_eq_2)
qed

end
