(* ===== verification/Trap.thy ===== *)
theory Trap
  imports Syscall
begin

text \<open>
  Crossing into the kernel and back: \<open>timer_handler\<close> (\<open>kernel/sched.c\<close>) and \<open>syscall_handler\<close>
  (\<open>kernel/syscall.c\<close>) as a whole, from the registers of the interrupted code to the registers of the
  code that runs next.

  On an interrupt the processor pushes EFLAGS, CS and EIP, preceded by SS and ESP and on the stack of
  TSS.esp0 when it comes from ring 3; \<open>pushal\<close> adds the general registers. The handler hands the stack
  pointer to C code and loads the returned one; \<open>popal; iret\<close> is \<open>resume\<close>. The cells below the saved pointer,
  where the C code runs, are scratch and left out.

  The record \<open>cpu\<close> holds the registers that this frame holds: the general ones, EIP, EFLAGS, CS, ESP and SS. The data segment
  registers are in \<open>segs\<close>: no handler saves or loads them, so \<open>with_segs\<close> hands them from the interrupted code to the code that
  runs next, up to what \<open>iret\<close> itself does to them, and the C code of a handler faults when DS or ES is null.
\<close>

definition in_ring0 :: "cpu \<Rightarrow> bool" where
  "in_ring0 c \<longleftrightarrow> r_cs c AND 3 = 0"

definition trap_words :: "cpu \<Rightarrow> u32 list" where
  "trap_words c = (if in_ring0 c then [] else [r_ss c, r_esp c]) @ [r_eflags c, r_cs c, r_eip c]"

definition pushal_words :: "cpu \<Rightarrow> u32 \<Rightarrow> u32 list" where
  "pushal_words c sp = [r_eax c, r_ecx c, r_edx c, r_ebx c, sp, r_ebp c, r_esi c, r_edi c]"

definition save_context_regs :: "cpu \<Rightarrow> kernel \<Rightarrow> u32 \<times> kernel" where
  "save_context_regs c k =
     (let tos = (if in_ring0 c then r_esp c else esp0 (tss (kgdt k)));
          (m, sp) = push_words (trap_words c) (kmem k) tos;
          (m, e) = push_words (pushal_words c sp) m sp
      in (e, k\<lparr>kmem := m\<rparr>))"

definition timer_handler :: "layout \<Rightarrow> cpu \<Rightarrow> kernel \<Rightarrow> cpu outcome" where
  "timer_handler L c k =
     (let (e, k) = save_context_regs c k in
      case schedule L e k of
        Ret e k \<Rightarrow> Ret (resume (kmem k) e) (k\<lparr>kscreen := outs [(0x20, 0x20)] (kscreen k)\<rparr>)
      | Halt k \<Rightarrow> Halt k
      | Diverge \<Rightarrow> Diverge)"

definition syscall_handler :: "layout \<Rightarrow> cpu \<Rightarrow> kernel \<Rightarrow> cpu outcome" where
  "syscall_handler L c k =
     (let (e, k) = save_context_regs c k in
      case syscall_dispatch L e k of
        Ret e k \<Rightarrow> Ret (resume (kmem k) e) k
      | Halt k \<Rightarrow> Halt k
      | Diverge \<Rightarrow> Diverge)"

subsection \<open>Data segments\<close>

record segs =
  s_ds :: u16
  s_es :: u16
  s_fs :: u16
  s_gs :: u16

definition null_selector :: "u16 \<Rightarrow> bool" where
  "null_selector s \<longleftrightarrow> drop_bit 2 s = 0"

text \<open>A return to ring 3 nulls a selector of a more privileged segment (no segment of this table is conforming code).\<close>

definition iret_selector :: "gdt_state \<Rightarrow> cpu \<Rightarrow> u16 \<Rightarrow> u16" where
  "iret_selector g c s =
     (if \<not> in_ring0 c \<and> \<not> null_selector s \<and> dpl (gdt g (unat (drop_bit 3 s))) < 3 then 0 else s)"

definition iret_segs :: "gdt_state \<Rightarrow> cpu \<Rightarrow> segs \<Rightarrow> segs" where
  "iret_segs g c sg = \<lparr>s_ds = iret_selector g c (s_ds sg), s_es = iret_selector g c (s_es sg),
     s_fs = iret_selector g c (s_fs sg), s_gs = iret_selector g c (s_gs sg)\<rparr>"

text \<open>A handler with the data segments: \<open>None\<close> is a protection fault at the first data access of its C code.\<close>

definition with_segs :: "(layout \<Rightarrow> cpu \<Rightarrow> kernel \<Rightarrow> cpu outcome) \<Rightarrow> layout \<Rightarrow> cpu \<times> segs \<Rightarrow> kernel \<Rightarrow> (cpu \<times> segs) outcome option" where
  "with_segs handler L cs k =
     (case cs of (c, sg) \<Rightarrow>
        if null_selector (s_ds sg) \<or> null_selector (s_es sg) then None
        else Some (case handler L c k of
                     Ret c' k' \<Rightarrow> Ret (c', iret_segs (kgdt k') c' sg) k'
                   | Halt k' \<Rightarrow> Halt k'
                   | Diverge \<Rightarrow> Diverge))"

definition timer_trap :: "layout \<Rightarrow> cpu \<times> segs \<Rightarrow> kernel \<Rightarrow> (cpu \<times> segs) outcome option" where
  "timer_trap = with_segs timer_handler"

definition syscall_trap :: "layout \<Rightarrow> cpu \<times> segs \<Rightarrow> kernel \<Rightarrow> (cpu \<times> segs) outcome option" where
  "syscall_trap = with_segs syscall_handler"

definition flat_segs :: "u16 \<Rightarrow> segs" where
  "flat_segs s = \<lparr>s_ds = s, s_es = s, s_fs = s, s_gs = s\<rparr>"

subsection \<open>The saved frame\<close>

lemma push_words_append:
  "push_words (us @ vs) m sp = (let (m, sp) = push_words us m sp in push_words vs m sp)"
  by (induction us m sp rule: push_words.induct) simp_all

text \<open>The frame of a ring-3 task: 52 bytes at the top of its kernel stack.\<close>

definition frame_words :: "cpu \<Rightarrow> u32 \<Rightarrow> u32 list" where
  "frame_words c tos = [r_ss c, r_esp c, r_eflags c, r_cs c, r_eip c, r_eax c, r_ecx c, r_edx c, r_ebx c,
     tos - 20, r_ebp c, r_esi c, r_edi c]"

lemma save_context_user:
  assumes "\<not> in_ring0 c" "tos = esp0 (tss (kgdt k))"
  shows "save_context_regs c k = (tos - 52, k\<lparr>kmem := fst (push_words (frame_words c tos) (kmem k) tos)\<rparr>)"
proof -
  let ?t = "trap_words c"
  have sp: "snd (push_words ?t (kmem k) tos) = tos - 20"
    using assms(1) push_words_sp [of ?t "kmem k" tos] by (simp add: trap_words_def)
  have f: "frame_words c tos = ?t @ pushal_words c (tos - 20)"
    using assms(1) by (simp add: frame_words_def trap_words_def pushal_words_def)
  have e: "snd (push_words (frame_words c tos) (kmem k) tos) = tos - 52"
    using push_words_sp [of "frame_words c tos" "kmem k" tos] by (simp add: frame_words_def)
  obtain m1 where p1: "push_words ?t (kmem k) tos = (m1, tos - 20)" using sp by (metis prod.collapse)
  have p2: "push_words (frame_words c tos) (kmem k) tos = push_words (pushal_words c (tos - 20)) m1 (tos - 20)"
    by (simp add: f push_words_append p1)
  obtain m2 where "push_words (frame_words c tos) (kmem k) tos = (m2, tos - 52)" using e by (metis prod.collapse)
  moreover from this have "push_words (pushal_words c (tos - 20)) m1 (tos - 20) = (m2, tos - 52)" by (simp only: p2)
  ultimately show ?thesis using assms p1 by (simp add: save_context_regs_def)
qed

lemma resume_words:
  assumes "\<not> in_ring0 c" "\<And>i. i < 13 \<Longrightarrow> i \<noteq> 3 \<Longrightarrow> rd32 m (e + 4 * of_nat i) = frame_words c tos ! (12 - i)"
  shows "resume m e = c"
proof -
  have ring: "frame_words c tos ! 3 AND 3 \<noteq> 0" using assms(1) by (simp add: frame_words_def in_ring0_def)
  show ?thesis
    using assms(2) [of 0] assms(2) [of 1] assms(2) [of 2] assms(2) [of 4] assms(2) [of 5] assms(2) [of 6] assms(2) [of 7]
      assms(2) [of 8] assms(2) [of 9] assms(2) [of 10] assms(2) [of 11] assms(2) [of 12] ring
    by (simp add: resume_def frame_words_def Let_def)
qed

lemma pushed_words:
  assumes "52 \<le> unat tos" "i < 13"
  shows "rd32 (fst (push_words (frame_words c tos) m tos)) (tos - 52 + 4 * of_nat i) = frame_words c tos ! (12 - i)"
proof -
  have len: "length (frame_words c tos) = 13" by (simp add: frame_words_def)
  obtain m1 e where p: "push_words (frame_words c tos) m tos = (m1, e)" by fastforce
  have e: "e = tos - 52" using push_words_sp [of "frame_words c tos" m tos] p by (simp add: frame_words_def)
  show ?thesis using frame_word [OF p, of i] assms len p e by simp
qed

text \<open>While a ring-3 task runs, TSS.esp0 is the top of its kernel stack, as \<open>schedule\<close> sets it.\<close>

definition user_running :: "cpu \<Rightarrow> kernel \<Rightarrow> bool" where
  "user_running c k \<longleftrightarrow> \<not> in_ring0 c \<and> current_task k \<in> stack_owners (tasks k) \<and>
     esp0 (tss (kgdt k)) = stack_base (cur k) + TASK_STACK_SIZE"

lemma user_stack_top:
  assumes "sched_inv k" "user_running c k" "tos = esp0 (tss (kgdt k))"
  shows "unat tos = stack_of (tasks k) (current_task k) + 4096" "52 \<le> unat tos"
proof -
  have "stack_of (tasks k) (current_task k) + 4096 < 2 ^ 32"
    using kheap.buffers_bounds [OF inv_buffers [OF assms(1)]] assms(2) by (auto simp: user_running_def)
  then have "unat (stack_base (cur k) + 4096) = unat (stack_base (cur k)) + 4096"
    by (intro unat_plus_numeral) (simp add: stack_of_def)
  then show "unat tos = stack_of (tasks k) (current_task k) + 4096" using assms(2,3)
    by (simp add: user_running_def stack_of_def)
  then show "52 \<le> unat tos" by simp
qed

text \<open>What entering the kernel writes: the frame, inside the kernel stack of the running task.\<close>

lemma save_context_effect:
  assumes "sched_inv k" "user_running c k" "save_context_regs c k = (e, k1)"
  defines "tos \<equiv> esp0 (tss (kgdt k))"
  shows "k1 = k\<lparr>kmem := fst (push_words (frame_words c tos) (kmem k) tos)\<rparr>" "e = tos - 52" "sched_inv k1"
    "\<And>x. unat x < unat tos - 52 \<or> unat tos \<le> unat x \<Longrightarrow> kmem k1 x = kmem k x"
proof -
  have r: "\<not> in_ring0 c" using assms(2) by (simp add: user_running_def)
  show k1: "k1 = k\<lparr>kmem := fst (push_words (frame_words c tos) (kmem k) tos)\<rparr>" and "e = tos - 52"
    using save_context_user [OF r, of tos k] assms(3) by (simp_all add: tos_def)
  note u = user_stack_top [OF assms(1,2) meta_eq_to_obj_eq [OF assms(4)]]
  show out: "kmem k1 x = kmem k x" if "unat x < unat tos - 52 \<or> unat tos \<le> unat x" for x
    using push_words_outside [of "frame_words c tos" tos x "kmem k"] that u(2) by (simp add: k1 frame_words_def)
  have "safe_store k (kmem k1)" unfolding safe_store_def
  proof (intro disjI1 bexI [of _ "current_task k"] allI impI)
    fix x assume "kmem k1 x \<noteq> kmem k x"
    then show "stack_of (tasks k) (current_task k) \<le> unat x \<and> unat x < stack_of (tasks k) (current_task k) + 4096"
      using out [of x] u(1) by fastforce
  qed (use assms(2) in \<open>simp add: user_running_def\<close>)
  from safe_store_inv [OF assms(1) this] show "sched_inv k1" by (simp add: k1)
qed

text \<open>The words that \<open>popal; iret\<close> reads: 11 for a return within ring 0, 13 for one to ring 3.\<close>

definition frame_bytes :: "kernel \<Rightarrow> nat \<Rightarrow> nat" where
  "frame_bytes k j = (if in_ring0 (resume (kmem k) (esp (tasks k j))) then 44 else 52)"

lemma resume_cong:
  assumes "\<And>x. x \<in> region e (if in_ring0 (resume m e) then 44 else 52) \<Longrightarrow> m' x = m x"
  shows "resume m' e = resume m e"
proof -
  let ?n = "if in_ring0 (resume m e) then 44 else 52 :: nat"
  have w: "rd32 m' (e + 4 * of_nat i) = rd32 m (e + 4 * of_nat i)" if "4 * i + 4 \<le> ?n" for i
  proof (rule rd32_cong)
    fix x assume "x \<in> region (e + 4 * of_nat i) 4"
    then have "x \<in> region (e + of_nat (4 * i)) 4" by simp
    moreover have "4 * i + 4 \<le> 52" using that by (simp split: if_splits)
    ultimately have "x \<in> region e ?n" using region_shift [of "4 * i" 4 x e] that by (auto simp: in_region)
    then show "m' x = m x" by (rule assms)
  qed
  show ?thesis using w [of 0] w [of 1] w [of 2] w [of 4] w [of 5] w [of 6] w [of 7] w [of 8] w [of 9] w [of 10] w [of 11] w [of 12]
    by (simp add: resume_def in_ring0_def Let_def)
qed

text \<open>A suspended task whose frame lies in its own kernel stack.\<close>

definition suspended :: "kernel \<Rightarrow> nat \<Rightarrow> bool" where
  "suspended k j \<longleftrightarrow> j \<noteq> current_task k \<and> j \<in> stack_owners (tasks k) \<and> stack_of (tasks k) j \<le> unat (esp (tasks k j)) \<and>
     unat (esp (tasks k j)) + frame_bytes k j \<le> stack_of (tasks k) j + 4096"

lemma suspended_kept:
  assumes "sched_inv k" "current_task k \<in> stack_owners (tasks k)" "suspended k j"
    "\<And>x. unat x < stack_of (tasks k) (current_task k) \<or> stack_of (tasks k) (current_task k) + 4096 \<le> unat x \<Longrightarrow> m' x = kmem k x"
  shows "resume m' (esp (tasks k j)) = resume (kmem k) (esp (tasks k j))"
proof (rule resume_cong)
  let ?S = "stack_of (tasks k)" and ?i = "current_task k"
  have j: "j \<noteq> ?i" "j \<in> stack_owners (tasks k)" "?S j \<le> unat (esp (tasks k j))"
    "unat (esp (tasks k j)) + frame_bytes k j \<le> ?S j + 4096" using assms(3) by (simp_all add: suspended_def)
  have "inj_on ?S (stack_owners (tasks k))" using assms(1) by (simp add: sched_inv_def table_inv_def)
  then have "?S j \<noteq> ?S ?i" using j(1,2) assms(2) by (auto dest: inj_onD)
  then have sep: "?S j + 4096 \<le> ?S ?i \<or> ?S ?i + 4096 \<le> ?S j"
    using kheap.buffers_separate [OF inv_buffers [OF assms(1)]] j(2) assms(2) by blast
  have b: "?S j + 4096 < 2 ^ 32" using kheap.buffers_bounds [OF inv_buffers [OF assms(1)]] j(2) by auto
  fix x assume "x \<in> region (esp (tasks k j)) (if in_ring0 (resume (kmem k) (esp (tasks k j))) then 44 else 52)"
  then have "x \<in> region (esp (tasks k j)) (frame_bytes k j)" by (simp add: frame_bytes_def)
  then have "unat (esp (tasks k j)) \<le> unat x \<and> unat x < unat (esp (tasks k j)) + frame_bytes k j"
    using region_iff [of "esp (tasks k j)" "frame_bytes k j" x] j(4) b by simp
  then show "m' x = kmem k x" using sep j(3,4) by (intro assms(4)) linarith
qed

subsection \<open>Preemption\<close>

text \<open>C10. The timer interrupt of a ring-3 task that runs with usable DS and ES always ends, with one
  task running: the elected one, with the registers that its own saved frame holds. The frame of the interrupted task leads back to
  exactly the general registers, EIP, EFLAGS, ESP, CS and SS it was interrupted with, and what any other
  suspended task will resume with is as before. The data segment registers are not part of any frame: the elected task gets DS, ES, FS and GS as
  the interrupted one had them, ring-0 selectors nulled on the way to ring 3. No byte outside
  the kernel stack of the interrupted task changed, the invariant of the scheduler holds, and the interrupt is
  acknowledged.\<close>

theorem preemption_transparent:
  assumes "sched_inv k" "user_running c k" "\<not> null_selector (s_ds sg)" "\<not> null_selector (s_es sg)"
  shows "\<exists>c' k'. timer_trap L (c, sg) k = Some (Ret (c', iret_segs (kgdt k') c' sg) k') \<and> active (tasks k' (current_task k')) \<and>
    c' = resume (kmem k') (esp (tasks k' (current_task k'))) \<and>
    resume (kmem k') (esp (tasks k' (current_task k))) = c \<and>
    (\<forall>j. suspended k j \<longrightarrow> resume (kmem k') (esp (tasks k' j)) = resume (kmem k) (esp (tasks k j))) \<and>
    (\<forall>x. unat x < stack_of (tasks k) (current_task k) \<or> stack_of (tasks k) (current_task k) + 4096 \<le> unat x \<longrightarrow>
      kmem k' x = kmem k x) \<and> sched_inv k' \<and> last (out_log (kscreen k')) = (0x20, 0x20)"
proof -
  obtain e k1 where s: "save_context_regs c k = (e, k1)" by fastforce
  let ?t = "esp0 (tss (kgdt k))"
  note sv = save_context_effect [OF assms(1,2) s] and u = user_stack_top [OF assms(1,2) refl]
  have same: "tasks k1 = tasks k" "current_task k1 = current_task k" by (simp_all add: sv(1))
  have "current_task k1 < 16" "multitasking_enabled k1" "\<exists>d<16. active (tasks k1 d)"
    using sv(3) assms(2) by (auto simp: sched_inv_def user_running_def stack_owners_def live_tasks_def same)
  from schedule_elects [OF this, of L e] obtain d k2 where k2: "schedule L e k1 = Ret (esp (tasks k2 d)) k2"
    "current_task k2 = d" "active (tasks k2 d)" "kmem k2 = kmem k1" "esp (tasks k2 (current_task k)) = e"
    "\<And>j. j \<noteq> current_task k \<Longrightarrow> esp (tasks k2 j) = esp (tasks k j)" by (auto simp: same)
  let ?k = "k2\<lparr>kscreen := outs [(0x20, 0x20)] (kscreen k2)\<rparr>"
  have "timer_handler L c k = Ret (resume (kmem k2) (esp (tasks k2 d))) ?k"
    using s k2(1) by (simp add: timer_handler_def)
  then have h: "timer_trap L (c, sg) k =
      Some (Ret (resume (kmem k2) (esp (tasks k2 d)), iret_segs (kgdt ?k) (resume (kmem k2) (esp (tasks k2 d))) sg) ?k)"
    using assms(3,4) by (simp add: timer_trap_def with_segs_def)
  have "resume (kmem k2) (?t - 52) = c"
    by (rule resume_words [of c _ _ ?t])
      (use assms(2) pushed_words [OF u(2)] sv(1) k2(4) in \<open>simp_all add: user_running_def\<close>)
  moreover have out: "kmem k2 x = kmem k x"
    if "unat x < stack_of (tasks k) (current_task k) \<or> stack_of (tasks k) (current_task k) + 4096 \<le> unat x" for x
    using sv(4) [of x] that u k2(4) by auto
  moreover have "resume (kmem k2) (esp (tasks k2 j)) = resume (kmem k) (esp (tasks k j))" if "suspended k j" for j
    using suspended_kept [OF assms(1) _ that out] assms(2) k2(6) [of j] that by (simp add: user_running_def suspended_def)
  moreover have "sched_inv ?k" using schedule_inv [OF sv(3) k2(1)] by (simp add: sched_inv_def)
  ultimately show ?thesis using h k2(2-5) sv(2)
    by (intro exI [of _ "resume (kmem k2) (esp (tasks k2 d))"] exI [of _ ?k]) (simp add: outs_def)
qed

text \<open>A ring-3 task that has just been given the processor: the state after a user task is created and
  dispatched.\<close>

lemma boot_user_running:
  "\<exists>k. sched_inv k \<and> current_task k = 1 \<and> stack_of (tasks k) 1 = 0x10000C \<and> active (tasks k 0) \<and>
    mailbox_count (tasks k 0) = 0 \<and> (\<forall>c. \<not> in_ring0 c \<longrightarrow> user_running c k)"
proof -
  obtain k1 where k1: "create_task example_layout 0x9400 0xF010 (boot_kernel example_layout (\<lambda>_. 0)) = Ret 1 k1"
    "stack_base (tasks k1 1) = 0x10000C" "active (tasks k1 1)" using boot_create_stack by blast
  have a: "active (tasks k1 0)" "mailbox_count (tasks k1 0) = 0" using create_task_inv [OF boot_inv k1(1)] k1(1)
    by (auto simp: create_task_def Let_def boot_kernel_tasks init_blank_task init_task_def blank_task_def mailbox_reset_def start_task_def upd_task_def split: option.splits if_splits prod.splits)
  let ?k = "k1\<lparr>current_task := 1, kgdt := tss_set_kernel_stack (stack_base (tasks k1 1) + 4096) (kgdt k1)\<rparr>"
  have "sched_inv ?k" using create_task_inv [OF boot_inv k1(1)] by (simp add: sched_inv_def)
  moreover have "user_running c ?k" if "\<not> in_ring0 c" for c
    using that k1(2,3) by (simp add: user_running_def stack_owners_def live_tasks_def tss_set_kernel_stack_def)
  ultimately show ?thesis using k1(2) a by (intro exI [of _ ?k]) (simp add: stack_of_def)
qed

definition example_cpu :: cpu where
  "example_cpu = \<lparr>r_edi = 7, r_esi = 6, r_ebp = 5, r_ebx = 0, r_edx = 3, r_ecx = 0x5000, r_eax = SYS_SEND,
     r_eip = 0x9000, r_cs = 0x1B, r_eflags = 0x202, r_esp = 0x21000, r_ss = 0x23\<rparr>"

lemma example_cpu_ring3: "\<not> in_ring0 example_cpu"
  by (simp add: example_cpu_def in_ring0_def)

theorem preemption_transparent_witness:
  "\<exists>k c' sg' k'. timer_trap example_layout (example_cpu, flat_segs 0x23) k = Some (Ret (c', sg') k') \<and>
    resume (kmem k') (esp (tasks k' (current_task k))) = example_cpu"
proof -
  obtain k where "sched_inv k" "user_running example_cpu k" using boot_user_running example_cpu_ring3 by blast
  from preemption_transparent [OF this, of "flat_segs 0x23" example_layout] show ?thesis
    by (auto simp: flat_segs_def null_selector_def)
qed

text \<open>Remark. What that means for a ring-3 task: nothing loads its data segments. After start-up the kernel runs
  with DS = ES = FS = GS = 0x10; the first return to ring 3 nulls all four, and unless the program loads a selector of its own the next
  timer interrupt or system call faults in the kernel. A program that loads 0x23 keeps it, and so does all code that runs after it.\<close>

theorem user_data_segments_null:
  assumes "\<not> in_ring0 c"
  shows "iret_segs (gdt_init L g) c (flat_segs 0x10) = flat_segs 0 \<and>
    timer_trap L (c', flat_segs 0) k = None \<and> syscall_trap L (c', flat_segs 0) k = None \<and>
    iret_segs (gdt_init L g) d (flat_segs 0x23) = flat_segs 0x23"
proof -
  have "dpl (gdt (gdt_init L g) 2) = 0" "dpl (gdt (gdt_init L g) 4) = 3"
    by (simp_all add: gdt_init_def gdt_set_gate_def write_tss_def gdt_flush_def tss_flush_def gate_def dpl_def Let_def)
  then show ?thesis using assms
    by (simp add: iret_segs_def iret_selector_def flat_segs_def null_selector_def timer_trap_def syscall_trap_def with_segs_def)
qed

theorem user_data_segments_null_witness:
  "iret_segs (gdt_init example_layout blank_gdt) example_cpu (flat_segs 0x10) = flat_segs 0"
  using user_data_segments_null [OF example_cpu_ring3] by blast

subsection \<open>System calls\<close>

lemma frame_offset:
  fixes tos :: u32
  assumes "52 \<le> unat tos" "i < 13"
  shows "unat (tos - 52 + 4 * of_nat i) = unat tos - 52 + 4 * i"
proof -
  have "unat (tos - 52) = unat tos - 52" using unat_sub_nat [of 52 tos] assms(1) by simp
  moreover have "unat tos < 2 ^ 32" using unsigned_less [of tos, where 'a = nat] by simp
  ultimately have "unat (tos - 52 + of_nat (4 * i)) = unat tos - 52 + 4 * i"
    using assms unat_plus_no_wrap [of "tos - 52" "4 * i"] by simp
  then show ?thesis by simp
qed

lemma frame_regs:
  assumes "52 \<le> unat tos" "m = fst (push_words (frame_words c tos) m0 tos)" "e = tos - 52"
  shows "regs_eax e m = r_eax c" "regs_ebx e m = r_ebx c" "regs_ecx e m = r_ecx c" "regs_edx e m = r_edx c"
  using pushed_words [OF assms(1), of 7 c m0] pushed_words [OF assms(1), of 4 c m0]
    pushed_words [OF assms(1), of 6 c m0] pushed_words [OF assms(1), of 5 c m0]
  by (simp_all add: assms(2,3) regs_eax_def regs_ebx_def regs_ecx_def regs_edx_def frame_words_def)

lemma frame_set_eax:
  assumes "52 \<le> unat tos" "\<not> in_ring0 c" "m = fst (push_words (frame_words c tos) m0 tos)" "e = tos - 52"
  shows "resume (wr32 m (e + 28) v) e = c\<lparr>r_eax := v\<rparr>"
proof (rule resume_words [of _ _ _ tos])
  show "\<not> in_ring0 (c\<lparr>r_eax := v\<rparr>)" using assms(2) by (simp add: in_ring0_def)
  fix i :: nat assume i: "i < 13" "i \<noteq> 3"
  have w: "rd32 m (e + 4 * of_nat i) = frame_words c tos ! (12 - i)" using pushed_words [OF assms(1) i(1)] by (simp add: assms(3,4))
  show "rd32 (wr32 m (e + 28) v) (e + 4 * of_nat i) = frame_words (c\<lparr>r_eax := v\<rparr>) tos ! (12 - i)"
  proof (cases "i = 7")
    case True
    then show ?thesis by (simp add: frame_words_def)
  next
    case False
    have o: "unat (e + 28) = unat tos - 52 + 28" using frame_offset [OF assms(1), of 7] by (simp add: assms(4))
    have oi: "unat (e + 4 * of_nat i) = unat tos - 52 + 4 * i" using frame_offset [OF assms(1) i(1)] by (simp add: assms(4))
    have "unat tos < 2 ^ 32" using unsigned_less [of tos, where 'a = nat] by simp
    then have "region (e + 28) 4 \<inter> region (e + 4 * of_nat i) 4 = {}"
      using o oi False i(1) assms(1) by (auto simp: region_iff)
    then have "rd32 (wr32 m (e + 28) v) (e + 4 * of_nat i) = frame_words c tos ! (12 - i)" using w by (simp add: rd32_other)
    moreover have "i = 0 \<or> i = 1 \<or> i = 2 \<or> i = 4 \<or> i = 5 \<or> i = 6 \<or> i = 8 \<or> i = 9 \<or> i = 10 \<or> i = 11 \<or> i = 12"
      using i False by arith
    then have "frame_words (c\<lparr>r_eax := v\<rparr>) tos ! (12 - i) = frame_words c tos ! (12 - i)" by (auto simp: frame_words_def)
    ultimately show ?thesis by simp
  qed
qed

text \<open>What the processor and \<open>pushal\<close> wrote is invisible to \<open>ipc_send\<close> unless the message overlaps it.\<close>

lemma mailbox_put_cong:
  assumes "\<And>i. i < unat (if len > 128 then 128 else len) \<Longrightarrow> m' (a + of_nat i) = m (a + of_nat i)"
  shows "mailbox_put m' a len s t = mailbox_put m a len s t"
proof -
  have "copy_in m' a n b = copy_in m a n b" if "n = unat (if len > 128 then 128 else len)" for n b
    using assms that by (auto simp: copy_in_closed)
  then show ?thesis by (simp add: mailbox_put_def Let_def)
qed

lemma ipc_send_cong:
  assumes "\<And>i. i < unat (if len > 128 then 128 else len) \<Longrightarrow> m' (a + of_nat i) = kmem k (a + of_nat i)"
    "ipc_send pid a len k = (st, k2)"
  shows "ipc_send pid a len (k\<lparr>kmem := m'\<rparr>) = (st, k2\<lparr>kmem := m'\<rparr>)" "kmem k2 = kmem k"
  using assms(2)
  by (auto simp: mailbox_put_cong [of len m' a "kmem k", OF assms(1)] ipc_send_def valid_pid_def upd_task_def Let_def split: if_splits prod.splits)

lemma send_handled:
  assumes "sched_inv k" "user_running c k" "r_eax c = SYS_SEND"
    "\<And>i. i < unat (if r_edx c > 128 then 128 else r_edx c) \<Longrightarrow>
      unat (r_ecx c + of_nat i) \<notin> {stack_of (tasks k) (current_task k)..<stack_of (tasks k) (current_task k) + 4096}"
    "ipc_send (sint (r_ebx c)) (r_ecx c) (r_edx c) k = (st, k2)"
  shows "\<exists>k'. syscall_handler L c k = Ret (c\<lparr>r_eax := word_of_int st\<rparr>) k' \<and> tasks k' = tasks k2 \<and> sched_inv k' \<and>
    (\<forall>x. unat x \<notin> {stack_of (tasks k) (current_task k)..<stack_of (tasks k) (current_task k) + 4096} \<longrightarrow>
      kmem k' x = kmem k x)"
proof -
  obtain e k1 where s: "save_context_regs c k = (e, k1)" by fastforce
  let ?t = "esp0 (tss (kgdt k))"
  note sv = save_context_effect [OF assms(1,2) s] and u = user_stack_top [OF assms(1,2) refl]
  have r: "\<not> in_ring0 c" using assms(2) by (simp add: user_running_def)
  have km: "kmem k1 = fst (push_words (frame_words c ?t) (kmem k) ?t)" by (simp add: sv(1))
  note fr = frame_regs [OF u(2) km sv(2)]
  have "ipc_send (sint (r_ebx c)) (r_ecx c) (r_edx c) (k\<lparr>kmem := kmem k1\<rparr>) = (st, k2\<lparr>kmem := kmem k1\<rparr>)"
    by (rule ipc_send_cong(1) [OF _ assms(5)]) (use sv(4) assms(4) u in fastforce)
  then have snd1: "ipc_send (sint (r_ebx c)) (r_ecx c) (r_edx c) k1 = (st, k2\<lparr>kmem := kmem k1\<rparr>)" using sv(1) by simp
  let ?k = "set_regs_eax e (word_of_int st) (k2\<lparr>kmem := kmem k1\<rparr>)"
  have h: "syscall_handler L c k = Ret (resume (kmem ?k) e) ?k"
    using s snd1 assms(3) by (simp add: syscall_handler_def syscall_dispatch_def fr)
  have ue: "unat e = unat ?t - 52" "unat (e + 28) = unat ?t - 52 + 28"
    using frame_offset [OF u(2), of 0] frame_offset [OF u(2), of 7] by (simp_all add: sv(2))
  have ros: "regs_on_stack e k1" using ue(1) u(1) assms(2) by (simp add: regs_on_stack_def user_running_def sv(1))
  have "syscall_dispatch L e k1 = Ret e ?k" using snd1 assms(3) by (simp add: syscall_dispatch_def fr)
  from syscall_inv [OF sv(3) ros this] assms(3) have inv: "sched_inv ?k" by (simp add: fr)
  have out: "kmem ?k x = kmem k x"
    if "unat x \<notin> {stack_of (tasks k) (current_task k)..<stack_of (tasks k) (current_task k) + 4096}" for x
  proof -
    have "unat ?t < 2 ^ 32" using unsigned_less [of ?t, where 'a = nat] by simp
    then have "x \<notin> region (e + 28) 4" using that ue(2) u by (subst region_iff) auto
    then show ?thesis using sv(4) [of x] that u by (auto simp: set_regs_eax_def wr32_outside)
  qed
  have "resume (kmem ?k) e = c\<lparr>r_eax := word_of_int st\<rparr>"
    using frame_set_eax [OF u(2) r km sv(2)] by (simp add: set_regs_eax_def)
  with h inv out show ?thesis by (intro exI [of _ ?k]) (simp add: set_regs_eax_def)
qed

text \<open>Remark. \<open>int 0x80\<close> with \<open>SYS_SEND\<close> in EAX, seen from the ring-3 program: it continues behind
  the instruction with every register as before except EAX, which holds the status that \<open>ipc_send\<close> gives for
  the target, address and length in EBX, ECX and EDX; the mailboxes are those of \<open>ipc_send\<close>; the only memory
  that changed is the program's own kernel stack, and the scheduler's invariant holds. The message must
  not lie in that stack, which ring 3 cannot reach.\<close>

theorem syscall_send_abi:
  assumes "sched_inv k" "user_running c k" "r_eax c = SYS_SEND"
    "\<And>i. i < unat (if r_edx c > 128 then 128 else r_edx c) \<Longrightarrow>
      unat (r_ecx c + of_nat i) \<notin> {stack_of (tasks k) (current_task k)..<stack_of (tasks k) (current_task k) + 4096}"
    "ipc_send (sint (r_ebx c)) (r_ecx c) (r_edx c) k = (st, k2)"
  shows "\<exists>k'. syscall_handler L c k = Ret (c\<lparr>r_eax := word_of_int st\<rparr>) k' \<and> tasks k' = tasks k2 \<and> sched_inv k' \<and>
    (\<forall>x. unat x \<notin> {stack_of (tasks k) (current_task k)..<stack_of (tasks k) (current_task k) + 4096} \<longrightarrow>
      kmem k' x = kmem k x)"
  by (rule send_handled [OF assms])

theorem syscall_send_abi_witness:
  "\<exists>k k'. r_eax example_cpu = SYS_SEND \<and> syscall_handler example_layout example_cpu k = Ret (example_cpu\<lparr>r_eax := 1\<rparr>) k'"
proof -
  obtain k where k: "sched_inv k" "current_task k = 1" "stack_of (tasks k) 1 = 0x10000C" "active (tasks k 0)"
    "mailbox_count (tasks k 0) = 0" "user_running example_cpu k" using boot_user_running example_cpu_ring3 by blast
  obtain k2 where s: "ipc_send (sint (r_ebx example_cpu)) (r_ecx example_cpu) (r_edx example_cpu) k = (1, k2)"
    using k(4,5) by (simp add: example_cpu_def ipc_send_def valid_pid_def mailbox_put_def Let_def)
  have m: "unat (r_ecx example_cpu + of_nat i) \<notin> {stack_of (tasks k) (current_task k)..<stack_of (tasks k) (current_task k) + 4096}"
    if "i < unat (if r_edx example_cpu > 128 then 128 else r_edx example_cpu)" for i
  proof -
    have "i < 3" using that by (simp add: example_cpu_def)
    then have "i = 0 \<or> i = 1 \<or> i = 2" by arith
    then show ?thesis using k(2,3) by (auto simp: example_cpu_def)
  qed
  have e: "r_eax example_cpu = SYS_SEND" by (simp add: example_cpu_def)
  from syscall_send_abi [OF k(1,6) e m s, of example_layout] e show ?thesis by auto
qed

end
