(* ===== verification/Block_Device.thy ===== *)
theory Block_Device
  imports Mx_Prelude
begin

text \<open>
  The interface between the file system (\<open>drivers/fs.c\<close>) and the disk driver (\<open>drivers/ata.c\<close>): sectors
  of 512 bytes that are read and written whole. A transfer may be refused; a refused read changes
  nothing, and a refused write leaves every other sector as it was.
\<close>

type_synonym sector = "u8 list"

locale block_device =
  fixes content :: "'d \<Rightarrow> u32 \<Rightarrow> sector"
    and ready :: "'d \<Rightarrow> bool"
    and valid :: "u32 \<Rightarrow> bool"
    and rd :: "u32 \<Rightarrow> 'd \<Rightarrow> sector option \<times> 'd"
    and wr :: "u32 \<Rightarrow> sector \<Rightarrow> 'd \<Rightarrow> bool \<times> 'd"
  assumes read_ready: "ready d \<Longrightarrow> valid lba \<Longrightarrow> ready (snd (rd lba d))"
    and read_frame: "ready d \<Longrightarrow> valid lba \<Longrightarrow> content (snd (rd lba d)) = content d"
    and read_content: "ready d \<Longrightarrow> valid lba \<Longrightarrow> fst (rd lba d) = Some bs \<Longrightarrow> bs = content d lba"
    and write_ready: "ready d \<Longrightarrow> valid lba \<Longrightarrow> length bs = 512 \<Longrightarrow> ready (snd (wr lba bs d))"
    and write_content: "ready d \<Longrightarrow> valid lba \<Longrightarrow> length bs = 512 \<Longrightarrow> fst (wr lba bs d) \<Longrightarrow>
      content (snd (wr lba bs d)) lba = bs"
    and write_frame: "ready d \<Longrightarrow> valid lba \<Longrightarrow> length bs = 512 \<Longrightarrow> l \<noteq> lba \<Longrightarrow>
      content (snd (wr lba bs d)) l = content d l"
    and content_length: "ready d \<Longrightarrow> length (content d lba) = 512"

text \<open>A device that refuses no transfer.\<close>

locale reliable_device = block_device content ready valid rd wr
  for content :: "'d \<Rightarrow> u32 \<Rightarrow> sector" and ready valid rd wr +
  assumes read_succeeds: "ready d \<Longrightarrow> valid lba \<Longrightarrow> fst (rd lba d) \<noteq> None"
    and write_succeeds: "ready d \<Longrightarrow> valid lba \<Longrightarrow> length bs = 512 \<Longrightarrow> fst (wr lba bs d)"
begin

lemma read_result:
  "ready d \<Longrightarrow> valid lba \<Longrightarrow> \<exists>d'. rd lba d = (Some (content d lba), d') \<and> ready d' \<and> content d' = content d"
  using read_succeeds read_content read_ready read_frame by (cases "rd lba d") fastforce

lemma write_result:
  assumes "ready d" "valid lba" "length bs = 512"
  shows "\<exists>d'. wr lba bs d = (True, d') \<and> ready d' \<and> content d' = (content d)(lba := bs)"
proof -
  have "content (snd (wr lba bs d)) l = ((content d)(lba := bs)) l" for l
    using write_content write_frame write_succeeds assms by (cases "l = lba") simp_all
  then show ?thesis using write_succeeds [OF assms] write_ready [OF assms]
    by (cases "wr lba bs d") auto
qed

end

end
