(* ===== verification/Ata.thy ===== *)
theory Ata
  imports Block_Device
begin

text \<open>
  The ATA PIO driver, \<open>drivers/ata.c\<close>. The controller is hardware: a parameter of the model with the
  four port operations the driver uses (\<open>inb\<close>, \<open>outb\<close>, \<open>inw\<close>, \<open>outw\<close>). A reference drive that follows
  the ATA PIO protocol for single-sector commands instantiates it.
\<close>

subsection \<open>The driver\<close>

record 'd ports =
  inb :: "u16 \<Rightarrow> 'd \<Rightarrow> u8 \<times> 'd"
  outb :: "u16 \<Rightarrow> u8 \<Rightarrow> 'd \<Rightarrow> 'd"
  inw :: "u16 \<Rightarrow> 'd \<Rightarrow> u16 \<times> 'd"
  outw :: "u16 \<Rightarrow> u16 \<Rightarrow> 'd \<Rightarrow> 'd"

abbreviation ATA_DATA :: u16 where "ATA_DATA \<equiv> 0x1F0"
abbreviation ATA_SECTOR_CNT :: u16 where "ATA_SECTOR_CNT \<equiv> 0x1F2"
abbreviation ATA_LBA_LOW :: u16 where "ATA_LBA_LOW \<equiv> 0x1F3"
abbreviation ATA_LBA_MID :: u16 where "ATA_LBA_MID \<equiv> 0x1F4"
abbreviation ATA_LBA_HIGH :: u16 where "ATA_LBA_HIGH \<equiv> 0x1F5"
abbreviation ATA_DRIVE_SEL :: u16 where "ATA_DRIVE_SEL \<equiv> 0x1F6"
abbreviation ATA_COMMAND :: u16 where "ATA_COMMAND \<equiv> 0x1F7"
abbreviation ATA_STATUS :: u16 where "ATA_STATUS \<equiv> 0x1F7"
abbreviation ATA_CMD_READ :: u8 where "ATA_CMD_READ \<equiv> 0x20"
abbreviation ATA_CMD_WRITE :: u8 where "ATA_CMD_WRITE \<equiv> 0x30"
abbreviation ATA_CMD_FLUSH :: u8 where "ATA_CMD_FLUSH \<equiv> 0xE7"

text \<open>The polling loops, with the number of polls left.\<close>

fun wait_bsy_clear :: "'d ports \<Rightarrow> nat \<Rightarrow> 'd \<Rightarrow> bool \<times> 'd" where
  "wait_bsy_clear io 0 d = (False, d)"
| "wait_bsy_clear io (Suc n) d =
     (let (status, d) = inb io ATA_STATUS d in
      if status AND 0x01 \<noteq> 0 then (False, d)
      else if \<not> status AND 0x80 \<noteq> 0 then (True, d)
      else wait_bsy_clear io n d)"

fun wait_ready :: "'d ports \<Rightarrow> nat \<Rightarrow> 'd \<Rightarrow> bool \<times> 'd" where
  "wait_ready io 0 d = (False, d)"
| "wait_ready io (Suc n) d =
     (let (status, d) = inb io ATA_STATUS d in
      if status AND 0x01 \<noteq> 0 then (False, d)
      else if \<not> status AND 0x80 \<noteq> 0 \<and> status AND 0x08 \<noteq> 0 then (True, d)
      else wait_ready io n d)"

definition ATA_POLLS :: nat where
  "ATA_POLLS = 1000000"

definition ata_wait_bsy_clear :: "'d ports \<Rightarrow> 'd \<Rightarrow> bool \<times> 'd" where
  "ata_wait_bsy_clear io d = wait_bsy_clear io ATA_POLLS d"

definition ata_wait_ready :: "'d ports \<Rightarrow> 'd \<Rightarrow> bool \<times> 'd" where
  "ata_wait_ready io d = wait_ready io ATA_POLLS d"

text \<open>The six register writes that start a command.\<close>

definition ata_command :: "'d ports \<Rightarrow> u32 \<Rightarrow> u8 \<Rightarrow> 'd \<Rightarrow> 'd" where
  "ata_command io lba cmd d =
     (let d = outb io ATA_DRIVE_SEL (0xE0 OR ucast (drop_bit 24 lba AND 0x0F)) d;
          d = outb io ATA_SECTOR_CNT 1 d;
          d = outb io ATA_LBA_LOW (ucast lba) d;
          d = outb io ATA_LBA_MID (ucast (drop_bit 8 lba)) d;
          d = outb io ATA_LBA_HIGH (ucast (drop_bit 16 lba)) d
      in outb io ATA_COMMAND cmd d)"

text \<open>The transfer loops over the 256 words of a sector; a buffer is the list of its bytes.\<close>

fun read_words :: "'d ports \<Rightarrow> nat \<Rightarrow> 'd \<Rightarrow> u16 list \<times> 'd" where
  "read_words io 0 d = ([], d)"
| "read_words io (Suc n) d =
     (let (w, d) = inw io ATA_DATA d; (ws, d) = read_words io n d in (w # ws, d))"

fun write_words :: "'d ports \<Rightarrow> u16 list \<Rightarrow> 'd \<Rightarrow> 'd" where
  "write_words io [] d = d"
| "write_words io (w # ws) d = write_words io ws (outw io ATA_DATA w d)"

fun bytes_of_words :: "u16 list \<Rightarrow> u8 list" where
  "bytes_of_words [] = []"
| "bytes_of_words (w # ws) = ucast w # ucast (drop_bit 8 w) # bytes_of_words ws"

fun words_of_bytes :: "u8 list \<Rightarrow> u16 list" where
  "words_of_bytes (lo # hi # bs) = (ucast lo OR push_bit 8 (ucast hi)) # words_of_bytes bs"
| "words_of_bytes _ = []"

definition ata_read_sector_once :: "'d ports \<Rightarrow> u32 \<Rightarrow> 'd \<Rightarrow> sector option \<times> 'd" where
  "ata_read_sector_once io lba d =
     (let (ok, d) = ata_wait_bsy_clear io d in
      if \<not> ok then (None, d)
      else
        let d = ata_command io lba ATA_CMD_READ d;
            (ok, d) = ata_wait_ready io d
        in if \<not> ok then (None, d)
           else let (ws, d) = read_words io 256 d in (Some (bytes_of_words ws), d))"

definition ata_write_sector_once :: "'d ports \<Rightarrow> u32 \<Rightarrow> sector \<Rightarrow> 'd \<Rightarrow> bool \<times> 'd" where
  "ata_write_sector_once io lba buffer d =
     (let (ok, d) = ata_wait_bsy_clear io d in
      if \<not> ok then (False, d)
      else
        let d = ata_command io lba ATA_CMD_WRITE d;
            (ok, d) = ata_wait_ready io d
        in if \<not> ok then (False, d)
           else
             let d = write_words io (words_of_bytes buffer) d;
                 d = outb io ATA_COMMAND ATA_CMD_FLUSH d
             in ata_wait_bsy_clear io d)"

abbreviation ATA_MAX_RETRIES :: nat where "ATA_MAX_RETRIES \<equiv> 3"

fun read_attempts :: "'d ports \<Rightarrow> nat \<Rightarrow> u32 \<Rightarrow> 'd \<Rightarrow> sector option \<times> 'd" where
  "read_attempts io 0 lba d = (None, d)"
| "read_attempts io (Suc n) lba d =
     (case ata_read_sector_once io lba d of
        (Some bs, d) \<Rightarrow> (Some bs, d)
      | (None, d) \<Rightarrow> read_attempts io n lba d)"

fun write_attempts :: "'d ports \<Rightarrow> nat \<Rightarrow> u32 \<Rightarrow> sector \<Rightarrow> 'd \<Rightarrow> bool \<times> 'd" where
  "write_attempts io 0 lba buffer d = (False, d)"
| "write_attempts io (Suc n) lba buffer d =
     (case ata_write_sector_once io lba buffer d of
        (True, d) \<Rightarrow> (True, d)
      | (False, d) \<Rightarrow> write_attempts io n lba buffer d)"

definition ata_read_sector :: "'d ports \<Rightarrow> u32 \<Rightarrow> 'd \<Rightarrow> sector option \<times> 'd" where
  "ata_read_sector io lba d = read_attempts io ATA_MAX_RETRIES lba d"

definition ata_write_sector :: "'d ports \<Rightarrow> u32 \<Rightarrow> sector \<Rightarrow> 'd \<Rightarrow> bool \<times> 'd" where
  "ata_write_sector io lba buffer d = write_attempts io ATA_MAX_RETRIES lba buffer d"

subsection \<open>A reference drive\<close>

text \<open>
  The part of the ATA PIO protocol that single-sector commands use: the task-file registers, BSY for
  a number of polls (below the driver's limit) after each command, DRQ while data is due, ERR after a command on a bad sector until the
  next command is written.
\<close>

datatype phase = Idle | Data_In "u16 list" | Data_Out u32 "u16 list" | Failed

record drive =
  sel :: u8
  lba_low :: u8
  lba_mid :: u8
  lba_high :: u8
  busy :: nat
  phase :: phase
  platter :: "u32 \<Rightarrow> sector"
  bad :: "u32 \<Rightarrow> bool"

definition addressed :: "drive \<Rightarrow> u32" where
  "addressed d = ucast (lba_low d) OR push_bit 8 (ucast (lba_mid d)) OR push_bit 16 (ucast (lba_high d))
     OR push_bit 24 (ucast (sel d AND 0x0F))"

definition drive_inb :: "u16 \<Rightarrow> drive \<Rightarrow> u8 \<times> drive" where
  "drive_inb port d =
     (if port \<noteq> ATA_STATUS then (0, d)
      else if busy d > 0 then (0x80, d\<lparr>busy := busy d - 1\<rparr>)
      else (case phase d of Idle \<Rightarrow> 0x40 | Data_In _ \<Rightarrow> 0x48 | Data_Out _ _ \<Rightarrow> 0x48 | Failed \<Rightarrow> 0x41, d))"

definition drive_outb :: "nat \<Rightarrow> u16 \<Rightarrow> u8 \<Rightarrow> drive \<Rightarrow> drive" where
  "drive_outb delay port v d =
     (if port = ATA_DRIVE_SEL then d\<lparr>sel := v\<rparr>
      else if port = ATA_LBA_LOW then d\<lparr>lba_low := v\<rparr>
      else if port = ATA_LBA_MID then d\<lparr>lba_mid := v\<rparr>
      else if port = ATA_LBA_HIGH then d\<lparr>lba_high := v\<rparr>
      else if port = ATA_COMMAND then
        (let d = d\<lparr>busy := delay mod ATA_POLLS\<rparr> in
         if v = ATA_CMD_FLUSH then d\<lparr>phase := Idle\<rparr>
         else if bad d (addressed d) then d\<lparr>phase := Failed\<rparr>
         else if v = ATA_CMD_READ then d\<lparr>phase := Data_In (words_of_bytes (platter d (addressed d)))\<rparr>
         else if v = ATA_CMD_WRITE then d\<lparr>phase := Data_Out (addressed d) []\<rparr>
         else d\<lparr>phase := Failed\<rparr>)
      else d)"

definition drive_inw :: "u16 \<Rightarrow> drive \<Rightarrow> u16 \<times> drive" where
  "drive_inw port d =
     (case phase d of
        Data_In (w # ws) \<Rightarrow> (w, d\<lparr>phase := (if ws = [] then Idle else Data_In ws)\<rparr>)
      | _ \<Rightarrow> (0, d))"

definition drive_outw :: "u16 \<Rightarrow> u16 \<Rightarrow> drive \<Rightarrow> drive" where
  "drive_outw port w d =
     (case phase d of
        Data_Out lba ws \<Rightarrow>
          (let ws = ws @ [w] in
           if length ws = 256
           then d\<lparr>phase := Idle, platter := (platter d)(lba := bytes_of_words ws)\<rparr>
           else d\<lparr>phase := Data_Out lba ws\<rparr>)
      | _ \<Rightarrow> d)"

definition reference_drive :: "nat \<Rightarrow> drive ports" where
  "reference_drive delay = \<lparr>inb = drive_inb, outb = drive_outb delay, inw = drive_inw, outw = drive_outw\<rparr>"

subsection \<open>The driver on the reference drive\<close>

lemma words_bytes: "even (length bs) \<Longrightarrow> bytes_of_words (words_of_bytes bs) = bs"
proof (induction bs rule: words_of_bytes.induct)
  case (1 lo hi bs)
  have "ucast (ucast lo OR push_bit 8 (ucast hi) :: u16) = lo"
    "ucast (drop_bit 8 (ucast lo OR push_bit 8 (ucast hi) :: u16)) = hi"
    by (rule bit_word_eqI; auto simp: bit_simps dest: bit_imp_le_length)+
  with 1 show ?case by simp
qed simp_all

lemma length_words: "length (words_of_bytes bs) = length bs div 2"
  by (induction bs rule: words_of_bytes.induct) simp_all

lemma length_bytes_of_words: "length (bytes_of_words ws) = 2 * length ws"
  by (induction ws) simp_all

lemma drive_status:
  "busy d = 0 \<Longrightarrow> inb (reference_drive n) ATA_STATUS d =
    (case phase d of Idle \<Rightarrow> 0x40 | Data_In _ \<Rightarrow> 0x48 | Data_Out _ _ \<Rightarrow> 0x48 | Failed \<Rightarrow> 0x41, d)"
  "busy d > 0 \<Longrightarrow> inb (reference_drive n) ATA_STATUS d = (0x80, d\<lparr>busy := busy d - 1\<rparr>)"
  by (simp_all add: reference_drive_def drive_inb_def)

lemma wait_ready_reference:
  "busy d < m \<Longrightarrow> phase d \<noteq> Idle \<Longrightarrow>
    wait_ready (reference_drive n) m d = (phase d \<noteq> Failed, d\<lparr>busy := 0\<rparr>)"
proof (induction m arbitrary: d)
  case (Suc m)
  show ?case
  proof (cases "busy d = 0")
    case True
    then have "d\<lparr>busy := 0\<rparr> = d" by simp
    then show ?thesis using True Suc.prems by (cases "phase d") (simp_all add: drive_status)
  next
    case False
    then show ?thesis using Suc.IH [of "d\<lparr>busy := busy d - 1\<rparr>"] Suc.prems by (simp add: drive_status)
  qed
qed simp

lemma wait_bsy_reference:
  "busy d < m \<Longrightarrow> wait_bsy_clear (reference_drive n) m d = (phase d \<noteq> Failed, d\<lparr>busy := 0\<rparr>)"
proof (induction m arbitrary: d)
  case (Suc m)
  show ?case
  proof (cases "busy d = 0")
    case True
    then have "d\<lparr>busy := 0\<rparr> = d" by simp
    then show ?thesis using True by (cases "phase d") (simp_all add: drive_status)
  next
    case False
    then show ?thesis using Suc.IH [of "d\<lparr>busy := busy d - 1\<rparr>"] Suc.prems by (simp add: drive_status)
  qed
qed simp

lemma read_words_length: "read_words io n d = (ws, d') \<Longrightarrow> length ws = n"
  by (induction n arbitrary: d ws) (auto split: prod.splits)

lemma bytes_of_words_length: "length (bytes_of_words ws) = 2 * length ws"
  by (induction ws) simp_all

lemma read_attempts_length: "read_attempts io n lba d = (Some bs, d') \<Longrightarrow> length bs = 512"
proof (induction n arbitrary: d)
  case (Suc n)
  then show ?case
    by (auto simp: ata_read_sector_once_def bytes_of_words_length Let_def dest: read_words_length split: prod.splits option.splits if_splits)
qed simp

lemma ata_read_sector_length: "ata_read_sector io lba d = (Some bs, d') \<Longrightarrow> length bs = 512"
  by (simp add: ata_read_sector_def read_attempts_length)

lemma read_words_reference:
  "phase d = Data_In ws \<Longrightarrow> ws \<noteq> [] \<Longrightarrow>
    read_words (reference_drive n) (length ws) d = (ws, d\<lparr>phase := Idle\<rparr>)"
proof (induction ws arbitrary: d)
  case (Cons w ws)
  have i: "inw (reference_drive n) ATA_DATA d = (w, d\<lparr>phase := (if ws = [] then Idle else Data_In ws)\<rparr>)"
    using Cons.prems by (simp add: reference_drive_def drive_inw_def)
  show ?case
  proof (cases "ws = []")
    case False
    then show ?thesis using Cons.IH [of "d\<lparr>phase := Data_In ws\<rparr>"] i by simp
  qed (use i in simp)
qed simp

lemma write_words_reference:
  "phase d = Data_Out lba us \<Longrightarrow> length us + length ws = 256 \<Longrightarrow> ws \<noteq> [] \<Longrightarrow>
    write_words (reference_drive n) ws d =
      d\<lparr>phase := Idle, platter := (platter d)(lba := bytes_of_words (us @ ws))\<rparr>"
proof (induction ws arbitrary: d us)
  case (Cons w ws)
  show ?case
  proof (cases "ws = []")
    case True
    then show ?thesis using Cons.prems by (simp add: reference_drive_def drive_outw_def fun_upd_def)
  next
    case False
    then have "outw (reference_drive n) ATA_DATA w d = d\<lparr>phase := Data_Out lba (us @ [w])\<rparr>"
      using Cons.prems by (cases ws) (simp_all add: reference_drive_def drive_outw_def)
    then show ?thesis using Cons.IH [of "d\<lparr>phase := Data_Out lba (us @ [w])\<rparr>" "us @ [w]"] Cons.prems False by simp
  qed
qed simp

lemma address_registers:
  fixes lba :: u32
  assumes "lba < 0x10000000"
  shows "ucast (ucast lba :: u8) OR push_bit 8 (ucast (ucast (drop_bit 8 lba) :: u8))
    OR push_bit 16 (ucast (ucast (drop_bit 16 lba) :: u8))
    OR push_bit 24 (ucast ((0xE0 OR ucast (drop_bit 24 lba AND 0x0F)) AND 0x0F :: u8)) = lba"
proof -
  have "(0xE0 OR y) AND 0x0F = (0xE0 AND 0x0F) OR (y AND 0x0F)" for y :: u8
    by (rule bit.conj_disj_distrib2)
  moreover have "y AND 0x0F = take_bit 4 y" for y :: u8 by (simp add: take_bit_eq_mask mask_eq_exp_minus_1)
  ultimately have n: "(0xE0 OR y) AND 0x0F = take_bit 4 y" for y :: u8 by simp
  have hi: "\<not> bit lba k" if "28 \<le> k" for k
  proof -
    have "unat lba < 2 ^ 28" using assms by (simp add: word_less_nat_alt)
    then have "take_bit 28 lba = lba" using unat_take_drop [of 28 0 lba] by (simp add: word_unat_eq_iff)
    then show ?thesis using that by (metis bit_take_bit_iff not_le)
  qed
  show ?thesis unfolding n and_mask_fields
  proof (rule bit_word_eqI)
    fix k assume "k < LENGTH(32)"
    then consider "k < 8" | "8 \<le> k" "k < 16" | "16 \<le> k" "k < 24" | "24 \<le> k" "k < 28" | "28 \<le> k" "k < 32" by fastforce
    then show "bit (ucast (ucast lba :: u8) OR push_bit 8 (ucast (ucast (drop_bit 8 lba) :: u8))
      OR push_bit 16 (ucast (ucast (drop_bit 16 lba) :: u8))
      OR push_bit 24 (ucast (take_bit 4 (ucast (take_bit 4 (drop_bit 24 lba))) :: u8)) :: u32) k = bit lba k"
      by cases (auto simp: bit_simps hi)
  qed
qed

lemma addressed_busy [simp]: "addressed (d\<lparr>busy := b\<rparr>) = addressed d"
  by (simp add: addressed_def)

definition drive_ok :: "drive \<Rightarrow> bool" where
  "drive_ok d \<longleftrightarrow> (phase d = Idle \<or> phase d = Failed) \<and> busy d = 0 \<and> (\<forall>l. length (platter d l) = 512)"

lemma command_reference:
  assumes "lba < 0x10000000"
  shows "\<exists>d'. ata_command (reference_drive n) lba cmd d = drive_outb n ATA_COMMAND cmd d' \<and>
    addressed d' = lba \<and> platter d' = platter d \<and> bad d' = bad d"
proof -
  define d' where "d' = d\<lparr>sel := 0xE0 OR ucast (drop_bit 24 lba AND 0x0F), lba_low := ucast lba,
    lba_mid := ucast (drop_bit 8 lba), lba_high := ucast (drop_bit 16 lba)\<rparr>"
  have "ata_command (reference_drive n) lba cmd d = drive_outb n ATA_COMMAND cmd d'"
    by (simp add: ata_command_def reference_drive_def Let_def d'_def) (simp add: drive_outb_def)
  moreover have "addressed d' = lba" using address_registers [OF assms] by (simp only: addressed_def d'_def) simp
  moreover have "platter d' = platter d" "bad d' = bad d" by (simp_all add: d'_def)
  ultimately show ?thesis by blast
qed

lemma polls_pos: "n mod ATA_POLLS < ATA_POLLS" "0 < ATA_POLLS"
  by (simp_all add: ATA_POLLS_def)

lemma read_once_reference:
  assumes "drive_ok d" "lba < 0x10000000"
  shows "\<exists>d'. drive_ok d' \<and> platter d' = platter d \<and> bad d' = bad d \<and>
    (if phase d = Idle \<and> \<not> bad d lba
     then ata_read_sector_once (reference_drive n) lba d = (Some (platter d lba), d') \<and> phase d' = Idle
     else ata_read_sector_once (reference_drive n) lba d = (None, d') \<and> phase d' = Failed)"
proof -
  have b0: "busy d = 0" "d\<lparr>busy := 0\<rparr> = d" using assms(1) by (simp_all add: drive_ok_def)
  have w: "ata_wait_bsy_clear (reference_drive n) d = (phase d \<noteq> Failed, d)"
    using wait_bsy_reference [of d ATA_POLLS n] polls_pos b0 by (simp add: ata_wait_bsy_clear_def)
  show ?thesis
  proof (cases "phase d = Idle")
    case False
    then have "phase d = Failed" using assms(1) by (simp add: drive_ok_def)
    then show ?thesis using w assms(1) by (simp add: ata_read_sector_once_def Let_def)
  next
    case True
    obtain d1 where d1: "ata_command (reference_drive n) lba ATA_CMD_READ d = drive_outb n ATA_COMMAND ATA_CMD_READ d1"
      "addressed d1 = lba" "platter d1 = platter d" "bad d1 = bad d" using command_reference [OF assms(2)] by blast
    define d2 where "d2 = drive_outb n ATA_COMMAND ATA_CMD_READ d1"
    have d2: "busy d2 < ATA_POLLS" "platter d2 = platter d" "bad d2 = bad d"
      "phase d2 = (if bad d lba then Failed else Data_In (words_of_bytes (platter d lba)))"
      using polls_pos d1 by (simp_all add: d2_def drive_outb_def Let_def)
    have r: "ata_wait_ready (reference_drive n) d2 = (\<not> bad d lba, d2\<lparr>busy := 0\<rparr>)"
      using wait_ready_reference [OF d2(1), of n] d2(4) by (simp add: ata_wait_ready_def)
    have len: "length (platter d lba) = 512" using assms(1) by (simp add: drive_ok_def)
    show ?thesis
    proof (cases "bad d lba")
      case True
      then show ?thesis using w \<open>phase d = Idle\<close> d1(1) r d2 assms(1)
        by (intro exI [of _ "d2\<lparr>busy := 0\<rparr>"])
          (simp add: ata_read_sector_once_def Let_def d2_def [symmetric] drive_ok_def)
    next
      case False
      let ?ws = "words_of_bytes (platter d lba)"
      have "length ?ws = 256" using len by (simp add: length_words)
      then have "read_words (reference_drive n) 256 (d2\<lparr>busy := 0\<rparr>) = (?ws, d2\<lparr>busy := 0, phase := Idle\<rparr>)"
        using read_words_reference [of "d2\<lparr>busy := 0\<rparr>" ?ws n] d2(4) False by force
      then show ?thesis using w \<open>phase d = Idle\<close> d1(1) r d2 assms(1) False len
        by (intro exI [of _ "d2\<lparr>busy := 0, phase := Idle\<rparr>"])
          (simp add: ata_read_sector_once_def Let_def d2_def [symmetric] drive_ok_def words_bytes)
    qed
  qed
qed

lemma write_once_reference:
  assumes "drive_ok d" "lba < 0x10000000" "length bs = 512"
  shows "\<exists>d'. drive_ok d' \<and> bad d' = bad d \<and>
    (if phase d = Idle \<and> \<not> bad d lba
     then ata_write_sector_once (reference_drive n) lba bs d = (True, d') \<and> phase d' = Idle \<and>
       platter d' = (platter d)(lba := bs)
     else ata_write_sector_once (reference_drive n) lba bs d = (False, d') \<and> phase d' = Failed \<and>
       platter d' = platter d)"
proof -
  have b0: "busy d = 0" "d\<lparr>busy := 0\<rparr> = d" using assms(1) by (simp_all add: drive_ok_def)
  have w: "ata_wait_bsy_clear (reference_drive n) d = (phase d \<noteq> Failed, d)"
    using wait_bsy_reference [of d ATA_POLLS n] polls_pos b0 by (simp add: ata_wait_bsy_clear_def)
  show ?thesis
  proof (cases "phase d = Idle")
    case False
    then have "phase d = Failed" using assms(1) by (simp add: drive_ok_def)
    then show ?thesis using w assms(1) by (simp add: ata_write_sector_once_def Let_def)
  next
    case True
    obtain d1 where d1: "ata_command (reference_drive n) lba ATA_CMD_WRITE d = drive_outb n ATA_COMMAND ATA_CMD_WRITE d1"
      "addressed d1 = lba" "platter d1 = platter d" "bad d1 = bad d" using command_reference [OF assms(2)] by blast
    define d2 where "d2 = drive_outb n ATA_COMMAND ATA_CMD_WRITE d1"
    have d2: "busy d2 < ATA_POLLS" "platter d2 = platter d" "bad d2 = bad d"
      "phase d2 = (if bad d lba then Failed else Data_Out lba [])"
      using polls_pos d1 by (simp_all add: d2_def drive_outb_def Let_def)
    have r: "ata_wait_ready (reference_drive n) d2 = (\<not> bad d lba, d2\<lparr>busy := 0\<rparr>)"
      using wait_ready_reference [OF d2(1), of n] d2(4) by (simp add: ata_wait_ready_def)
    show ?thesis
    proof (cases "bad d lba")
      case True
      then show ?thesis using w \<open>phase d = Idle\<close> d1(1) r d2 assms(1)
        by (intro exI [of _ "d2\<lparr>busy := 0\<rparr>"])
          (simp add: ata_write_sector_once_def Let_def d2_def [symmetric] drive_ok_def)
    next
      case False
      let ?ws = "words_of_bytes bs" and ?d3 = "d2\<lparr>busy := 0, phase := Idle, platter := (platter d)(lba := bs)\<rparr>"
      have ws: "length ?ws = 256" "bytes_of_words ?ws = bs" using assms(3) by (simp_all add: length_words words_bytes)
      then have "?ws \<noteq> []" by auto
      with ws have wr: "write_words (reference_drive n) ?ws (d2\<lparr>busy := 0\<rparr>) = ?d3"
        using write_words_reference [of "d2\<lparr>busy := 0\<rparr>" lba "[]" ?ws n] d2(2,4) False by simp
      let ?d4 = "outb (reference_drive n) ATA_COMMAND ATA_CMD_FLUSH ?d3"
      have d4: "phase ?d4 = Idle" "busy ?d4 < ATA_POLLS" "platter ?d4 = (platter d)(lba := bs)" "bad ?d4 = bad d"
        using polls_pos d2(3) by (simp_all add: reference_drive_def drive_outb_def Let_def)
      have "ata_wait_bsy_clear (reference_drive n) ?d4 = (True, ?d4\<lparr>busy := 0\<rparr>)"
        using wait_bsy_reference [OF d4(2), of n] d4(1) by (simp add: ata_wait_bsy_clear_def)
      then show ?thesis using w \<open>phase d = Idle\<close> d1(1) r d4 assms False wr
        by (intro exI [of _ "?d4\<lparr>busy := 0\<rparr>"])
          (simp add: ata_write_sector_once_def Let_def d2_def [symmetric] drive_ok_def)
    qed
  qed
qed

lemma read_sector_reference:
  assumes "drive_ok d" "lba < 0x10000000"
  shows "\<exists>d'. drive_ok d' \<and> platter d' = platter d \<and> bad d' = bad d \<and>
    (if phase d = Idle \<and> \<not> bad d lba
     then ata_read_sector (reference_drive n) lba d = (Some (platter d lba), d') \<and> phase d' = Idle
     else ata_read_sector (reference_drive n) lba d = (None, d') \<and> phase d' = Failed)"
proof -
  have fails: "\<exists>d'. drive_ok d' \<and> platter d' = platter d \<and> bad d' = bad d \<and> phase d' = Failed \<and>
      read_attempts (reference_drive n) m lba d = (None, d')"
    if "drive_ok d" "phase d = Failed" for m d
    using that
  proof (induction m arbitrary: d)
    case (Suc m)
    from read_once_reference [OF Suc.prems(1) assms(2), of n] Suc.prems(2) obtain d1 where d1:
      "drive_ok d1" "platter d1 = platter d" "bad d1 = bad d" "phase d1 = Failed"
      "ata_read_sector_once (reference_drive n) lba d = (None, d1)" by auto
    then show ?case using Suc.IH [of d1] by simp
  qed auto
  from read_once_reference [OF assms, of n] obtain d1 where d1: "drive_ok d1" "platter d1 = platter d" "bad d1 = bad d"
    "if phase d = Idle \<and> \<not> bad d lba
     then ata_read_sector_once (reference_drive n) lba d = (Some (platter d lba), d1) \<and> phase d1 = Idle
     else ata_read_sector_once (reference_drive n) lba d = (None, d1) \<and> phase d1 = Failed" by blast
  show ?thesis using d1 fails [of d1 2]
    by (cases "phase d = Idle \<and> \<not> bad d lba") (auto simp: ata_read_sector_def numeral_3_eq_3 numeral_2_eq_2)
qed

lemma write_sector_reference:
  assumes "drive_ok d" "lba < 0x10000000" "length bs = 512"
  shows "\<exists>d'. drive_ok d' \<and> bad d' = bad d \<and>
    (if phase d = Idle \<and> \<not> bad d lba
     then ata_write_sector (reference_drive n) lba bs d = (True, d') \<and> phase d' = Idle \<and>
       platter d' = (platter d)(lba := bs)
     else ata_write_sector (reference_drive n) lba bs d = (False, d') \<and> phase d' = Failed \<and>
       platter d' = platter d)"
proof -
  have fails: "\<exists>d'. drive_ok d' \<and> platter d' = platter d \<and> bad d' = bad d \<and> phase d' = Failed \<and>
      write_attempts (reference_drive n) m lba bs d = (False, d')"
    if "drive_ok d" "phase d = Failed" for m d
    using that
  proof (induction m arbitrary: d)
    case (Suc m)
    from write_once_reference [OF Suc.prems(1) assms(2,3), of n] Suc.prems(2) obtain d1 where d1:
      "drive_ok d1" "platter d1 = platter d" "bad d1 = bad d" "phase d1 = Failed"
      "ata_write_sector_once (reference_drive n) lba bs d = (False, d1)" by auto
    then show ?case using Suc.IH [of d1] by simp
  qed auto
  from write_once_reference [OF assms, of n] obtain d1 where d1: "drive_ok d1" "bad d1 = bad d"
    "if phase d = Idle \<and> \<not> bad d lba
     then ata_write_sector_once (reference_drive n) lba bs d = (True, d1) \<and> phase d1 = Idle \<and>
       platter d1 = (platter d)(lba := bs)
     else ata_write_sector_once (reference_drive n) lba bs d = (False, d1) \<and> phase d1 = Failed \<and>
       platter d1 = platter d" by blast
  show ?thesis using d1 fails [of d1 2]
    by (cases "phase d = Idle \<and> \<not> bad d lba") (auto simp: ata_write_sector_def numeral_3_eq_3 numeral_2_eq_2)
qed

abbreviation lba28 :: "u32 \<Rightarrow> bool" where
  "lba28 lba \<equiv> lba < 0x10000000"

interpretation ata: block_device platter drive_ok lba28
    "ata_read_sector (reference_drive n)" "ata_write_sector (reference_drive n)" for n
proof (unfold_locales, goal_cases)
  case (1 d lba) then show ?case using read_sector_reference [of d lba n] by (auto split: if_splits)
next
  case (2 d lba) then show ?case using read_sector_reference [of d lba n] by (auto split: if_splits)
next
  case (3 d lba bs) then show ?case using read_sector_reference [of d lba n] by (auto split: if_splits)
next
  case (4 d lba bs) then show ?case using write_sector_reference [of d lba bs n] by (auto split: if_splits)
next
  case (5 d lba bs) then show ?case using write_sector_reference [of d lba bs n] by (auto split: if_splits)
next
  case (6 d lba bs l) then show ?case using write_sector_reference [of d lba bs n] by (auto split: if_splits)
next
  case (7 d lba) then show ?case by (simp add: drive_ok_def)
qed

text \<open>A drive without bad sectors that is not in the error state.\<close>

definition drive_healthy :: "drive \<Rightarrow> bool" where
  "drive_healthy d \<longleftrightarrow> drive_ok d \<and> phase d = Idle \<and> (\<forall>l. \<not> bad d l)"

interpretation healthy_ata: reliable_device platter drive_healthy lba28
    "ata_read_sector (reference_drive n)" "ata_write_sector (reference_drive n)" for n
proof (unfold_locales, goal_cases)
  case (1 d lba) then show ?case using read_sector_reference [of d lba n] by (auto simp: drive_healthy_def split: if_splits)
next
  case (2 d lba) then show ?case using read_sector_reference [of d lba n] by (auto simp: drive_healthy_def split: if_splits)
next
  case (3 d lba bs) then show ?case using read_sector_reference [of d lba n] by (auto simp: drive_healthy_def split: if_splits)
next
  case (4 d lba bs) then show ?case using write_sector_reference [of d lba bs n] by (auto simp: drive_healthy_def split: if_splits)
next
  case (5 d lba bs) then show ?case using write_sector_reference [of d lba bs n] by (auto simp: drive_healthy_def split: if_splits)
next
  case (6 d lba bs l) then show ?case using write_sector_reference [of d lba bs n] by (auto simp: drive_healthy_def split: if_splits)
next
  case (7 d lba) then show ?case by (simp add: drive_healthy_def drive_ok_def)
next
  case (8 d lba) then show ?case using read_sector_reference [of d lba n] by (auto simp: drive_healthy_def split: if_splits)
next
  case (9 d lba bs) then show ?case using write_sector_reference [of d lba bs n] by (auto simp: drive_healthy_def split: if_splits)
qed

subsection \<open>Round trip and error state\<close>

text \<open>Remark. On a drive that follows the PIO protocol and has no bad sector, whatever time it
  takes to answer (below the polling limit), \<open>ata_write_sector\<close> succeeds, a following
  \<open>ata_read_sector\<close> of the same LBA returns the 512 bytes written, and one of another LBA returns
  what was there before.\<close>

theorem ata_roundtrip:
  assumes "drive_healthy d" "lba < 0x10000000" "lba' < 0x10000000" "length bs = 512"
  shows "\<exists>d' d''. ata_write_sector (reference_drive n) lba bs d = (True, d') \<and>
    ata_read_sector (reference_drive n) lba' d' = (Some (if lba' = lba then bs else platter d lba'), d'')"
proof -
  from healthy_ata.write_result [OF assms(1,2,4), of n] obtain d' where d':
    "ata_write_sector (reference_drive n) lba bs d = (True, d')" "drive_healthy d'"
    "platter d' = (platter d)(lba := bs)" by blast
  from healthy_ata.read_result [OF d'(2) assms(3), of n] obtain d'' where
    "ata_read_sector (reference_drive n) lba' d' = (Some (platter d' lba'), d'')" by blast
  then show ?thesis using d' by auto
qed

definition blank_drive :: drive where
  "blank_drive = \<lparr>sel = 0, lba_low = 0, lba_mid = 0, lba_high = 0, busy = 0, phase = Idle,
     platter = (\<lambda>_. replicate 512 0), bad = (\<lambda>_. False)\<rparr>"

lemma blank_drive_healthy: "drive_healthy blank_drive"
  by (simp add: blank_drive_def drive_healthy_def drive_ok_def)

theorem ata_roundtrip_witness:
  "\<exists>d' d''. ata_write_sector (reference_drive 7) 100 (replicate 512 65) blank_drive = (True, d') \<and>
    ata_read_sector (reference_drive 7) 100 d' = (Some (replicate 512 65), d'')"
  using ata_roundtrip [OF blank_drive_healthy, of 100 100 "replicate 512 65" 7] by auto

text \<open>C30. After a command has failed the drive reports ERR until the next command is
  written, and the driver writes no command while ERR is reported: its first poll returns failure.
  So the two retries of \<open>ata_read_sector\<close> issue no command, and every later read or write fails as
  well, on every sector, good ones included.\<close>

theorem ata_error_sticky:
  assumes "drive_ok d" "lba < 0x10000000" "bad d lba"
  shows "\<exists>d'. ata_read_sector (reference_drive n) lba d = (None, d') \<and>
    (\<forall>lba' < 0x10000000. fst (ata_read_sector (reference_drive n) lba' d') = None \<and>
      (\<forall>bs. length bs = 512 \<longrightarrow> \<not> fst (ata_write_sector (reference_drive n) lba' bs d')))"
proof -
  from read_sector_reference [OF assms(1,2), of n] assms(3) obtain d' where d':
    "drive_ok d'" "ata_read_sector (reference_drive n) lba d = (None, d')" "phase d' = Failed" by auto
  have "fst (ata_read_sector (reference_drive n) lba' d') = None" if "lba' < 0x10000000" for lba'
    using read_sector_reference [OF d'(1) that, of n] d'(3) by auto
  moreover have "\<not> fst (ata_write_sector (reference_drive n) lba' bs d')" if "lba' < 0x10000000" "length bs = 512" for lba' bs
    using write_sector_reference [OF d'(1) that, of n] d'(3) by auto
  ultimately show ?thesis using d'(2) by blast
qed

theorem ata_error_sticky_witness:
  "\<exists>d'. ata_read_sector (reference_drive 7) 5 (blank_drive\<lparr>bad := (\<lambda>l. l = 5)\<rparr>) = (None, d') \<and>
    fst (ata_read_sector (reference_drive 7) 6 d') = None"
proof -
  have "drive_ok (blank_drive\<lparr>bad := (\<lambda>l. l = 5)\<rparr>)" by (simp add: blank_drive_def drive_ok_def)
  from ata_error_sticky [OF this, of 5 7] show ?thesis by fastforce
qed

end
