(* ===== verification/Fs.thy ===== *)
theory Fs
  imports Ata Screen
begin

text \<open>
  The file system, \<open>drivers/fs.c\<close> and \<open>drivers/fs.h\<close>: a root directory of 32 entries (three sectors from
  LBA 81), an allocation bitmap with one byte per data sector (LBA 85), and files stored as runs of
  consecutive sectors from LBA 86 on.

  The state holds the two statics of \<open>fs.c\<close> (the directory and the bitmap), the state of the disk
  behind the port operations \<open>io\<close>, and the console. A \<open>char *\<close> argument is the list of the bytes before
  the terminating zero, \<open>None\<close> for \<open>NULL\<close>; reading at its end gives the zero. A data pointer is the list
  of the bytes that start there.
\<close>

subsection \<open>Data\<close>

abbreviation FS_ROOT_LBA :: u32 where "FS_ROOT_LBA \<equiv> 81"
abbreviation FS_MAX_FILES :: nat where "FS_MAX_FILES \<equiv> 32"
abbreviation FS_BITMAP_LBA :: u32 where "FS_BITMAP_LBA \<equiv> 85"
abbreviation FS_DATA_LBA :: u32 where "FS_DATA_LBA \<equiv> 86"
abbreviation FS_DATA_SECTORS :: nat where "FS_DATA_SECTORS \<equiv> 512"
abbreviation FS_MAGIC :: u32 where "FS_MAGIC \<equiv> 0x3153464D"
abbreviation ROOT_BYTES :: nat where "ROOT_BYTES \<equiv> 1056"
abbreviation FS_ROOT_SECTORS :: nat where "FS_ROOT_SECTORS \<equiv> 3"

record file_entry =
  fname :: "u8 list"
  start_lba :: u32
  size_sect :: u32

record root_dir =
  magic :: u32
  files :: "file_entry list"
  next_free_lba :: u32
  reserved :: "u8 list"

record 'd fs =
  root :: root_dir
  bitmap :: "u8 list"
  disk :: 'd
  fcon :: screen

text \<open>The packed layout of \<open>RootDirectory\<close> in memory and on disk (little-endian fields).\<close>

definition le32 :: "u8 list \<Rightarrow> u32" where
  "le32 bs = ucast (bs ! 0) OR push_bit 8 (ucast (bs ! 1)) OR push_bit 16 (ucast (bs ! 2))
     OR push_bit 24 (ucast (bs ! 3))"

definition entry_raw :: "file_entry \<Rightarrow> u8 list" where
  "entry_raw e = fname e @ bytes32 (start_lba e) @ bytes32 (size_sect e)"

definition entry_of_raw :: "u8 list \<Rightarrow> file_entry" where
  "entry_of_raw bs = \<lparr>fname = take 24 bs, start_lba = le32 (drop 24 bs), size_sect = le32 (drop 28 bs)\<rparr>"

definition root_raw :: "root_dir \<Rightarrow> u8 list" where
  "root_raw r = bytes32 (magic r) @ concat (map entry_raw (files r)) @ bytes32 (next_free_lba r) @ reserved r"

definition root_of_raw :: "u8 list \<Rightarrow> root_dir" where
  "root_of_raw bs = \<lparr>magic = le32 bs,
     files = map (\<lambda>i. entry_of_raw (take 32 (drop (4 + 32 * i) bs))) [0..<FS_MAX_FILES],
     next_free_lba = le32 (drop 1028 bs), reserved = drop 1032 bs\<rparr>"

subsection \<open>Names and text\<close>

definition cbyte :: "u8 list \<Rightarrow> nat \<Rightarrow> u8" where
  "cbyte s i = (if i < length s then s ! i else 0)"

fun m_strcmp :: "u8 list \<Rightarrow> u8 list \<Rightarrow> int" where
  "m_strcmp (c # s1) s2 =
     (if c \<noteq> 0 \<and> c = cbyte s2 0 then m_strcmp s1 (tl s2) else int (unat c) - int (unat (cbyte s2 0)))"
| "m_strcmp [] s2 = - int (unat (cbyte s2 0))"

function valid_name_from :: "u8 list \<Rightarrow> nat \<Rightarrow> bool" where
  "valid_name_from name i =
     (if i < 24 then if cbyte name i = 0 then i > 0 else valid_name_from name (i + 1) else False)"
  by pat_completeness auto
termination
  by (relation "measure (\<lambda>(name, i). 24 - i)") auto

declare valid_name_from.simps [simp del]

definition valid_name :: "u8 list \<Rightarrow> bool" where
  "valid_name name = valid_name_from name 0"

text \<open>\<open>char\<close> is signed: bytes from 128 on fail \<open>c >= 32\<close>.\<close>

definition text_char :: "u8 \<Rightarrow> u8" where
  "text_char c = (if c = 10 \<or> c = 13 \<or> c = 9 \<or> 32 \<le> c \<and> c < 127 then c else 46)"

definition print_text_buffer :: "u8 list \<Rightarrow> nat \<Rightarrow> screen \<Rightarrow> screen" where
  "print_text_buffer data n scr = fold (\<lambda>c. kprint_char (text_char c)) (take n data) scr"

definition say :: "bool \<Rightarrow> u8 list \<Rightarrow> 'd fs \<Rightarrow> 'd fs" where
  "say verbose msg s = (if verbose then s\<lparr>fcon := kprint msg (fcon s)\<rparr> else s)"

abbreviation line :: "string \<Rightarrow> u8 list" where
  "line s \<equiv> lit s @ [10]"

subsection \<open>The root directory on disk\<close>

definition root_chunk :: "nat \<Rightarrow> nat" where
  "root_chunk k = min 512 (ROOT_BYTES - 512 * k)"

fun root_load_loop :: "'d ports \<Rightarrow> nat list \<Rightarrow> u8 list \<Rightarrow> 'd \<Rightarrow> bool \<times> u8 list \<times> 'd" where
  "root_load_loop io [] raw d = (True, raw, d)"
| "root_load_loop io (k # ks) raw d =
     (case ata_read_sector io (FS_ROOT_LBA + of_nat k) d of
        (None, d) \<Rightarrow> (False, raw, d)
      | (Some buf, d) \<Rightarrow>
          root_load_loop io ks
            (take (512 * k) raw @ take (root_chunk k) buf @ drop (512 * k + root_chunk k) raw) d)"

definition fs_root_load :: "'d ports \<Rightarrow> 'd fs \<Rightarrow> bool \<times> 'd fs" where
  "fs_root_load io s =
     (let (ok, raw, d) = root_load_loop io [0..<FS_ROOT_SECTORS] (root_raw (root s)) (disk s)
      in (ok, s\<lparr>root := root_of_raw raw, disk := d\<rparr>))"

definition root_sector :: "u8 list \<Rightarrow> nat \<Rightarrow> sector" where
  "root_sector raw k = take (root_chunk k) (drop (512 * k) raw) @ replicate (512 - root_chunk k) 0"

fun root_save_loop :: "'d ports \<Rightarrow> nat list \<Rightarrow> u8 list \<Rightarrow> 'd \<Rightarrow> bool \<times> 'd" where
  "root_save_loop io [] raw d = (True, d)"
| "root_save_loop io (k # ks) raw d =
     (let (ok, d) = ata_write_sector io (FS_ROOT_LBA + of_nat k) (root_sector raw k) d
      in if \<not> ok then (False, d) else root_save_loop io ks raw d)"

definition fs_root_save :: "'d ports \<Rightarrow> 'd fs \<Rightarrow> bool \<times> 'd fs" where
  "fs_root_save io s =
     (let (ok, d) = root_save_loop io [0..<FS_ROOT_SECTORS] (root_raw (root s)) (disk s)
      in (ok, s\<lparr>disk := d\<rparr>))"

subsection \<open>The allocation bitmap\<close>

definition bitmap_persist :: "'d ports \<Rightarrow> 'd fs \<Rightarrow> 'd fs" where
  "bitmap_persist io s = s\<lparr>disk := snd (ata_write_sector io FS_BITMAP_LBA (bitmap s) (disk s))\<rparr>"

function free_run_loop :: "u8 list \<Rightarrow> u32 \<Rightarrow> nat \<Rightarrow> nat \<Rightarrow> nat \<Rightarrow> u32" where
  "free_run_loop bm count i run_start run_len =
     (if i < FS_DATA_SECTORS - 1 then
        if bm ! i = 0 then
          let run_start = (if run_len = 0 then i else run_start);
              run_len = run_len + 1
          in if run_len \<ge> unat count then FS_DATA_LBA + of_nat run_start
             else free_run_loop bm count (i + 1) run_start run_len
        else free_run_loop bm count (i + 1) run_start 0
      else 0)"
  by pat_completeness auto
termination
  by (relation "measure (\<lambda>(bm, count, i, rs, rl). FS_DATA_SECTORS - 1 - i)") auto

definition bitmap_find_free_run :: "u32 \<Rightarrow> u8 list \<Rightarrow> u32" where
  "bitmap_find_free_run count bm = free_run_loop bm count 0 0 0"

function mark_loop :: "u32 \<Rightarrow> u32 \<Rightarrow> u8 \<Rightarrow> u32 \<Rightarrow> u8 list \<Rightarrow> u8 list" where
  "mark_loop idx count used i bm =
     (if i < count \<and> idx + i < of_nat (FS_DATA_SECTORS - 1)
      then mark_loop idx count used (i + 1) (bm[unat (idx + i) := used])
      else bm)"
  by pat_completeness auto
termination
proof (relation "measure (\<lambda>(idx, count, used, i, bm). unat count - unat i)")
  fix idx count i :: u32 and used :: u8 and bm :: "u8 list"
  assume "i < count \<and> idx + i < of_nat (FS_DATA_SECTORS - 1)"
  then have "unat i < unat count" by (simp add: word_less_nat_alt)
  moreover have "unat count < 2 ^ 32" using unsigned_less [of count] by simp
  ultimately have "unat (i + 1) = unat i + 1" using unat_plus_no_wrap [of i 1] by simp
  with \<open>unat i < unat count\<close> show "((idx, count, used, i + 1, bm[unat (idx + i) := used]), (idx, count, used, i, bm))
    \<in> measure (\<lambda>(idx, count, used, i, bm). unat count - unat i)" by simp
qed simp

declare free_run_loop.simps [simp del] mark_loop.simps [simp del]

definition bitmap_mark :: "'d ports \<Rightarrow> u32 \<Rightarrow> u32 \<Rightarrow> u8 \<Rightarrow> 'd fs \<Rightarrow> 'd fs" where
  "bitmap_mark io start count used s =
     (if start < FS_DATA_LBA then s
      else bitmap_persist io (s\<lparr>bitmap := mark_loop (start - FS_DATA_LBA) count used 0 (bitmap s)\<rparr>))"

subsection \<open>The operations\<close>

definition fs_init :: "'d ports \<Rightarrow> 'd fs \<Rightarrow> 'd fs" where
  "fs_init io s =
     (let (ok, s) = fs_root_load io s in
      if \<not> ok \<or> magic (root s) \<noteq> FS_MAGIC then
        let s = s\<lparr>root := (root_of_raw (replicate ROOT_BYTES 0))\<lparr>magic := FS_MAGIC, next_free_lba := FS_DATA_LBA\<rparr>,
                  bitmap := replicate 512 0\<rparr>
        in snd (fs_root_save io (bitmap_persist io s))
      else
        case ata_read_sector io FS_BITMAP_LBA (disk s) of
          (None, d) \<Rightarrow> s\<lparr>bitmap := replicate 512 0, disk := d\<rparr>
        | (Some buf, d) \<Rightarrow> s\<lparr>bitmap := buf, disk := d\<rparr>)"

definition fs_list :: "'d fs \<Rightarrow> 'd fs" where
  "fs_list s =
     fold (\<lambda>e s. if valid_name (fname e)
                 then say True (line '''') (say True (fname e) (say True (lit ''- '') s)) else s)
       (files (root s)) (say True (line ''Fichiers sur MxOS :'') s)"

text \<open>The search loop of the operations: the first entry with a valid name that equals \<open>name\<close>.\<close>

fun find_entry :: "u8 list \<Rightarrow> nat \<Rightarrow> file_entry list \<Rightarrow> nat option" where
  "find_entry name i [] = None"
| "find_entry name i (e # es) =
     (if valid_name (fname e) \<and> m_strcmp (fname e) name = 0 then Some i else find_entry name (i + 1) es)"

definition no_name :: "u8 list option \<Rightarrow> bool" where
  "no_name name \<longleftrightarrow> (case name of None \<Rightarrow> True | Some n \<Rightarrow> cbyte n 0 = 0)"

definition bad_metadata :: "file_entry \<Rightarrow> bool" where
  "bad_metadata e \<longleftrightarrow> start_lba e < FS_DATA_LBA \<or> size_sect e = 0 \<or> size_sect e > 0x100000 \<or>
     start_lba e > 0xFFFFFFFF - size_sect e"

definition not_found :: "bool \<Rightarrow> u8 list \<Rightarrow> 'd fs \<Rightarrow> 'd fs" where
  "not_found verbose name s =
     say verbose (line '''') (say verbose name (say verbose (lit ''Fichier introuvable : '') s))"

function print_loop :: "'d ports \<Rightarrow> u32 \<Rightarrow> u32 \<Rightarrow> 'd fs \<Rightarrow> 'd fs" where
  "print_loop io lba remaining s =
     (if remaining > 0 then
        case ata_read_sector io lba (disk s) of
          (None, d) \<Rightarrow> say True (line ''Erreur de lecture disque.'') (s\<lparr>disk := d\<rparr>)
        | (Some buf, d) \<Rightarrow>
            (let chunk = (if remaining > 512 then 512 else remaining)
             in print_loop io (lba + 1) (remaining - chunk)
                  (s\<lparr>disk := d, fcon := print_text_buffer buf (unat chunk) (fcon s)\<rparr>))
      else say True (line '''') s)"
  by pat_completeness auto
termination
  by (relation "measure (\<lambda>(io, lba, remaining, s). unat remaining)")
    (auto simp: word_less_nat_alt word_le_nat_alt unat_sub)

definition fs_read_file :: "'d ports \<Rightarrow> u8 list option \<Rightarrow> 'd fs \<Rightarrow> 'd fs" where
  "fs_read_file io name s =
     (if no_name name then say True (line ''Nom de fichier invalide.'') s
      else let name = the name in
        case find_entry name 0 (files (root s)) of
          None \<Rightarrow> not_found True name s
        | Some i \<Rightarrow>
            (let e = files (root s) ! i;
                 s = say True (line '''') (say True name (say True (lit ''Lecture de : '') s))
             in if bad_metadata e then say True (line ''Metadonnees de fichier invalides.'') s
                else print_loop io (start_lba e) (size_sect e * 512) s))"

definition fs_file_exists :: "u8 list option \<Rightarrow> 'd fs \<Rightarrow> bool" where
  "fs_file_exists name s =
     (if no_name name then False else find_entry (the name) 0 (files (root s)) \<noteq> None)"

text \<open>The copy loop of \<open>fs_load_file\<close>; \<open>out\<close> are the bytes stored from \<open>dest\<close> on.\<close>

function load_loop :: "'d ports \<Rightarrow> u32 \<Rightarrow> u32 \<Rightarrow> u8 list \<Rightarrow> 'd fs \<Rightarrow> bool \<times> u8 list \<times> 'd fs" where
  "load_loop io lba remaining out s =
     (if remaining > 0 then
        case ata_read_sector io lba (disk s) of
          (None, d) \<Rightarrow> (False, out, say True (line ''Erreur de lecture disque.'') (s\<lparr>disk := d\<rparr>))
        | (Some buf, d) \<Rightarrow>
            (let chunk = (if remaining > 512 then 512 else remaining)
             in load_loop io (lba + 1) (remaining - chunk) (out @ take (unat chunk) buf) (s\<lparr>disk := d\<rparr>))
      else (True, out, s))"
  by pat_completeness auto
termination
  by (relation "measure (\<lambda>(io, lba, remaining, out, s). unat remaining)")
    (auto simp: word_less_nat_alt word_le_nat_alt unat_sub)

declare print_loop.simps [simp del] load_loop.simps [simp del]

text \<open>\<open>fs_load_file\<close>: \<open>Some total_bytes\<close> for success, and the bytes stored from \<open>dest\<close> on.\<close>

definition fs_load_file ::
    "'d ports \<Rightarrow> u8 list option \<Rightarrow> u32 \<Rightarrow> u32 \<Rightarrow> 'd fs \<Rightarrow> u32 option \<times> u8 list \<times> 'd fs" where
  "fs_load_file io name dest max_size s =
     (if no_name name \<or> dest = 0 then (None, [], say True (line ''Parametres invalides.'') s)
      else let name = the name in
        case find_entry name 0 (files (root s)) of
          None \<Rightarrow> (None, [], not_found True name s)
        | Some i \<Rightarrow>
            (let e = files (root s) ! i;
                 total_bytes = size_sect e * 512
             in if bad_metadata e then (None, [], say True (line ''Metadonnees de fichier invalides.'') s)
                else if total_bytes > max_size
                then (None, [], say True (line ''Programme trop volumineux pour la zone de chargement.'') s)
                else let (ok, out, s) = load_loop io (start_lba e) total_bytes [] s
                     in (if ok then Some total_bytes else None, out, s)))"

fun copy_name :: "nat \<Rightarrow> u8 list \<Rightarrow> u8 list \<Rightarrow> u8 list" where
  "copy_name 0 name old = old"
| "copy_name (Suc n) name old =
     cbyte name 0 # (if cbyte name 0 = 0 then tl old else copy_name n (tl name) (tl old))"

fun free_entry :: "nat \<Rightarrow> file_entry list \<Rightarrow> nat option" where
  "free_entry i [] = None"
| "free_entry i (e # es) = (if cbyte (fname e) 0 = 0 then Some i else free_entry (i + 1) es)"

definition fs_add_entry :: "'d ports \<Rightarrow> u8 list \<Rightarrow> u32 \<Rightarrow> u32 \<Rightarrow> 'd fs \<Rightarrow> bool \<times> 'd fs" where
  "fs_add_entry io name start n s =
     (case free_entry 0 (files (root s)) of
        None \<Rightarrow> (False, say True (line ''Erreur : Root Directory plein !'') s)
      | Some i \<Rightarrow>
          (let e = \<lparr>fname = (copy_name 23 name (fname (files (root s) ! i)))[23 := 0],
                    start_lba = start, size_sect = n\<rparr>;
               (ok, s) = fs_root_save io (s\<lparr>root := (root s)\<lparr>files := (files (root s))[i := e]\<rparr>\<rparr>)
           in if \<not> ok then (False, say True (line ''Erreur d'ecriture disque.'') s) else (True, s)))"

definition fs_create_file :: "'d ports \<Rightarrow> u8 list option \<Rightarrow> u32 \<Rightarrow> u32 \<Rightarrow> 'd fs \<Rightarrow> 'd fs" where
  "fs_create_file io name start n s =
     (if no_name name \<or> start < FS_DATA_LBA \<or> n = 0
      then say True (line ''Metadonnees de fichier invalides.'') s
      else let (ok, s) = fs_add_entry io (the name) start n s
           in if ok then say True (line ''Fichier cree avec succes.'') s else s)"

definition fs_delete_file_impl :: "'d ports \<Rightarrow> u8 list option \<Rightarrow> bool \<Rightarrow> 'd fs \<Rightarrow> bool \<times> 'd fs" where
  "fs_delete_file_impl io name verbose s =
     (if no_name name then (False, say verbose (line ''Nom de fichier invalide.'') s)
      else let name = the name in
        case find_entry name 0 (files (root s)) of
          None \<Rightarrow> (False, not_found verbose name s)
        | Some i \<Rightarrow>
            (let e = files (root s) ! i;
                 s = bitmap_mark io (start_lba e) (size_sect e) 0 s;
                 s = s\<lparr>root := (root s)\<lparr>files := (files (root s))
                       [i := \<lparr>fname = replicate 24 0, start_lba = 0, size_sect = 0\<rparr>]\<rparr>\<rparr>;
                 (ok, s) = fs_root_save io s
             in if \<not> ok then (False, say verbose (line ''Erreur d'ecriture disque.'') s)
                else (True, say verbose (line ''Fichier supprime.'') s)))"

definition fs_delete_file :: "'d ports \<Rightarrow> u8 list option \<Rightarrow> 'd fs \<Rightarrow> bool \<times> 'd fs" where
  "fs_delete_file io name s = fs_delete_file_impl io name True s"

definition fs_delete_file_silent :: "'d ports \<Rightarrow> u8 list option \<Rightarrow> 'd fs \<Rightarrow> bool \<times> 'd fs" where
  "fs_delete_file_silent io name s = fs_delete_file_impl io name False s"

function write_loop :: "'d ports \<Rightarrow> u32 \<Rightarrow> u32 \<Rightarrow> u8 list \<Rightarrow> 'd fs \<Rightarrow> bool \<times> 'd fs" where
  "write_loop io lba remaining data s =
     (if remaining > 0 then
        let chunk = (if remaining > 512 then 512 else remaining);
            buffer = take (unat chunk) data @ replicate (512 - unat chunk) 0;
            (ok, d) = ata_write_sector io lba buffer (disk s);
            s = s\<lparr>disk := d\<rparr>
        in if \<not> ok then (False, s)
           else write_loop io (lba + 1) (remaining - chunk) (drop (unat chunk) data) s
      else (True, s))"
  by pat_completeness auto
termination
  by (relation "measure (\<lambda>(io, lba, remaining, data, s). unat remaining)")
    (auto simp: word_less_nat_alt word_le_nat_alt unat_sub)

declare write_loop.simps [simp del]

definition fs_write_file_impl ::
    "'d ports \<Rightarrow> u8 list option \<Rightarrow> u8 list option \<Rightarrow> u32 \<Rightarrow> bool \<Rightarrow> 'd fs \<Rightarrow> bool \<times> 'd fs" where
  "fs_write_file_impl io name data size_bytes verbose s =
     (if no_name name \<or> data = None \<or> size_bytes = 0
      then (False, say verbose (line ''Parametres invalides.'') s)
      else
        let s = (if fs_file_exists name s then snd (fs_delete_file_impl io name False s) else s);
            n = (size_bytes + 511) div 512;
            start = bitmap_find_free_run n (bitmap s)
        in if start = 0 then (False, say verbose (line ''Espace disque insuffisant.'') s)
           else
             let (ok, s) = write_loop io start size_bytes (the data) s
             in if \<not> ok then (False, say verbose (line ''Erreur d'ecriture disque.'') s)
                else
                  let s = bitmap_mark io start n 1 s;
                      (ok, s) = fs_add_entry io (the name) start n s
                  in if \<not> ok then (False, bitmap_mark io start n 0 s)
                     else (True, say verbose (line ''Fichier ecrit avec succes.'') s))"

definition fs_write_file ::
    "'d ports \<Rightarrow> u8 list option \<Rightarrow> u8 list option \<Rightarrow> u32 \<Rightarrow> 'd fs \<Rightarrow> bool \<times> 'd fs" where
  "fs_write_file io name data size_bytes s = fs_write_file_impl io name data size_bytes True s"

definition fs_write_file_silent ::
    "'d ports \<Rightarrow> u8 list option \<Rightarrow> u8 list option \<Rightarrow> u32 \<Rightarrow> 'd fs \<Rightarrow> bool \<times> 'd fs" where
  "fs_write_file_silent io name data size_bytes s = fs_write_file_impl io name data size_bytes False s"

end
