(* ===== verification/Fs_Dir.thy ===== *)
theory Fs_Dir
  imports Fs
begin

text \<open>
  The pure parts of the file system: comparison and copying of names, the packed directory image
  (which decodes to what was encoded), the search loops, the allocation bitmap.
\<close>

subsection \<open>Names\<close>

definition cname :: "u8 list \<Rightarrow> u8 list" where
  "cname bs = takeWhile (\<lambda>c. c \<noteq> 0) bs"

lemma cname_simps [simp]: "cname [] = []" "cname (c # cs) = (if c = 0 then [] else c # cname cs)"
  by (simp_all add: cname_def)

lemma cname_id: "0 \<notin> set bs \<Longrightarrow> cname bs = bs"
  by (induction bs) auto

lemma cbyte_simps [simp]: "cbyte [] i = 0" "cbyte (c # cs) 0 = c" "cbyte (c # cs) (Suc i) = cbyte cs i"
  by (simp_all add: cbyte_def)

lemma m_strcmp_eq: "m_strcmp s1 s2 = 0 \<longleftrightarrow> cname s1 = cname s2"
proof (induction s1 s2 rule: m_strcmp.induct)
  case (1 c s1 s2)
  then show ?case by (cases s2) (auto simp: word_uint_eq_iff [symmetric] uint_0_iff)
next
  case (2 s2)
  then show ?case by (cases s2) (auto simp: uint_0_iff)
qed

lemma valid_name_from_iff:
  "i \<le> 24 \<Longrightarrow> (\<forall>j<i. cbyte name j \<noteq> 0) \<Longrightarrow>
    valid_name_from name i \<longleftrightarrow> cbyte name 0 \<noteq> 0 \<and> (\<exists>j<24. cbyte name j = 0)"
proof (induction "24 - i" arbitrary: i)
  case 0
  then have "i = 24" by simp
  then show ?case using 0 by (auto simp: valid_name_from.simps [of name 24])
next
  case (Suc n)
  show ?case
  proof (cases "cbyte name i = 0")
    case True
    have "i < 24" using Suc.hyps(2) by simp
    with True have "i < 24" "\<exists>j<24. cbyte name j = 0" by blast+
    then show ?thesis using True Suc.prems unfolding valid_name_from.simps [of name i] by (cases "i = 0") auto
  next
    case False
    then have "valid_name_from name (i + 1) \<longleftrightarrow> cbyte name 0 \<noteq> 0 \<and> (\<exists>j<24. cbyte name j = 0)"
      using Suc.hyps(2) Suc.prems by (intro Suc.hyps(1)) (auto simp: less_Suc_eq)
    moreover have "i < 24" using Suc.hyps(2) by simp
    ultimately show ?thesis using False by (simp add: valid_name_from.simps [of name i])
  qed
qed

lemma zero_before: "(\<exists>j<n. cbyte name j = 0) \<longleftrightarrow> length (cname name) < n"
proof (induction name arbitrary: n)
  case Nil
  then show ?case by auto
next
  case (Cons c cs)
  show ?case
  proof (cases n)
    case (Suc m)
    have "(\<exists>j<Suc m. cbyte (c # cs) j = 0) \<longleftrightarrow> c = 0 \<or> (\<exists>j<m. cbyte cs j = 0)"
      by (auto simp: less_Suc_eq_0_disj)
    then show ?thesis using Cons Suc by auto
  qed simp
qed

lemma cbyte_0: "cbyte name 0 = 0 \<longleftrightarrow> cname name = []"
  by (cases name) simp_all

text \<open>\<open>valid_name\<close> accepts exactly the non-empty names that end within the 24 bytes of the field.\<close>

lemma valid_name_iff: "valid_name name \<longleftrightarrow> cname name \<noteq> [] \<and> length (cname name) < 24"
  using valid_name_from_iff [of 0 name] by (simp add: valid_name_def zero_before cbyte_0)

lemma no_name_iff: "no_name (Some nm) \<longleftrightarrow> cname nm = []" "no_name None"
  by (simp_all add: no_name_def cbyte_0)

lemma length_copy_name: "n < length old \<Longrightarrow> length (copy_name n nm old) = length old"
proof (induction n arbitrary: nm old)
  case (Suc n)
  then show ?case by (cases old) simp_all
qed simp

lemma copy_name_take:
  "n < length old \<Longrightarrow> cname ((copy_name n nm old)[n := 0]) = take n (cname nm)"
proof (induction n arbitrary: nm old)
  case 0
  then show ?case by (cases old) simp_all
next
  case (Suc n)
  then show ?case by (cases old; cases nm) auto
qed

lemma copied_name:
  assumes "length old = 24" "cname nm = nm"
  shows "cname ((copy_name 23 nm old)[23 := 0]) = take 23 nm" "length ((copy_name 23 nm old)[23 := 0]) = 24"
  using copy_name_take [of 23 old nm] length_copy_name [of 23 old nm] assms by simp_all

subsection \<open>The directory image\<close>

lemma le32_bytes32 [simp]: "le32 (bytes32 v @ bs) = v"
proof -
  have "rd32 (wr32 (\<lambda>_. 0) 0 v) 0 = le32 (bytes32 v)"
    by (simp add: rd32_def wr32_def bytes32_def le32_def)
  moreover have "le32 (bytes32 v @ bs) = le32 (bytes32 v)"
    by (simp add: le32_def bytes32_def)
  ultimately show ?thesis by simp
qed

lemma entry_round_trip:
  assumes "length (fname e) = 24"
  shows "length (entry_raw e) = 32" "entry_of_raw (entry_raw e @ bs) = e"
proof -
  show "length (entry_raw e) = 32" using assms by (simp add: entry_raw_def)
  have "drop 24 (entry_raw e @ bs) = bytes32 (start_lba e) @ bytes32 (size_sect e) @ bs"
    "drop 28 (entry_raw e @ bs) = bytes32 (size_sect e) @ bs" "take 24 (entry_raw e @ bs) = fname e"
    using assms by (simp_all add: entry_raw_def)
  then show "entry_of_raw (entry_raw e @ bs) = e" by (simp add: entry_of_raw_def)
qed

lemma length_concat_32: "(\<And>x. x \<in> set xs \<Longrightarrow> length x = 32) \<Longrightarrow> length (concat xs) = 32 * length xs"
  by (induction xs) simp_all

lemma nth_concat_32:
  "(\<And>x. x \<in> set xs \<Longrightarrow> length x = 32) \<Longrightarrow> i < length xs \<Longrightarrow> take 32 (drop (32 * i) (concat xs @ ys)) = xs ! i"
proof (induction xs arbitrary: i)
  case (Cons x xs)
  then show ?case by (cases i) simp_all
qed simp

definition root_shape :: "root_dir \<Rightarrow> bool" where
  "root_shape r \<longleftrightarrow> length (files r) = FS_MAX_FILES \<and> (\<forall>e \<in> set (files r). length (fname e) = 24) \<and>
     length (reserved r) = 24"

lemma length_entries: "root_shape r \<Longrightarrow> length (concat (map entry_raw (files r))) = 1024"
  by (subst length_concat_32) (auto simp: root_shape_def entry_round_trip)

lemma length_root_raw: "root_shape r \<Longrightarrow> length (root_raw r) = ROOT_BYTES"
  using length_entries [of r] by (simp add: root_raw_def root_shape_def)

text \<open>A directory is decoded from its image unchanged.\<close>

lemma root_round_trip:
  assumes "root_shape r"
  shows "root_of_raw (root_raw r) = r"
proof -
  let ?es = "map entry_raw (files r)" and ?tail = "bytes32 (next_free_lba r) @ reserved r"
  have len: "length x = 32" if "x \<in> set ?es" for x
    using that assms by (auto simp: root_shape_def entry_round_trip)
  have lc: "length (concat ?es) = 1024" using length_entries [OF assms] .
  have "entry_of_raw (take 32 (drop (4 + 32 * i) (root_raw r))) = files r ! i" if "i < 32" for i
  proof -
    have "take 32 (drop (4 + 32 * i) (root_raw r)) = ?es ! i"
      using nth_concat_32 [of ?es i ?tail, OF len] that assms by (simp add: root_raw_def root_shape_def)
    moreover have "files r ! i \<in> set (files r)" using that assms by (simp add: root_shape_def)
    ultimately show ?thesis using that assms entry_round_trip(2) [of "files r ! i" "[]"]
      by (simp add: root_shape_def)
  qed
  then have "map (\<lambda>i. entry_of_raw (take 32 (drop (4 + 32 * i) (root_raw r)))) [0..<32] = map ((!) (files r)) [0..<32]"
    by simp
  also have "\<dots> = files r" using assms map_nth [of "files r"] by (simp add: root_shape_def)
  finally have fs: "map (\<lambda>i. entry_of_raw (take 32 (drop (4 + 32 * i) (root_raw r)))) [0..<32] = files r" .
  have "drop 1028 (root_raw r) = bytes32 (next_free_lba r) @ reserved r" "drop 1032 (root_raw r) = reserved r"
    using lc by (simp_all add: root_raw_def)
  moreover have "le32 (root_raw r) = magic r" by (simp add: root_raw_def)
  ultimately show ?thesis unfolding root_of_raw_def fs by simp
qed

subsection \<open>The search loops\<close>

definition named :: "u8 list \<Rightarrow> file_entry \<Rightarrow> bool" where
  "named nm e \<longleftrightarrow> valid_name (fname e) \<and> cname (fname e) = nm"

lemma find_entry_None: "cname nm = nm \<Longrightarrow> find_entry nm i es = None \<longleftrightarrow> (\<forall>e \<in> set es. \<not> named nm e)"
  by (induction es arbitrary: i) (auto simp: named_def m_strcmp_eq)

lemma find_entry_Some:
  "cname nm = nm \<Longrightarrow> find_entry nm i es = Some k \<Longrightarrow> i \<le> k \<and> k - i < length es \<and> named nm (es ! (k - i))"
proof (induction es arbitrary: i)
  case (Cons e es)
  show ?case
  proof (cases "named nm e")
    case True
    then show ?thesis using Cons.prems by (auto simp: named_def m_strcmp_eq)
  next
    case False
    then have "find_entry nm (i + 1) es = Some k" using Cons.prems by (auto simp: named_def m_strcmp_eq split: if_splits)
    from Cons.IH [OF Cons.prems(1) this] show ?thesis by (auto simp: nth_Cons')
  qed
qed simp

lemma free_entry_None: "free_entry i es = None \<longleftrightarrow> (\<forall>e \<in> set es. cname (fname e) \<noteq> [])"
  by (induction es arbitrary: i) (auto simp: cbyte_0)

lemma free_entry_Some:
  "free_entry i es = Some k \<Longrightarrow> i \<le> k \<and> k - i < length es \<and> cname (fname (es ! (k - i))) = []"
proof (induction es arbitrary: i)
  case (Cons e es)
  show ?case
  proof (cases "cname (fname e) = []")
    case True
    then show ?thesis using Cons.prems by (auto simp: cbyte_0)
  next
    case False
    then have "free_entry (i + 1) es = Some k" using Cons.prems by (auto simp: cbyte_0 split: if_splits)
    from Cons.IH [OF this] show ?thesis by (auto simp: nth_Cons')
  qed
qed simp

subsection \<open>The allocation bitmap\<close>

lemma length_mark_loop [simp]: "length (mark_loop idx count used i bm) = length bm"
  by (induction idx count used i bm rule: mark_loop.induct) (subst mark_loop.simps, simp)

lemma mark_loop_nth:
  assumes "length bm = 512" "unat idx + unat i < 2 ^ 32" "k < 512"
  shows "mark_loop idx count used i bm ! k =
    (if unat idx + unat i \<le> k \<and> k < unat idx + unat count \<and> k < 511 then used else bm ! k)"
  using assms
proof (induction idx count used i bm rule: mark_loop.induct)
  case (1 idx count used i bm)
  have sum: "unat (idx + i) = unat idx + unat i" using 1(3) by (simp add: unat_word_ariths)
  show ?case
  proof (cases "i < count \<and> idx + i < of_nat (FS_DATA_SECTORS - 1)")
    case True
    then have lt: "unat i < unat count" "unat idx + unat i < 511" using sum by (simp_all add: word_less_nat_alt)
    then have "unat (i + 1) = unat i + 1" using unat_plus_no_wrap [of i 1] by simp
    moreover from this have "mark_loop idx count used (i + 1) (bm[unat (idx + i) := used]) ! k =
        (if unat idx + unat (i + 1) \<le> k \<and> k < unat idx + unat count \<and> k < 511 then used
         else bm[unat (idx + i) := used] ! k)"
      using 1(2,4) lt by (intro 1(1) [OF True]) simp_all
    ultimately show ?thesis using True lt sum 1(2,4)
      by (subst mark_loop.simps) (auto simp: nth_list_update)
  next
    case False
    then have "\<not> unat i < unat count \<or> 511 \<le> unat idx + unat i" using sum by (auto simp: word_less_nat_alt not_less)
    then have "\<not> (unat idx + unat i \<le> k \<and> k < unat idx + unat count \<and> k < 511)" by linarith
    moreover have "mark_loop idx count used i bm = bm" using False by (subst mark_loop.simps) (rule if_not_P)
    ultimately show ?thesis by (simp only: if_False)
  qed
qed

text \<open>The arrays with whatever lies behind them in memory: the loops neither read nor write it.\<close>

lemma mark_loop_behind:
  "length bm = 512 \<Longrightarrow> mark_loop idx count used i (bm @ behind) = mark_loop idx count used i bm @ behind"
proof (induction idx count used i bm rule: mark_loop.induct)
  case (1 idx count used i bm)
  show ?case
  proof (cases "i < count \<and> idx + i < of_nat (FS_DATA_SECTORS - 1)")
    case True
    then have "unat (idx + i) < 512" by (simp add: word_less_nat_alt)
    then show ?thesis using True 1 by (simp add: mark_loop.simps [of idx count used i] list_update_append)
  next
    case False
    then have "mark_loop idx count used i b = b" for b by (subst mark_loop.simps) (rule if_not_P)
    then show ?thesis by simp
  qed
qed

lemma free_run_loop_behind:
  "length bm = 512 \<Longrightarrow> free_run_loop (bm @ behind) count i rs rl = free_run_loop bm count i rs rl"
proof (induction bm count i rs rl rule: free_run_loop.induct)
  case (1 bm count i rs rl)
  then show ?case
    by (simp add: free_run_loop.simps [of "bm @ behind" count i] free_run_loop.simps [of bm count i] Let_def nth_append)
qed

lemma copy_name_behind: "n < length old \<Longrightarrow> copy_name n nm (old @ behind) = copy_name n nm old @ behind"
proof (induction n nm old rule: copy_name.induct)
  case (2 n nm old)
  then show ?case by (cases old) auto
qed simp

lemma root_load_behind:
  assumes "\<And>lba d bs d'. ata_read_sector io lba d = (Some bs, d') \<Longrightarrow> length bs = 512"
  shows "\<forall>k \<in> set ks. 512 * k + root_chunk k \<le> length raw \<Longrightarrow> root_load_loop io ks raw d = (ok, raw', d') \<Longrightarrow>
    root_load_loop io ks (raw @ behind) d = (ok, raw' @ behind, d')"
proof (induction ks arbitrary: raw d)
  case (Cons k ks)
  obtain r d1 where r: "ata_read_sector io (FS_ROOT_LBA + of_nat k) d = (r, d1)" by fastforce
  show ?case
  proof (cases r)
    case (Some bs)
    have "length (take (root_chunk k) bs) = root_chunk k" using assms r Some by (simp add: root_chunk_def)
    then show ?thesis using Cons.IH [of "take (512 * k) raw @ take (root_chunk k) bs @ drop (512 * k + root_chunk k) raw"] Cons.prems r Some
      by auto
  qed (use Cons.prems r in auto)
qed simp

lemma load_loop_length:
  "load_loop io lba remaining out s = (ok, out', s') \<Longrightarrow> length out' \<le> length out + unat remaining"
proof (induction io lba remaining out s rule: load_loop.induct)
  case (1 io lba remaining out s)
  show ?case
  proof (cases "ata_read_sector io lba (disk s)")
    case (Pair r d)
    let ?chunk = "if remaining > 512 then 512 else remaining"
    have c: "?chunk \<le> remaining" by (auto simp: word_le_nat_alt word_less_nat_alt)
    then have u: "unat (remaining - ?chunk) + unat ?chunk = unat remaining" by (simp add: unat_sub word_le_nat_alt)
    show ?thesis
    proof (cases "remaining > 0 \<and> r \<noteq> None")
      case True
      then obtain buf where b: "r = Some buf" by auto
      have "length out' \<le> length (out @ take (unat ?chunk) buf) + unat (remaining - ?chunk)"
        using 1(2) True Pair b by (intro 1(1) [OF _ Pair [symmetric] _ refl]) (simp_all add: load_loop.simps [of io lba remaining] Let_def split: if_splits)
      moreover have "length (out @ take (unat ?chunk) buf) \<le> length out + unat ?chunk" by simp
      ultimately show ?thesis using u by linarith
    next
      case False
      then have "out' = out" using 1(2) Pair by (auto simp: load_loop.simps [of io lba remaining] split: if_splits)
      then show ?thesis by simp
    qed
  qed
qed

definition free_at :: "u8 list \<Rightarrow> nat \<Rightarrow> nat \<Rightarrow> bool" where
  "free_at bm n k \<longleftrightarrow> k + n \<le> 511 \<and> (\<forall>j<n. bm ! (k + j) = 0)"

lemma free_run_loop_spec:
  assumes "i \<le> 511" "rl < unat count" "b = (if rl = 0 then i else rs)" "b + rl = i"
    "\<And>j. b \<le> j \<Longrightarrow> j < i \<Longrightarrow> bm ! j = 0" "\<And>k. k < b \<Longrightarrow> \<not> free_at bm (unat count) k"
  shows "free_run_loop bm count i rs rl = 0 \<and> (\<forall>k. \<not> free_at bm (unat count) k) \<or>
    (\<exists>k. free_run_loop bm count i rs rl = FS_DATA_LBA + of_nat k \<and> free_at bm (unat count) k \<and>
      (\<forall>k'<k. \<not> free_at bm (unat count) k'))"
  using assms
proof (induction "511 - i" arbitrary: i rs rl b)
  case 0
  then have i: "i = 511" by simp
  have "\<not> free_at bm (unat count) k" for k
    using 0(7) [of k] 0(3,5) i by (cases "k < b") (auto simp: free_at_def)
  then show ?case using i by (simp add: free_run_loop.simps)
next
  case (Suc m)
  then have i: "i < 511" by simp
  show ?case
  proof (cases "bm ! i = 0")
    case False
    have "\<not> free_at bm (unat count) k" if "k < i + 1" for k
    proof (cases "k < b")
      case True
      then show ?thesis by (rule Suc.prems(6))
    next
      case k: False
      then have "i < k + unat count" "k \<le> i" using Suc.prems(2,4) that by simp_all
      then show ?thesis using False unfolding free_at_def by (metis add_diff_inverse_nat less_diff_conv2 nat_add_left_cancel_less not_less)
    qed
    then have "free_run_loop bm count (i + 1) rs 0 = 0 \<and> (\<forall>k. \<not> free_at bm (unat count) k) \<or>
      (\<exists>k. free_run_loop bm count (i + 1) rs 0 = FS_DATA_LBA + of_nat k \<and> free_at bm (unat count) k \<and>
      (\<forall>k'<k. \<not> free_at bm (unat count) k'))"
      using i Suc.hyps(2) Suc.prems(2) by (intro Suc.hyps(1) [where b = "i + 1"]) auto
    then show ?thesis using False i by (simp add: free_run_loop.simps [of bm count i])
  next
    case True
    have z: "bm ! j = 0" if "b \<le> j" "j < i + 1" for j
      using Suc.prems(5) [of j] that True by (cases "j = i") simp_all
    have b: "(if rl = 0 then i else rs) = b" using Suc.prems(3) by simp
    show ?thesis
    proof (cases "rl + 1 \<ge> unat count")
      case T: True
      then have "unat count = rl + 1" using Suc.prems(2) by simp
      then have "free_at bm (unat count) b" using z Suc.prems(4) i by (simp add: free_at_def)
      then show ?thesis using T True i b Suc.prems(6) by (auto simp: free_run_loop.simps [of bm count i] Let_def)
    next
      case F: False
      have "free_run_loop bm count (i + 1) b (rl + 1) = 0 \<and> (\<forall>k. \<not> free_at bm (unat count) k) \<or>
        (\<exists>k. free_run_loop bm count (i + 1) b (rl + 1) = FS_DATA_LBA + of_nat k \<and> free_at bm (unat count) k \<and>
        (\<forall>k'<k. \<not> free_at bm (unat count) k'))"
        using i Suc.hyps(2) Suc.prems(4,6) F z by (intro Suc.hyps(1) [where b = b]) auto
      then show ?thesis using F True i b by (simp add: free_run_loop.simps [of bm count i] Let_def)
    qed
  qed
qed

lemma find_free_run_spec:
  assumes "count \<noteq> 0"
  shows "bitmap_find_free_run count bm = 0 \<and> (\<forall>k. \<not> free_at bm (unat count) k) \<or>
    (\<exists>k. bitmap_find_free_run count bm = FS_DATA_LBA + of_nat k \<and> unat (FS_DATA_LBA + of_nat k) = 86 + k \<and>
      free_at bm (unat count) k \<and> (\<forall>k'<k. \<not> free_at bm (unat count) k'))"
proof -
  have n: "0 < unat count" using assms by (simp add: unat_gt_0)
  have "unat (FS_DATA_LBA + of_nat k) = 86 + k" if "free_at bm (unat count) k" for k
    using that unat_plus_no_wrap [of FS_DATA_LBA k] by (simp add: free_at_def)
  moreover have "bitmap_find_free_run count bm = 0 \<and> (\<forall>k. \<not> free_at bm (unat count) k) \<or>
    (\<exists>k. bitmap_find_free_run count bm = FS_DATA_LBA + of_nat k \<and> free_at bm (unat count) k \<and>
      (\<forall>k'<k. \<not> free_at bm (unat count) k'))"
    unfolding bitmap_find_free_run_def using n by (intro free_run_loop_spec [of 0 0 count 0 0 bm]) simp_all
  ultimately show ?thesis by blast
qed

text \<open>C28. \<open>bitmap_find_free_run\<close> (one pass with a run counter) returns what the
  first-fit search returns: the LBA of the lowest run of \<open>count\<close> consecutive free data sectors
  that lies inside the data area, and 0 when there is none.\<close>

definition first_fit :: "nat \<Rightarrow> u8 list \<Rightarrow> nat option" where
  "first_fit n bm = List.find (\<lambda>k. k + n \<le> 511 \<and> (\<forall>j<n. bm ! (k + j) = 0)) [0..<511]"

theorem bitmap_first_fit:
  assumes "count \<noteq> 0"
  shows "bitmap_find_free_run count bm =
    (case first_fit (unat count) bm of None \<Rightarrow> 0 | Some k \<Rightarrow> FS_DATA_LBA + of_nat k)"
proof -
  have n: "0 < unat count" using assms by (simp add: unat_gt_0)
  have ff: "first_fit (unat count) bm = List.find (free_at bm (unat count)) [0..<511]"
    by (simp add: first_fit_def free_at_def [abs_def])
  have "first_fit (unat count) bm = None" if "\<forall>k. \<not> free_at bm (unat count) k"
    using that by (simp add: ff find_None_iff)
  moreover have "first_fit (unat count) bm = Some k"
    if "free_at bm (unat count) k" "\<forall>k'<k. \<not> free_at bm (unat count) k'" for k
  proof -
    have "k < 511" using that(1) n by (simp add: free_at_def)
    then show ?thesis using that by (auto simp: ff find_Some_iff intro!: exI [of _ k])
  qed
  moreover note find_free_run_spec [OF assms, of bm]
  ultimately show ?thesis by auto
qed

theorem bitmap_first_fit_witness:
  "bitmap_find_free_run 2 ([1, 0, 1] @ replicate 509 0) = 89"
proof -
  let ?bm = "[1, 0, 1] @ replicate 509 0 :: u8 list"
  define P where "P k \<longleftrightarrow> k + 2 \<le> 511 \<and> (\<forall>j<2. ?bm ! (k + j) = 0)" for k
  have two: "(\<forall>j<2. Q j) \<longleftrightarrow> Q 0 \<and> Q 1" for Q :: "nat \<Rightarrow> bool" by (auto simp: less_2_cases_iff)
  have P: "P 3" "\<not> P 0" "\<not> P 1" "\<not> P 2" unfolding P_def two by (simp_all add: nth_append)
  have "\<not> P j" if "j < 3" for j
  proof -
    from that have "j = 0 \<or> j = 1 \<or> j = 2" by arith
    then show ?thesis using P by auto
  qed
  with P(1) have "List.find P [0..<511] = Some 3" unfolding find_Some_iff by (intro exI [of _ 3]) simp
  then show ?thesis using bitmap_first_fit [of 2 ?bm] by (simp add: first_fit_def P_def [abs_def])
qed

end
