(* ===== verification/Fs_Store.thy ===== *)
theory Fs_Store
  imports Fs_Dir
begin

text \<open>
  The file system as a client of the block device: on a device that refuses no transfer, the
  directory, the bitmap and the data sectors together represent a finite map from names to file
  contents, kept in memory and on disk alike. The lemmas are proved once, in the locale \<open>fs_disk\<close>, for
  every disk that satisfies the laws; the properties take them over with the laws as a hypothesis,
  and their witnesses discharge it for the reference drive.
\<close>

subsection \<open>Runs of sectors\<close>

definition sectors :: "('d \<Rightarrow> u32 \<Rightarrow> sector) \<Rightarrow> 'd \<Rightarrow> u32 \<Rightarrow> nat \<Rightarrow> u8 list" where
  "sectors content d lba n = concat (map (\<lambda>k. content d (lba + of_nat k)) [0..<n])"

lemma sectors_0 [simp]: "sectors content d lba 0 = []"
  by (simp add: sectors_def)

lemma sectors_Suc: "sectors content d lba (Suc n) = content d lba @ sectors content d (lba + 1) n"
proof -
  have "map (\<lambda>k. content d (lba + of_nat k)) [0..<Suc n] = content d lba # map (\<lambda>k. content d (lba + 1 + of_nat k)) [0..<n]"
    by (simp add: upt_conv_Cons map_Suc_upt [symmetric] comp_def add.assoc del: upt_Suc)
  then show ?thesis by (simp add: sectors_def)
qed

definition in_run :: "u32 \<Rightarrow> nat \<Rightarrow> u32 \<Rightarrow> bool" where
  "in_run lba n l \<longleftrightarrow> unat lba \<le> unat l \<and> unat l < unat lba + n"

lemma sectors_cong:
  assumes "\<And>l. in_run lba n l \<Longrightarrow> content d' l = content d l" "unat lba + n \<le> 2 ^ 28"
  shows "sectors content d' lba n = sectors content d lba n"
proof -
  have "content d' (lba + of_nat k) = content d (lba + of_nat k)" if "k < n" for k
    using that assms(2) unat_plus_no_wrap [of lba k] by (intro assms(1)) (simp add: in_run_def)
  then show ?thesis by (auto simp: sectors_def intro!: arg_cong [where f = concat])
qed

lemma length_sectors: "(\<And>l. length (content d l) = 512) \<Longrightarrow> length (sectors content d lba n) = 512 * n"
  by (induction n arbitrary: lba) (simp_all add: sectors_Suc)

text \<open>A file is stored with zeros up to a multiple of 512 bytes.\<close>

definition padded :: "u8 list \<Rightarrow> u8 list" where
  "padded bs = bs @ replicate ((512 - length bs mod 512) mod 512) 0"

lemma padded_Nil [simp]: "padded [] = []"
  by (simp add: padded_def)

lemma padded_last: "0 < length bs \<Longrightarrow> length bs \<le> 512 \<Longrightarrow> padded bs = bs @ replicate (512 - length bs) 0"
  by (cases "length bs = 512") (simp_all add: padded_def)

lemma padded_split: "length as = 512 \<Longrightarrow> padded (as @ bs) = as @ padded bs"
  by (simp add: padded_def mod_add_left_eq [symmetric])

abbreviation sectors_for :: "nat \<Rightarrow> nat" where
  "sectors_for n \<equiv> (n + 511) div 512"

lemma length_padded: "length (padded bs) = 512 * sectors_for (length bs)"
proof -
  have "n + (512 - n mod 512) mod 512 = 512 * ((n + 511) div 512)" for n :: nat
  proof (cases "n mod 512")
    case 0
    then obtain q where "n = 512 * q" by auto
    then show ?thesis by simp
  next
    case (Suc t)
    define q where "q = n div 512"
    have n: "n = 512 * q + Suc t" using Suc div_mult_mod_eq [of n 512] by (simp add: q_def mult.commute)
    have t: "t < 511" using Suc mod_less_divisor [of 512 n] by simp
    have "n + 511 = t + (q + 1) * 512" using n by simp
    then have "(n + 511) div 512 = q + 1" using t by (simp only: div_mult_self1)
    moreover have "(512 - Suc t) mod 512 = 512 - Suc t" by (rule mod_less) simp
    ultimately show ?thesis using t Suc n by simp
  qed
  then show ?thesis by (simp add: padded_def)
qed

lemma chunk_facts:
  fixes remaining :: u32
  assumes "remaining \<noteq> 0" "chunk = (if remaining > 512 then 512 else remaining)"
  shows "0 < unat remaining" "unat chunk = min (unat remaining) 512"
    "unat (remaining - chunk) = unat remaining - min (unat remaining) 512"
    "sectors_for (unat remaining) = Suc (sectors_for (unat remaining - min (unat remaining) 512))"
proof -
  show n: "0 < unat remaining" using assms(1) by (simp add: unat_gt_0)
  show c: "unat chunk = min (unat remaining) 512" by (auto simp: assms(2) word_less_nat_alt)
  show "unat (remaining - chunk) = unat remaining - min (unat remaining) 512"
    using c unat_sub [of chunk remaining] by (simp add: word_le_nat_alt)
  show "sectors_for (unat remaining) = Suc (sectors_for (unat remaining - min (unat remaining) 512))"
    using n by (cases "unat remaining \<le> 512") (simp_all add: div_add_self1 [symmetric])
qed

lemma root_sectors: "[0..<FS_ROOT_SECTORS] = [0, 1, 2]"
  by (simp add: upt_rec numeral_2_eq_2)

subsection \<open>The disk under the file system\<close>

locale fs_disk = reliable_device content ready lba28 "ata_read_sector io" "ata_write_sector io"
  for io :: "'d ports" and content :: "'d \<Rightarrow> u32 \<Rightarrow> sector" and ready
begin

lemma fs_read:
  assumes "ready d" "unat lba < 2 ^ 28"
  shows "\<exists>d'. ata_read_sector io lba d = (Some (content d lba), d') \<and> ready d' \<and> content d' = content d"
  using read_result [OF assms(1), of lba] assms(2) by (simp add: word_less_nat_alt)

lemma fs_write:
  assumes "ready d" "unat lba < 2 ^ 28" "length bs = 512"
  shows "\<exists>d'. ata_write_sector io lba bs d = (True, d') \<and> ready d' \<and> content d' = (content d)(lba := bs)"
  using write_result [OF assms(1) _ assms(3), of lba] assms(2) by (simp add: word_less_nat_alt)

lemma write_loop_ok:
  assumes "ready (disk s)" "unat remaining \<le> length data" "unat lba + sectors_for (unat remaining) \<le> 2 ^ 28"
  shows "\<exists>d'. write_loop io lba remaining data s = (True, s\<lparr>disk := d'\<rparr>) \<and> ready d' \<and>
    sectors content d' lba (sectors_for (unat remaining)) = padded (take (unat remaining) data) \<and>
    (\<forall>l. \<not> in_run lba (sectors_for (unat remaining)) l \<longrightarrow> content d' l = content (disk s) l)"
  using assms
proof (induction "unat remaining" arbitrary: lba remaining data s rule: less_induct)
  case less
  show ?case
  proof (cases "remaining = 0")
    case True
    then show ?thesis using less.prems by (subst write_loop.simps) (auto intro!: exI [of _ "disk s"])
  next
    case False
    define n chunk where "n = unat remaining" and "chunk = (if remaining > 512 then 512 else remaining)"
    note facts = chunk_facts [OF False chunk_def, folded n_def]
    note n = facts(1) and c = facts(2) and rest = facts(3) and sf = facts(4)
    let ?buf = "take (unat chunk) data @ replicate (512 - unat chunk) 0"
    have buf: "length ?buf = 512" using less.prems(2) c by (simp add: n_def)
    from fs_write [OF less.prems(1) _ buf, of lba] less.prems(3) sf obtain d1 where d1:
      "ata_write_sector io lba ?buf (disk s) = (True, d1)" "ready d1" "content d1 = (content (disk s))(lba := ?buf)"
      by (auto simp: n_def)
    have lba1: "unat (lba + 1) = unat lba + 1" using less.prems(3) unat_plus_no_wrap [of lba 1] sf
      by (simp add: n_def)
    have "\<exists>d'. write_loop io (lba + 1) (remaining - chunk) (drop (unat chunk) data) (s\<lparr>disk := d1\<rparr>)
        = (True, (s\<lparr>disk := d1\<rparr>)\<lparr>disk := d'\<rparr>) \<and> ready d' \<and>
      sectors content d' (lba + 1) (sectors_for (unat (remaining - chunk))) =
        padded (take (unat (remaining - chunk)) (drop (unat chunk) data)) \<and>
      (\<forall>l. \<not> in_run (lba + 1) (sectors_for (unat (remaining - chunk))) l \<longrightarrow>
        content d' l = content (disk (s\<lparr>disk := d1\<rparr>)) l)"
      using less.prems(3) diff_le_mono [OF less.prems(2), of "min n 512"] d1(2) n c rest sf lba1
      by (intro less.hyps) (simp_all add: n_def)
    then obtain d' where d': "write_loop io (lba + 1) (remaining - chunk) (drop (unat chunk) data) (s\<lparr>disk := d1\<rparr>)
        = (True, s\<lparr>disk := d'\<rparr>)" "ready d'"
      "sectors content d' (lba + 1) (sectors_for (n - min n 512)) = padded (take (n - min n 512) (drop (min n 512) data))"
      "\<And>l. \<not> in_run (lba + 1) (sectors_for (n - min n 512)) l \<Longrightarrow> content d' l = content d1 l"
      unfolding rest c by auto
    have first: "content d' lba = ?buf" using d'(4) [of lba] d1(3) lba1 by (simp add: in_run_def)
    have out: "content d' l = content (disk s) l" if "\<not> in_run lba (sectors_for n) l" for l
      using that d'(4) [of l] d1(3) sf lba1 by (auto simp: in_run_def)
    have pad: "?buf @ padded (take (n - min n 512) (drop (min n 512) data)) = padded (take n data)"
    proof (cases "n \<le> 512")
      case True
      then show ?thesis using padded_last [of "take n data"] n c less.prems(2) by (simp add: n_def)
    next
      case False
      then have "take n data = take 512 data @ take (n - 512) (drop 512 data)"
        by (simp add: take_add [symmetric])
      then show ?thesis using False c less.prems(2) padded_split [of "take 512 data"] by (simp add: n_def)
    qed
    have "write_loop io lba remaining data s = (True, s\<lparr>disk := d'\<rparr>)"
      using False d1(1) d'(1) by (subst write_loop.simps) (simp add: Let_def chunk_def [symmetric] word_gt_0)
    then show ?thesis using d'(2,3) out pad first sf
      by (auto simp: n_def [symmetric] sectors_Suc)
  qed
qed

lemma load_loop_ok:
  assumes "ready (disk s)" "unat lba + n \<le> 2 ^ 28" "512 * n < 2 ^ 32"
  shows "\<exists>d'. load_loop io lba (of_nat (512 * n)) acc s = (True, acc @ sectors content (disk s) lba n, s\<lparr>disk := d'\<rparr>) \<and>
    ready d' \<and> content d' = content (disk s)"
  using assms
proof (induction n arbitrary: lba acc s)
  case 0
  then show ?case by (subst load_loop.simps) (auto intro!: exI [of _ "disk s"])
next
  case (Suc n)
  have u: "unat (of_nat (512 * Suc n) :: u32) = 512 * Suc n" by (rule unat_u32 [OF Suc.prems(3)])
  let ?rem = "of_nat (512 * Suc n) :: u32"
  have pos: "?rem > 0" using u by (simp add: word_less_nat_alt del: of_nat_mult of_nat_Suc)
  have chunk: "(if ?rem > 512 then 512 else ?rem) = 512"
    using u by (auto simp: word_less_nat_alt word_unat_eq_iff simp del: of_nat_mult of_nat_Suc)
  have rest: "?rem - 512 = of_nat (512 * n)" by simp
  from fs_read [OF Suc.prems(1), of lba] Suc.prems(2) obtain d1 where d1:
    "ata_read_sector io lba (disk s) = (Some (content (disk s) lba), d1)" "ready d1" "content d1 = content (disk s)" by auto
  have len: "length (content (disk s) lba) = 512" by (rule content_length [OF Suc.prems(1)])
  have lba1: "unat (lba + 1) = unat lba + 1" using Suc.prems(2) unat_plus_no_wrap [of lba 1] by simp
  have "\<exists>d'. load_loop io (lba + 1) (of_nat (512 * n)) (acc @ content (disk s) lba) (s\<lparr>disk := d1\<rparr>)
      = (True, (acc @ content (disk s) lba) @ sectors content (disk (s\<lparr>disk := d1\<rparr>)) (lba + 1) n, (s\<lparr>disk := d1\<rparr>)\<lparr>disk := d'\<rparr>) \<and>
    ready d' \<and> content d' = content (disk (s\<lparr>disk := d1\<rparr>))"
    using Suc.prems d1 lba1 by (intro Suc.IH) simp_all
  then obtain d' where d': "load_loop io (lba + 1) (of_nat (512 * n)) (acc @ content (disk s) lba) (s\<lparr>disk := d1\<rparr>)
      = (True, acc @ content (disk s) lba @ sectors content (disk s) (lba + 1) n, s\<lparr>disk := d'\<rparr>)"
    "ready d'" "content d' = content (disk s)" using d1(3) by (auto simp: sectors_def)
  have "load_loop io lba rem acc s = load_loop io (lba + 1) (rem - 512) (acc @ content (disk s) lba) (s\<lparr>disk := d1\<rparr>)"
    if "(if rem > 512 then 512 else rem) = 512" "rem > 0" for rem
    using d1(1) len that(2) by (subst load_loop.simps) (simp add: that(1) Let_def)
  from this [OF chunk pos]
  have "load_loop io lba ?rem acc s = load_loop io (lba + 1) (?rem - 512) (acc @ content (disk s) lba) (s\<lparr>disk := d1\<rparr>)" .
  then show ?case using d' by (auto simp: rest sectors_Suc simp del: of_nat_mult of_nat_Suc)
qed

lemma root_save_ok:
  assumes "ready d" "length raw = ROOT_BYTES"
  shows "\<exists>d'. root_save_loop io [0..<FS_ROOT_SECTORS] raw d = (True, d') \<and> ready d' \<and>
    content d' = (content d)(81 := root_sector raw 0, 82 := root_sector raw 1, 83 := root_sector raw 2)"
proof -
  have len: "length (root_sector raw 0) = 512" "length (root_sector raw 1) = 512" "length (root_sector raw 2) = 512"
    using assms(2) by (simp_all add: root_sector_def root_chunk_def)
  from fs_write [OF assms(1) _ len(1), of 81] obtain d1 where d1:
    "ata_write_sector io 81 (root_sector raw 0) d = (True, d1)" "ready d1"
    "content d1 = (content d)(81 := root_sector raw 0)" by auto
  from fs_write [OF d1(2) _ len(2), of 82] obtain d2 where d2:
    "ata_write_sector io 82 (root_sector raw 1) d1 = (True, d2)" "ready d2"
    "content d2 = (content d1)(82 := root_sector raw 1)" by auto
  from fs_write [OF d2(2) _ len(3), of 83] obtain d3 where d3:
    "ata_write_sector io 83 (root_sector raw 2) d2 = (True, d3)" "ready d3"
    "content d3 = (content d2)(83 := root_sector raw 2)" by auto
  have "root_save_loop io [0..<3] raw d = (True, d3)" using d1(1) d2(1) d3(1) by (simp add: root_sectors Let_def)
  then show ?thesis using d1(3) d2(3) d3(2,3) by auto
qed

lemma root_load_ok:
  assumes "ready d" "length raw0 = ROOT_BYTES"
  shows "\<exists>d'. root_load_loop io [0..<FS_ROOT_SECTORS] raw0 d =
      (True, content d 81 @ content d 82 @ take 32 (content d 83), d') \<and> ready d' \<and> content d' = content d"
proof -
  from fs_read [OF assms(1), of 81] obtain d1 where d1:
    "ata_read_sector io 81 d = (Some (content d 81), d1)" "ready d1" "content d1 = content d" by auto
  from fs_read [OF d1(2), of 82] d1(3) obtain d2 where d2:
    "ata_read_sector io 82 d1 = (Some (content d 82), d2)" "ready d2" "content d2 = content d" by auto
  from fs_read [OF d2(2), of 83] d2(3) obtain d3 where d3:
    "ata_read_sector io 83 d2 = (Some (content d 83), d3)" "ready d3" "content d3 = content d" by auto
  have "root_load_loop io [0..<3] raw0 d = (True, content d 81 @ content d 82 @ take 32 (content d 83), d3)"
    using d1(1) d2(1) d3(1) assms(2) content_length [OF assms(1)] by (simp add: root_sectors root_chunk_def)
  then show ?thesis using d3(2,3) by blast
qed

lemma bitmap_persist_ok:
  assumes "ready (disk s)" "length (bitmap s) = 512"
  shows "\<exists>d'. bitmap_persist io s = s\<lparr>disk := d'\<rparr> \<and> ready d' \<and>
    content d' = (content (disk s))(FS_BITMAP_LBA := bitmap s)"
  using fs_write [OF assms(1) _ assms(2), of FS_BITMAP_LBA] by (fastforce simp: bitmap_persist_def)

end

subsection \<open>The invariant\<close>

definition used :: "file_entry \<Rightarrow> bool" where
  "used e \<longleftrightarrow> cname (fname e) \<noteq> []"

definition covers :: "file_entry \<Rightarrow> nat \<Rightarrow> bool" where
  "covers e l \<longleftrightarrow> unat (start_lba e) \<le> l \<and> l < unat (start_lba e) + unat (size_sect e)"

definition entry_ok :: "file_entry \<Rightarrow> bool" where
  "entry_ok e \<longleftrightarrow> valid_name (fname e) \<and> 86 \<le> unat (start_lba e) \<and> 0 < unat (size_sect e) \<and>
     unat (start_lba e) + unat (size_sect e) \<le> 597"

text \<open>Directory and bitmap agree: names are unique, runs lie in the data area and do not overlap, and
  a data sector is marked exactly when a file covers it.\<close>

definition dir_ok :: "file_entry list \<Rightarrow> u8 list \<Rightarrow> bool" where
  "dir_ok es bm \<longleftrightarrow> length bm = 512 \<and> (\<forall>e \<in> set es. used e \<longrightarrow> entry_ok e) \<and>
     (\<forall>i j. i < length es \<longrightarrow> j < length es \<longrightarrow> i \<noteq> j \<longrightarrow> used (es ! i) \<longrightarrow> used (es ! j) \<longrightarrow>
       cname (fname (es ! i)) \<noteq> cname (fname (es ! j)) \<and> (\<forall>l. \<not> (covers (es ! i) l \<and> covers (es ! j) l))) \<and>
     (\<forall>k<511. bm ! k \<noteq> 0 \<longleftrightarrow> (\<exists>i<length es. used (es ! i) \<and> covers (es ! i) (86 + k)))"

definition on_disk :: "('d \<Rightarrow> u32 \<Rightarrow> sector) \<Rightarrow> 'd fs \<Rightarrow> bool" where
  "on_disk content s \<longleftrightarrow> content (disk s) FS_BITMAP_LBA = bitmap s \<and>
     content (disk s) 81 = root_sector (root_raw (root s)) 0 \<and>
     content (disk s) 82 = root_sector (root_raw (root s)) 1 \<and>
     content (disk s) 83 = root_sector (root_raw (root s)) 2"

definition fs_ok :: "('d \<Rightarrow> u32 \<Rightarrow> sector) \<Rightarrow> ('d \<Rightarrow> bool) \<Rightarrow> 'd fs \<Rightarrow> bool" where
  "fs_ok content ready s \<longleftrightarrow> ready (disk s) \<and> root_shape (root s) \<and> magic (root s) = FS_MAGIC \<and>
     dir_ok (files (root s)) (bitmap s) \<and> on_disk content s"

text \<open>The abstract state: the contents of the file with a given name.\<close>

definition file_map :: "('d \<Rightarrow> u32 \<Rightarrow> sector) \<Rightarrow> 'd fs \<Rightarrow> u8 list \<Rightarrow> u8 list option" where
  "file_map content s nm = (if 0 \<in> set nm then None else case find_entry nm 0 (files (root s)) of None \<Rightarrow> None
     | Some i \<Rightarrow> (let e = files (root s) ! i in Some (sectors content (disk s) (start_lba e) (unat (size_sect e)))))"

abbreviation name_ok :: "u8 list \<Rightarrow> bool" where
  "name_ok nm \<equiv> nm \<noteq> [] \<and> 0 \<notin> set nm"

lemma used_iff: "dir_ok es bm \<Longrightarrow> e \<in> set es \<Longrightarrow> named nm e \<longleftrightarrow> used e \<and> cname (fname e) = nm"
  by (auto simp: dir_ok_def named_def used_def entry_ok_def valid_name_iff)

lemma find_entry_iff:
  assumes "dir_ok es bm" "0 \<notin> set nm"
  shows "find_entry nm 0 es = Some i \<longleftrightarrow> i < length es \<and> used (es ! i) \<and> cname (fname (es ! i)) = nm"
proof -
  have c: "cname nm = nm" using assms(2) by (rule cname_id)
  have unique: "i = j" if "i < length es" "j < length es" "named nm (es ! i)" "named nm (es ! j)" for i j
    using that assms(1) used_iff [OF assms(1), of "es ! i"] used_iff [OF assms(1), of "es ! j"]
    unfolding dir_ok_def by (metis nth_mem)
  have n: "named nm (es ! i) \<longleftrightarrow> used (es ! i) \<and> cname (fname (es ! i)) = nm" if "i < length es" for i
    using used_iff [OF assms(1)] that by simp
  show ?thesis
  proof
    assume "find_entry nm 0 es = Some i"
    from find_entry_Some [OF c this] n [of i] show "i < length es \<and> used (es ! i) \<and> cname (fname (es ! i)) = nm" by simp
  next
    assume i: "i < length es \<and> used (es ! i) \<and> cname (fname (es ! i)) = nm"
    then have "named nm (es ! i)" "es ! i \<in> set es" using n [of i] by simp_all
    then have "find_entry nm 0 es \<noteq> None" using find_entry_None [OF c, of 0 es] by blast
    then obtain j where j: "find_entry nm 0 es = Some j" by auto
    from find_entry_Some [OF c j] unique [of i j] i n [of i] show "find_entry nm 0 es = Some i" using j by auto
  qed
qed

lemma find_entry_none:
  assumes "dir_ok es bm" "0 \<notin> set nm"
  shows "find_entry nm 0 es = None \<longleftrightarrow> (\<forall>i<length es. used (es ! i) \<longrightarrow> cname (fname (es ! i)) \<noteq> nm)"
  using find_entry_iff [OF assms] by (metis option.exhaust option.distinct(1))

lemma file_map_iff:
  assumes "dir_ok (files (root s)) bm" "0 \<notin> set nm"
  shows "file_map content s nm = Some bs \<longleftrightarrow> (\<exists>i<length (files (root s)). let e = files (root s) ! i in
    used e \<and> cname (fname e) = nm \<and> bs = sectors content (disk s) (start_lba e) (unat (size_sect e)))"
proof (cases "find_entry nm 0 (files (root s))")
  case None
  then show ?thesis using find_entry_none [OF assms] assms(2) by (auto simp: file_map_def Let_def)
next
  case (Some i)
  have "j = i" if "j < length (files (root s))" "used (files (root s) ! j)" "cname (fname (files (root s) ! j)) = nm" for j
    using Some find_entry_iff [OF assms, of j] that by simp
  moreover note find_entry_iff [OF assms, of i] Some
  ultimately show ?thesis using assms(2) by (auto simp: file_map_def Let_def)
qed

lemma dir_replace:
  assumes ok: "dir_ok es bm" and i: "i < length es" and bm': "length bm' = 512"
    and e: "used e \<Longrightarrow> entry_ok e"
    and fresh: "\<And>j. j < length es \<Longrightarrow> j \<noteq> i \<Longrightarrow> used e \<Longrightarrow> used (es ! j) \<Longrightarrow>
      cname (fname (es ! j)) \<noteq> cname (fname e) \<and> (\<forall>l. \<not> (covers (es ! j) l \<and> covers e l))"
    and mark: "\<And>k. k < 511 \<Longrightarrow> bm' ! k \<noteq> 0 \<longleftrightarrow> used e \<and> covers e (86 + k) \<or>
      bm ! k \<noteq> 0 \<and> \<not> (used (es ! i) \<and> covers (es ! i) (86 + k))"
  shows "dir_ok (es[i := e]) bm'"
proof -
  have old: "cname (fname (es ! p)) \<noteq> cname (fname (es ! q)) \<and> (\<forall>l. \<not> (covers (es ! p) l \<and> covers (es ! q) l))"
    if "p < length es" "q < length es" "p \<noteq> q" "used (es ! p)" "used (es ! q)" for p q
    using ok that unfolding dir_ok_def by blast
  have sep: "cname (fname (es[i := e] ! p)) \<noteq> cname (fname (es[i := e] ! q)) \<and>
      (\<forall>l. \<not> (covers (es[i := e] ! p) l \<and> covers (es[i := e] ! q) l))"
    if "p < length es" "q < length es" "p \<noteq> q" "used (es[i := e] ! p)" "used (es[i := e] ! q)" for p q
  proof -
    consider "p = i" "q \<noteq> i" | "p \<noteq> i" "q = i" | "p \<noteq> i" "q \<noteq> i" using \<open>p \<noteq> q\<close> by blast
    then show ?thesis
    proof cases
      case 1
      then have "used e" "used (es ! q)" using that i by simp_all
      with fresh [of q] that 1 i show ?thesis by (simp add: eq_commute [of "cname (fname e)"]) blast
    next
      case 2
      then have "used e" "used (es ! p)" using that i by simp_all
      with fresh [of p] that 2 i show ?thesis by simp
    next
      case 3
      then show ?thesis using old [of p q] that by simp
    qed
  qed
  show ?thesis unfolding dir_ok_def
proof (intro conjI allI impI ballI)
  show "length bm' = 512" by (rule bm')
next
  fix x assume x: "x \<in> set (es[i := e])" "used x"
  then have "x = e \<or> x \<in> set es" using set_update_subset_insert [of es i e] by blast
  then show "entry_ok x" using e ok x(2) by (auto simp: dir_ok_def)
next
  fix p q assume "p < length (es[i := e])" "q < length (es[i := e])" "p \<noteq> q" "used (es[i := e] ! p)" "used (es[i := e] ! q)"
  then show "cname (fname (es[i := e] ! p)) \<noteq> cname (fname (es[i := e] ! q))" using sep [of p q] by simp
next
  fix p q l assume "p < length (es[i := e])" "q < length (es[i := e])" "p \<noteq> q" "used (es[i := e] ! p)" "used (es[i := e] ! q)"
  then show "\<not> (covers (es[i := e] ! p) l \<and> covers (es[i := e] ! q) l)" using sep [of p q] by simp
next
  fix k :: nat assume k: "k < 511"
  have b: "bm ! k \<noteq> 0 \<longleftrightarrow> (\<exists>j<length es. used (es ! j) \<and> covers (es ! j) (86 + k))" using ok k by (simp add: dir_ok_def)
  have other: "\<not> (used (es ! i) \<and> covers (es ! i) l)" if "j < length es" "j \<noteq> i" "used (es ! j)" "covers (es ! j) l" for j l
    using old [of j i] i that by blast
  show "bm' ! k \<noteq> 0 \<longleftrightarrow> (\<exists>j<length (es[i := e]). used (es[i := e] ! j) \<and> covers (es[i := e] ! j) (86 + k))"
    (is "_ \<longleftrightarrow> ?R")
  proof
    assume "bm' ! k \<noteq> 0"
    then consider "used e" "covers e (86 + k)" | j where "j < length es" "used (es ! j)" "covers (es ! j) (86 + k)" "j \<noteq> i"
      unfolding mark [OF k] b by blast
    then show ?R using i by cases (auto intro: exI [of _ i])
  next
    assume ?R
    then obtain j where j: "j < length es" "used (es[i := e] ! j)" "covers (es[i := e] ! j) (86 + k)" by auto
    show "bm' ! k \<noteq> 0"
    proof (cases "j = i")
      case True
      then show ?thesis using j i unfolding mark [OF k] by simp
    next
      case False
      then show ?thesis using j b other [of j "86 + k"] unfolding mark [OF k] by auto
    qed
  qed
qed
qed

lemma file_map_replace:
  assumes ok: "dir_ok (files (root s)) bm" "dir_ok (files (root s')) bm'"
    and i: "i < length (files (root s))" "files (root s') = (files (root s))[i := e]" and nm: "0 \<notin> set nm"
    and same: "\<And>j l. j < length (files (root s)) \<Longrightarrow> j \<noteq> i \<Longrightarrow> used (files (root s) ! j) \<Longrightarrow>
      covers (files (root s) ! j) (unat l) \<Longrightarrow> content (disk s') l = content (disk s) l"
  shows "file_map content s' nm =
    (if used e \<and> cname (fname e) = nm then Some (sectors content (disk s') (start_lba e) (unat (size_sect e)))
     else if used (files (root s) ! i) \<and> cname (fname (files (root s) ! i)) = nm then None
     else file_map content s nm)"
proof -
  let ?es = "files (root s)"
  have f: "find_entry nm 0 (?es[i := e]) = Some j \<longleftrightarrow>
      j < length ?es \<and> used (?es[i := e] ! j) \<and> cname (fname (?es[i := e] ! j)) = nm" for j
    using find_entry_iff [OF ok(2) nm, of j] i by simp
  note g = find_entry_iff [OF ok(1) nm] find_entry_none [OF ok(1) nm]
  consider (new) "used e \<and> cname (fname e) = nm"
    | (gone) "\<not> (used e \<and> cname (fname e) = nm)" "used (?es ! i) \<and> cname (fname (?es ! i)) = nm"
    | (other) "\<not> (used e \<and> cname (fname e) = nm)" "\<not> (used (?es ! i) \<and> cname (fname (?es ! i)) = nm)" by blast
  then show ?thesis
  proof cases
    case new
    then have "find_entry nm 0 (?es[i := e]) = Some i" using f i by simp
    then show ?thesis using new i nm by (simp add: file_map_def)
  next
    case gone
    have "find_entry nm 0 (?es[i := e]) = None"
    proof (rule ccontr)
      assume "find_entry nm 0 (?es[i := e]) \<noteq> None"
      then obtain j where j: "find_entry nm 0 (?es[i := e]) = Some j" by auto
      then have "j \<noteq> i" using f [of j] gone(1) i by auto
      then have "find_entry nm 0 ?es = Some j" using j f [of j] g(1) [of j] by simp
      moreover have "find_entry nm 0 ?es = Some i" using gone(2) g(1) i by simp
      ultimately show False using \<open>j \<noteq> i\<close> by simp
    qed
    then show ?thesis using gone i nm by (simp add: file_map_def)
  next
    case other
    show ?thesis
    proof (cases "find_entry nm 0 ?es")
      case None
      then have "find_entry nm 0 (?es[i := e]) = None" using g(2) f other(1) i
        by (metis not_None_eq nth_list_update)
      then show ?thesis using other None i nm by (auto simp: file_map_def)
    next
      case (Some j)
      then have j: "j < length ?es" "used (?es ! j)" "cname (fname (?es ! j)) = nm" "j \<noteq> i" using g(1) [of j] other(2) by auto
      then have "find_entry nm 0 (?es[i := e]) = Some j" using f by simp
      moreover have "sectors content (disk s') (start_lba (?es ! j)) (unat (size_sect (?es ! j))) =
          sectors content (disk s) (start_lba (?es ! j)) (unat (size_sect (?es ! j)))"
      proof (rule sectors_cong)
        have "entry_ok (?es ! j)" using ok(1) j(1,2) by (simp add: dir_ok_def)
        then show "unat (start_lba (?es ! j)) + unat (size_sect (?es ! j)) \<le> 2 ^ 28" by (simp add: entry_ok_def)
        fix l assume "in_run (start_lba (?es ! j)) (unat (size_sect (?es ! j))) l"
        then show "content (disk s') l = content (disk s) l" using same [of j l] j by (simp add: in_run_def covers_def)
      qed
      ultimately show ?thesis using other Some i j(4) nm by (auto simp: file_map_def Let_def)
    qed
  qed
qed

lemma mark_spec:
  assumes "length bm = 512" "86 \<le> unat start" "k < 511"
  shows "mark_loop (start - FS_DATA_LBA) n u 0 bm ! k =
    (if unat start \<le> 86 + k \<and> 86 + k < unat start + unat n then u else bm ! k)"
proof -
  have "unat (start - FS_DATA_LBA) = unat start - 86" using assms(2) by (simp add: unat_sub word_le_nat_alt)
  moreover have "unat start < 2 ^ 32" using unsigned_less [of start] by simp
  ultimately show ?thesis using mark_loop_nth [of bm "start - FS_DATA_LBA" 0 k n u] assms by auto
qed

lemma file_map_cong: "root s' = root s \<Longrightarrow> content (disk s') = content (disk s) \<Longrightarrow> file_map content s' = file_map content s"
  by (simp add: file_map_def fun_eq_iff sectors_def split: option.splits)

lemma say_simps [simp]:
  "root (say v msg s) = root s" "bitmap (say v msg s) = bitmap s" "disk (say v msg s) = disk s"
  "say False msg s = s" "file_map content (say v msg s) = file_map content s"
  "fs_ok content ready (say v msg s) = fs_ok content ready s"
  by (auto simp: say_def fs_ok_def on_disk_def intro: file_map_cong)

definition blank_entry :: file_entry where
  "blank_entry = \<lparr>fname = replicate 24 0, start_lba = 0, size_sect = 0\<rparr>"

lemma blank_entry_unused: "\<not> used blank_entry" "length (fname blank_entry) = 24"
  by (simp_all add: used_def blank_entry_def cname_def takeWhile_replicate)

lemma root_shape_update:
  assumes "root_shape r" "i < length (files r)" "length (fname e) = 24"
  shows "root_shape (r\<lparr>files := (files r)[i := e]\<rparr>)"
  using assms set_update_subset_insert [of "files r" i e] by (auto simp: root_shape_def)

context fs_disk
begin

lemma bitmap_mark_ok:
  assumes "ready (disk s)" "length (bitmap s) = 512" "86 \<le> unat start"
  shows "\<exists>d'. bitmap_mark io start n u s = s\<lparr>bitmap := mark_loop (start - FS_DATA_LBA) n u 0 (bitmap s), disk := d'\<rparr> \<and>
    ready d' \<and> content d' = (content (disk s))(FS_BITMAP_LBA := mark_loop (start - FS_DATA_LBA) n u 0 (bitmap s))"
  using bitmap_persist_ok [of "s\<lparr>bitmap := mark_loop (start - FS_DATA_LBA) n u 0 (bitmap s)\<rparr>"] assms
  by (auto simp: bitmap_mark_def word_less_nat_alt)

lemma fs_root_save_ok:
  assumes "ready (disk s)" "root_shape (root s)"
  shows "\<exists>d'. fs_root_save io s = (True, s\<lparr>disk := d'\<rparr>) \<and> ready d' \<and>
    content d' = (content (disk s))(81 := root_sector (root_raw (root s)) 0,
      82 := root_sector (root_raw (root s)) 1, 83 := root_sector (root_raw (root s)) 2)"
  using root_save_ok [OF assms(1) length_root_raw [OF assms(2)]] by (auto simp: fs_root_save_def)

lemma delete_found:
  assumes ok: "fs_ok content ready s" and nm: "name_ok nm" and f: "find_entry nm 0 (files (root s)) = Some i"
  shows "\<exists>s'. fs_delete_file_impl io (Some nm) v s = (True, s') \<and> fs_ok content ready s' \<and>
    files (root s') = (files (root s))[i := blank_entry] \<and> file_map content s' = (file_map content s)(nm := None)
    \<and> (v \<or> fcon s' = fcon s) \<and> (\<forall>l. 86 \<le> unat l \<longrightarrow> content (disk s') l = content (disk s) l)"
proof -
  let ?es = "files (root s)" and ?e = "files (root s) ! i"
  have d: "ready (disk s)" "root_shape (root s)" "dir_ok ?es (bitmap s)" "magic (root s) = FS_MAGIC"
    using ok by (simp_all add: fs_ok_def)
  have i: "i < length ?es" "used ?e" "cname (fname ?e) = nm" using find_entry_iff [OF d(3), of nm i] f nm by simp_all
  have e: "entry_ok ?e" and bm: "length (bitmap s) = 512" using d(3) i by (simp_all add: dir_ok_def)
  let ?bm = "mark_loop (start_lba ?e - FS_DATA_LBA) (size_sect ?e) 0 0 (bitmap s)"
  from bitmap_mark_ok [OF d(1) bm, of "start_lba ?e" "size_sect ?e" 0] e obtain d1 where d1:
    "bitmap_mark io (start_lba ?e) (size_sect ?e) 0 s = s\<lparr>bitmap := ?bm, disk := d1\<rparr>" "ready d1"
    "content d1 = (content (disk s))(FS_BITMAP_LBA := ?bm)" by (auto simp: entry_ok_def)
  define s2 where "s2 = s\<lparr>bitmap := ?bm, disk := d1, root := (root s)\<lparr>files := ?es[i := blank_entry]\<rparr>\<rparr>"
  have shape: "root_shape (root s2)"
    using root_shape_update [OF d(2) i(1) blank_entry_unused(2)] by (simp add: s2_def)
  from fs_root_save_ok [of s2] d1(2) shape obtain d3 where d3: "fs_root_save io s2 = (True, s2\<lparr>disk := d3\<rparr>)" "ready d3"
    "content d3 = (content d1)(81 := root_sector (root_raw (root s2)) 0,
      82 := root_sector (root_raw (root s2)) 1, 83 := root_sector (root_raw (root s2)) 2)" by (auto simp: s2_def)
  have dir: "dir_ok (?es[i := blank_entry]) ?bm"
  proof (rule dir_replace [OF d(3) i(1)])
    fix k :: nat assume "k < 511"
    then show "?bm ! k \<noteq> 0 \<longleftrightarrow> used blank_entry \<and> covers blank_entry (86 + k) \<or>
        bitmap s ! k \<noteq> 0 \<and> \<not> (used ?e \<and> covers ?e (86 + k))"
      using mark_spec [OF bm, of "start_lba ?e" k "size_sect ?e" 0] e i(2) blank_entry_unused(1)
      by (auto simp: covers_def entry_ok_def)
  qed (use bm blank_entry_unused in simp_all)
  let ?s' = "say v (line ''Fichier supprime.'') (s2\<lparr>disk := d3\<rparr>)"
  have "fs_delete_file_impl io (Some nm) v s = (True, ?s')"
    using f d1(1) d3(1) nm no_name_iff(1) [of nm] cname_id [of nm]
    by (simp add: fs_delete_file_impl_def Let_def s2_def blank_entry_def)
  moreover have ok': "fs_ok content ready (s2\<lparr>disk := d3\<rparr>)"
    using d3(2,3) d1(3) shape dir d(4) by (simp add: fs_ok_def on_disk_def) (simp add: s2_def)
  moreover have frame: "content d3 l = content (disk s) l" if "86 \<le> unat l" for l
    using that d3(3) d1(3) by auto
  moreover have "file_map content (s2\<lparr>disk := d3\<rparr>) = (file_map content s)(nm := None)"
  proof
  fix nm'
  show "file_map content (s2\<lparr>disk := d3\<rparr>) nm' = ((file_map content s)(nm := None)) nm'"
  proof (cases "0 \<in> set nm'")
    case True
    then show ?thesis using nm by (simp add: file_map_def)
  next
    case False
    have "content (disk (s2\<lparr>disk := d3\<rparr>)) l = content (disk s) l"
      if "j < length ?es" "used (?es ! j)" "covers (?es ! j) (unat l)" for j l
    proof -
      have "entry_ok (?es ! j)" using that d(3) by (simp add: dir_ok_def)
      then show ?thesis using that(3) frame [of l] by (simp add: covers_def entry_ok_def)
    qed
    then show ?thesis using file_map_replace [OF d(3) _ i(1) _ False, of "s2\<lparr>disk := d3\<rparr>" ?bm blank_entry content]
        dir i blank_entry_unused by (simp add: s2_def)
  qed
  qed
  moreover have "files (root s2) = ?es[i := blank_entry]" "fcon s2 = fcon s" by (simp_all add: s2_def)
  ultimately show ?thesis by (cases v) (auto intro!: exI [of _ ?s'])
qed

end

lemma sectors_for_word:
  fixes size_bytes :: u32
  assumes "unat size_bytes + 511 < 2 ^ 32"
  shows "unat ((size_bytes + 511) div 512) = sectors_for (unat size_bytes)"
  using assms unat_plus_no_wrap [of size_bytes 511] by (simp add: unat_div)

lemma sectors_for_pos: "0 < n \<Longrightarrow> 0 < sectors_for n"
  by (simp add: div_greater_zero_iff)

text \<open>What the run returned by \<open>bitmap_find_free_run\<close> guarantees.\<close>

lemma free_run_usable:
  assumes "start = bitmap_find_free_run n bm" "start \<noteq> 0" "n \<noteq> 0"
  shows "86 \<le> unat start" "unat start + unat n \<le> 597"
    "\<And>k. unat start \<le> 86 + k \<Longrightarrow> 86 + k < unat start + unat n \<Longrightarrow> bm ! k = 0"
proof -
  from find_free_run_spec [OF assms(3), of bm] assms(1,2) obtain k where k: "unat start = 86 + k" "free_at bm (unat n) k"
    by auto
  then show "86 \<le> unat start" "unat start + unat n \<le> 597" by (simp_all add: free_at_def)
  fix j assume "unat start \<le> 86 + j" "86 + j < unat start + unat n"
  then have "j = k + (j - k)" "j - k < unat n" using k(1) by simp_all
  then show "bm ! j = 0" using k(2) unfolding free_at_def by metis
qed

text \<open>\<open>fs_write_file_impl\<close> past its first checks.\<close>

lemma write_body:
  assumes "\<not> no_name nm" "size_bytes \<noteq> 0"
    "s1 = (if fs_file_exists nm s then snd (fs_delete_file_impl io nm False s) else s)"
    "n = (size_bytes + 511) div 512" "start = bitmap_find_free_run n (bitmap s1)"
  shows "fs_write_file_impl io nm (Some data) size_bytes v s =
    (if start = 0 then (False, say v (line ''Espace disque insuffisant.'') s1)
     else let (ok, s) = write_loop io start size_bytes data s1
       in if \<not> ok then (False, say v (line ''Erreur d'ecriture disque.'') s)
          else
            let s = bitmap_mark io start n 1 s;
                (ok, s) = fs_add_entry io (the nm) start n s
            in if \<not> ok then (False, bitmap_mark io start n 0 s)
               else (True, say v (line ''Fichier ecrit avec succes.'') s))"
proof -
  have guard: "(no_name nm \<or> Some data = None \<or> size_bytes = 0) = False" using assms(1,2) by simp
  show ?thesis unfolding fs_write_file_impl_def guard if_False
    by (simp only: Let_def assms(3-5) [symmetric] option.sel)
qed

context fs_disk
begin

text \<open>The part of \<open>fs_write_file_impl\<close> after the search: a run that is free in the bitmap is filled
  with the padded data; nothing that belongs to a file changes.\<close>

lemma store_data:
  assumes ok: "fs_ok content ready s" and size: "size_bytes \<noteq> 0" "unat size_bytes + 511 < 2 ^ 32" "unat size_bytes \<le> length data"
    and n: "n = (size_bytes + 511) div 512" and start: "start = bitmap_find_free_run n (bitmap s)" "start \<noteq> 0"
  shows "\<exists>d'. write_loop io start size_bytes data s = (True, s\<lparr>disk := d'\<rparr>) \<and> ready d' \<and>
    sectors content d' start (unat n) = padded (take (unat size_bytes) data) \<and>
    (\<forall>l. \<not> in_run start (unat n) l \<longrightarrow> content d' l = content (disk s) l)"
    "n \<noteq> 0" "86 \<le> unat start" "unat start + unat n \<le> 597"
    "\<And>k. unat start \<le> 86 + k \<Longrightarrow> 86 + k < unat start + unat n \<Longrightarrow> bitmap s ! k = 0"
proof -
  have un: "unat n = sectors_for (unat size_bytes)" using sectors_for_word [OF size(2)] n by simp
  moreover have "0 < unat size_bytes" using size(1) by (simp add: unat_gt_0)
  ultimately show n0: "n \<noteq> 0" using sectors_for_pos [of "unat size_bytes"] by auto
  note run = free_run_usable [OF start n0]
  show "86 \<le> unat start" "unat start + unat n \<le> 597"
    "\<And>k. unat start \<le> 86 + k \<Longrightarrow> 86 + k < unat start + unat n \<Longrightarrow> bitmap s ! k = 0" using run by blast+
  show "\<exists>d'. write_loop io start size_bytes data s = (True, s\<lparr>disk := d'\<rparr>) \<and> ready d' \<and>
    sectors content d' start (unat n) = padded (take (unat size_bytes) data) \<and>
    (\<forall>l. \<not> in_run start (unat n) l \<longrightarrow> content d' l = content (disk s) l)"
    using write_loop_ok [of s size_bytes data start] ok size(3) run(2) un by (simp add: fs_ok_def)
qed

lemma not_covered:
  assumes "fs_ok content ready s" "\<And>k. 86 + k < m \<Longrightarrow> lo \<le> 86 + k \<Longrightarrow> bitmap s ! k = 0" "86 \<le> lo" "m \<le> 597"
    "j < length (files (root s))" "used (files (root s) ! j)" "lo \<le> l" "l < m"
  shows "\<not> covers (files (root s) ! j) l"
proof
  assume c: "covers (files (root s) ! j) l"
  define k where "k = l - 86"
  have k: "l = 86 + k" "k < 511" using assms(3,4,7,8) by (simp_all add: k_def)
  then have "bitmap s ! k \<noteq> 0" using assms(1,5,6) c by (auto simp: fs_ok_def dir_ok_def)
  then show False using assms(2) [of k] assms(7,8) k by simp
qed

lemma store_full:
  assumes ok: "fs_ok content ready s" and d1: "ready d1" "\<And>l. \<not> in_run start (unat n) l \<Longrightarrow> content d1 l = content (disk s) l"
    and run: "86 \<le> unat start" "unat start + unat n \<le> 597"
      "\<And>k. unat start \<le> 86 + k \<Longrightarrow> 86 + k < unat start + unat n \<Longrightarrow> bitmap s ! k = 0"
    and full: "free_entry 0 (files (root s)) = None"
  shows "\<exists>s' s''. fs_add_entry io nm start n (bitmap_mark io start n 1 (s\<lparr>disk := d1\<rparr>)) = (False, s') \<and>
    bitmap_mark io start n 0 s' = s'' \<and> fs_ok content ready s'' \<and> file_map content s'' = file_map content s"
proof -
  have bm: "length (bitmap s) = 512" using ok by (simp add: fs_ok_def dir_ok_def)
  let ?b1 = "mark_loop (start - FS_DATA_LBA) n 1 0 (bitmap s)"
  from bitmap_mark_ok [of "s\<lparr>disk := d1\<rparr>" start n 1] d1(1) bm run(1) obtain d2 where d2:
    "bitmap_mark io start n 1 (s\<lparr>disk := d1\<rparr>) = s\<lparr>bitmap := ?b1, disk := d2\<rparr>" "ready d2"
    "content d2 = (content d1)(FS_BITMAP_LBA := ?b1)" by auto
  define s2 where "s2 = say True (line ''Erreur : Root Directory plein !'') (s\<lparr>bitmap := ?b1, disk := d2\<rparr>)"
  have add: "fs_add_entry io nm start n (bitmap_mark io start n 1 (s\<lparr>disk := d1\<rparr>)) = (False, s2)"
    using d2(1) full by (simp add: fs_add_entry_def s2_def)
  let ?b0 = "mark_loop (start - FS_DATA_LBA) n 0 0 ?b1"
  from bitmap_mark_ok [of s2 start n 0] d2(2) bm run(1) obtain d3 where d3:
    "bitmap_mark io start n 0 s2 = s2\<lparr>bitmap := ?b0, disk := d3\<rparr>" "ready d3"
    "content d3 = (content d2)(FS_BITMAP_LBA := ?b0)" by (auto simp: s2_def)
  have b0: "?b0 = bitmap s"
  proof (rule nth_equalityI)
    fix k assume "k < length ?b0"
    then have k: "k < 512" using bm by simp
    show "?b0 ! k = bitmap s ! k"
    proof (cases "k < 511")
      case True
      then show ?thesis using mark_spec [of ?b1 start k n 0] mark_spec [of "bitmap s" start k n 1] bm run by auto
    next
      case False
      then show ?thesis using k bm mark_loop_nth [of "bitmap s" "start - FS_DATA_LBA" 0 k n 1]
          mark_loop_nth [of ?b1 "start - FS_DATA_LBA" 0 k n 0] unsigned_less [of "start - FS_DATA_LBA"] by simp
    qed
  qed simp
  let ?s3 = "s2\<lparr>bitmap := ?b0, disk := d3\<rparr>"
  have c: "content d3 l = content (disk s) l" if "\<not> in_run start (unat n) l" "l \<noteq> 85" for l
    using d3(3) d2(3) d1(2) that by simp
  have low: "\<not> in_run start (unat n) l" if "unat l < 86" for l using that run(1) by (simp add: in_run_def)
  have ok': "fs_ok content ready ?s3"
    using ok d3 c low by (simp add: fs_ok_def on_disk_def s2_def b0)
  moreover have "file_map content ?s3 = file_map content s"
  proof
    fix nm'
    show "file_map content ?s3 nm' = file_map content s nm'"
    proof (cases "0 \<in> set nm' \<or> find_entry nm' 0 (files (root s)) = None")
      case False
      then obtain i where i: "find_entry nm' 0 (files (root s)) = Some i" "0 \<notin> set nm'" by auto
      let ?e = "files (root s) ! i"
      have u: "i < length (files (root s))" "used ?e" using find_entry_iff [of _ "bitmap s", OF _ i(2)] i(1) ok by (auto simp: fs_ok_def)
      then have e: "entry_ok ?e" using ok by (simp add: fs_ok_def dir_ok_def)
      have "sectors content d3 (start_lba ?e) (unat (size_sect ?e)) = sectors content (disk s) (start_lba ?e) (unat (size_sect ?e))"
      proof (rule sectors_cong)
        fix l assume "in_run (start_lba ?e) (unat (size_sect ?e)) l"
        then have l: "covers ?e (unat l)" by (simp add: in_run_def covers_def)
        then have "l \<noteq> 85" using e by (auto simp: covers_def entry_ok_def)
        moreover have "\<not> in_run start (unat n) l"
          using not_covered [OF ok _ run(1,2) u, of "unat l"] run(3) l by (auto simp: in_run_def)
        ultimately show "content d3 l = content (disk s) l" using c by blast
      qed (use e in \<open>simp add: entry_ok_def\<close>)
      then show ?thesis using i by (simp add: file_map_def s2_def)
    qed (auto simp: file_map_def s2_def)
  qed
  ultimately show ?thesis using add d3(1) by blast
qed

lemma store_new:
  assumes ok: "fs_ok content ready s" and d1: "ready d1" "\<And>l. \<not> in_run start (unat n) l \<Longrightarrow> content d1 l = content (disk s) l"
    and run: "86 \<le> unat start" "unat start + unat n \<le> 597" "n \<noteq> 0"
      "\<And>k. unat start \<le> 86 + k \<Longrightarrow> 86 + k < unat start + unat n \<Longrightarrow> bitmap s ! k = 0"
    and nm: "name_ok nm" "length nm \<le> 23" "find_entry nm 0 (files (root s)) = None"
    and i: "free_entry 0 (files (root s)) = Some i"
  shows "\<exists>s'. fs_add_entry io nm start n (bitmap_mark io start n 1 (s\<lparr>disk := d1\<rparr>)) = (True, s') \<and>
    fs_ok content ready s' \<and> file_map content s' = (file_map content s)(nm \<mapsto> sectors content d1 start (unat n)) \<and>
    fcon s' = fcon s"
proof -
  let ?es = "files (root s)"
  have d: "root_shape (root s)" "dir_ok ?es (bitmap s)" "length (bitmap s) = 512" "magic (root s) = FS_MAGIC"
    using ok by (simp_all add: fs_ok_def dir_ok_def)
  have il: "i < length ?es" "\<not> used (?es ! i)" using free_entry_Some [OF i] by (simp_all add: used_def)
  let ?b1 = "mark_loop (start - FS_DATA_LBA) n 1 0 (bitmap s)"
  from bitmap_mark_ok [of "s\<lparr>disk := d1\<rparr>" start n 1] d1(1) d(3) run(1) obtain d2 where d2:
    "bitmap_mark io start n 1 (s\<lparr>disk := d1\<rparr>) = s\<lparr>bitmap := ?b1, disk := d2\<rparr>" "ready d2"
    "content d2 = (content d1)(FS_BITMAP_LBA := ?b1)" by auto
  define e where "e = \<lparr>fname = (copy_name 23 nm (fname (?es ! i)))[23 := 0], start_lba = start, size_sect = n\<rparr>"
  have old: "length (fname (?es ! i)) = 24" using d(1) il(1) by (simp add: root_shape_def)
  have e: "cname (fname e) = nm" "length (fname e) = 24" "used e" "entry_ok e"
    using copied_name [OF old cname_id [of nm]] nm(1,2) run by (simp_all add: e_def used_def entry_ok_def valid_name_iff unat_gt_0)
  define s2 where "s2 = s\<lparr>bitmap := ?b1, disk := d2, root := (root s)\<lparr>files := ?es[i := e]\<rparr>\<rparr>"
  have shape: "root_shape (root s2)" using root_shape_update [OF d(1) il(1) e(2)] by (simp add: s2_def)
  from fs_root_save_ok [of s2] d2(2) shape obtain d3 where d3: "fs_root_save io s2 = (True, s2\<lparr>disk := d3\<rparr>)" "ready d3"
    "content d3 = (content d2)(81 := root_sector (root_raw (root s2)) 0,
      82 := root_sector (root_raw (root s2)) 1, 83 := root_sector (root_raw (root s2)) 2)" by (auto simp: s2_def)
  have free: "\<not> (covers (?es ! j) l \<and> covers e l)" if "j < length ?es" "used (?es ! j)" for j l
    using not_covered [OF ok _ run(1,2) that, of l] run(4) by (auto simp: covers_def e_def)
  have dir: "dir_ok (?es[i := e]) ?b1"
  proof (rule dir_replace [OF d(2) il(1)])
    fix j assume "j < length ?es" "used (?es ! j)"
    then show "cname (fname (?es ! j)) \<noteq> cname (fname e) \<and> (\<forall>l. \<not> (covers (?es ! j) l \<and> covers e l))"
      using free [of j] find_entry_none [OF d(2), of nm] nm(1,3) e(1) by auto
  next
    fix k :: nat assume "k < 511"
    then show "?b1 ! k \<noteq> 0 \<longleftrightarrow> used e \<and> covers e (86 + k) \<or>
        bitmap s ! k \<noteq> 0 \<and> \<not> (used (?es ! i) \<and> covers (?es ! i) (86 + k))"
      using mark_spec [OF d(3) run(1), of k n 1] e(3) il(2) by (auto simp: covers_def e_def)
  qed (use d(3) e(4) in simp_all)
  let ?s' = "s2\<lparr>disk := d3\<rparr>"
  have add: "fs_add_entry io nm start n (bitmap_mark io start n 1 (s\<lparr>disk := d1\<rparr>)) = (True, ?s')"
    using d2(1) d3(1) i by (simp add: fs_add_entry_def s2_def e_def)
  have "fs_ok content ready ?s'"
    using d3(2,3) d2(3) shape dir d(4) by (simp add: fs_ok_def on_disk_def) (simp add: s2_def)
  moreover have c: "content d3 l = content d1 l" if "86 \<le> unat l" for l using that d3(3) d2(3) by auto
  moreover have "file_map content ?s' nm' = ((file_map content s)(nm \<mapsto> sectors content d1 start (unat n))) nm'" for nm'
  proof (cases "0 \<in> set nm'")
    case True
    then show ?thesis using nm by (auto simp: file_map_def)
  next
    case False
    have same: "content (disk ?s') l = content (disk s) l"
      if "j < length ?es" "used (?es ! j)" "covers (?es ! j) (unat l)" for j l
    proof -
      have "entry_ok (?es ! j)" using that d(2) by (simp add: dir_ok_def)
      moreover have "\<not> in_run start (unat n) l" using free [OF that(1,2), of "unat l"] that(3)
        by (simp add: covers_def in_run_def e_def)
      ultimately show ?thesis using that(3) c [of l] d1(2) [of l] by (simp add: covers_def entry_ok_def)
    qed
    have "sectors content d3 start (unat n) = sectors content d1 start (unat n)"
      using run(1,2) c by (intro sectors_cong) (auto simp: in_run_def)
    then show ?thesis using file_map_replace [OF d(2) _ il(1) _ False, of ?s' ?b1 e content] same
        dir il e by (simp add: s2_def) (simp add: e_def)
  qed
  moreover have "fcon ?s' = fcon s" by (simp add: s2_def)
  ultimately show ?thesis using add by blast
qed

lemma file_map_None_iff:
  assumes "fs_ok content ready s" "0 \<notin> set nm"
  shows "file_map content s nm = None \<longleftrightarrow> find_entry nm 0 (files (root s)) = None"
  using assms(2) by (auto simp: file_map_def Let_def split: option.splits)

lemma exists_iff:
  assumes "fs_ok content ready s" "name_ok nm"
  shows "fs_file_exists (Some nm) s \<longleftrightarrow> file_map content s nm \<noteq> None"
  using assms file_map_None_iff [OF assms(1), of nm] no_name_iff(1) [of nm] cname_id [of nm]
  by (simp add: fs_file_exists_def)

lemma delete_result:
  assumes "fs_ok content ready s" "name_ok nm"
  shows "\<exists>s'. fs_delete_file_impl io (Some nm) v s = (file_map content s nm \<noteq> None, s') \<and> fs_ok content ready s' \<and>
    file_map content s' = (file_map content s)(nm := None) \<and> (v \<or> fcon s' = fcon s)"
proof (cases "find_entry nm 0 (files (root s))")
  case None
  have "no_name (Some nm) = False" using assms(2) no_name_iff(1) [of nm] cname_id [of nm] by simp
  moreover have "file_map content s nm = None" using file_map_None_iff [OF assms(1), of nm] assms(2) None by simp
  ultimately show ?thesis using None assms(1)
    by (cases v) (auto simp: fs_delete_file_impl_def not_found_def fun_upd_idem)
next
  case (Some i)
  then have "file_map content s nm \<noteq> None" using file_map_None_iff [OF assms(1), of nm] assms(2) by simp
  then show ?thesis using delete_found [OF assms Some, of v] by auto
qed

lemma write_result_fs:
  assumes ok: "fs_ok content ready s" and nm: "name_ok nm" "length nm \<le> 23"
    and size: "size_bytes \<noteq> 0" "unat size_bytes + 511 < 2 ^ 32" "unat size_bytes \<le> length data"
  shows "\<exists>r s' s1. fs_write_file_impl io (Some nm) (Some data) size_bytes v s = (r, s') \<and> fs_ok content ready s' \<and>
    file_map content s' = (file_map content s)(nm := if r then Some (padded (take (unat size_bytes) data)) else None) \<and>
    s1 = (if file_map content s nm = None then s else snd (fs_delete_file_impl io (Some nm) False s)) \<and>
    (r \<longleftrightarrow> (\<exists>k. free_at (bitmap s1) (sectors_for (unat size_bytes)) k) \<and> (\<exists>e \<in> set (files (root s1)). \<not> used e))"
proof -
  define s1 where "s1 = (if file_map content s nm = None then s else snd (fs_delete_file_impl io (Some nm) False s))"
  have s1: "fs_ok content ready s1" "file_map content s1 = (file_map content s)(nm := None)"
    using delete_result [OF ok nm(1), of False] ok by (auto simp: s1_def fun_upd_idem)
  have f: "find_entry nm 0 (files (root s1)) = None"
    using file_map_None_iff [OF s1(1), of nm] s1(2) nm(1) by simp
  have s1_eq: "(if fs_file_exists (Some nm) s then snd (fs_delete_file_impl io (Some nm) False s) else s) = s1"
    using exists_iff [OF ok nm(1)] by (simp add: s1_def)
  define n where "n = (size_bytes + 511) div 512"
  have un: "unat n = sectors_for (unat size_bytes)" using sectors_for_word [OF size(2)] by (simp add: n_def)
  have "0 < unat size_bytes" using size(1) by (simp add: unat_gt_0)
  then have n0: "n \<noteq> 0" using sectors_for_pos [of "unat size_bytes"] un by auto
  define start where "start = bitmap_find_free_run n (bitmap s1)"
  have nn: "\<not> no_name (Some nm)" using nm(1) no_name_iff(1) [of nm] cname_id [of nm] by simp
  note body = write_body [OF nn size(1) s1_eq [symmetric] n_def start_def, of data v]
  have run_iff: "start \<noteq> 0 \<longleftrightarrow> (\<exists>k. free_at (bitmap s1) (unat n) k)"
    using find_free_run_spec [OF n0, of "bitmap s1"] unfolding start_def by (metis unat_0 add_eq_0_iff_both_eq_0 zero_neq_numeral)
  have slot_iff: "free_entry 0 (files (root s1)) \<noteq> None \<longleftrightarrow> (\<exists>e \<in> set (files (root s1)). \<not> used e)"
    using free_entry_None [of 0 "files (root s1)"] by (auto simp: used_def)
  have "\<exists>r s'. fs_write_file_impl io (Some nm) (Some data) size_bytes v s = (r, s') \<and> fs_ok content ready s' \<and>
    file_map content s' = (file_map content s)(nm := if r then Some (padded (take (unat size_bytes) data)) else None) \<and>
    (r \<longleftrightarrow> start \<noteq> 0 \<and> free_entry 0 (files (root s1)) \<noteq> None)"
  proof (cases "start = 0")
    case True
    then show ?thesis using body s1 by (auto intro!: exI [of _ False])
  next
    case False
    from store_data [OF s1(1) size n_def start_def False] obtain d1 where d1:
      "write_loop io start size_bytes data s1 = (True, s1\<lparr>disk := d1\<rparr>)" "ready d1"
      "sectors content d1 start (unat n) = padded (take (unat size_bytes) data)"
      "\<And>l. \<not> in_run start (unat n) l \<Longrightarrow> content d1 l = content (disk s1) l" by blast
    note run = store_data(3-5) [OF s1(1) size n_def start_def False]
    show ?thesis
    proof (cases "free_entry 0 (files (root s1))")
      case None
      from store_full [OF s1(1) d1(2,4) run None, of nm] obtain s' s'' where
        "fs_add_entry io nm start n (bitmap_mark io start n 1 (s1\<lparr>disk := d1\<rparr>)) = (False, s')"
        "bitmap_mark io start n 0 s' = s''" "fs_ok content ready s''" "file_map content s'' = file_map content s1" by blast
      then show ?thesis using body d1(1) False None s1(2) by (auto simp: Let_def)
    next
      case (Some i)
      from store_new [OF s1(1) d1(2,4) run(1,2) n0 run(3) nm f Some] obtain s' where
        "fs_add_entry io nm start n (bitmap_mark io start n 1 (s1\<lparr>disk := d1\<rparr>)) = (True, s')"
        "fs_ok content ready s'" "file_map content s' = (file_map content s1)(nm \<mapsto> sectors content d1 start (unat n))" by blast
      then show ?thesis using body d1(1,3) False Some s1(2) by (auto simp: Let_def)
    qed
  qed
  then show ?thesis using run_iff slot_iff un s1_def by auto
qed

lemma load_result:
  assumes ok: "fs_ok content ready s" and nm: "name_ok nm" and f: "file_map content s nm = Some bs"
    and dest: "dest \<noteq> 0" and fits: "length bs \<le> unat max_size"
  shows "\<exists>d'. fs_load_file io (Some nm) dest max_size s = (Some (of_nat (length bs)), bs, s\<lparr>disk := d'\<rparr>) \<and>
    ready d' \<and> content d' = content (disk s)"
proof -
  let ?es = "files (root s)"
  have dir: "dir_ok ?es (bitmap s)" and rd: "ready (disk s)" using ok by (simp_all add: fs_ok_def)
  from f nm obtain i where i: "find_entry nm 0 ?es = Some i"
    "bs = sectors content (disk s) (start_lba (?es ! i)) (unat (size_sect (?es ! i)))"
    by (auto simp: file_map_def Let_def split: option.splits)
  let ?e = "?es ! i"
  have e: "entry_ok ?e" using find_entry_iff [OF dir, of nm i] i(1) nm dir by (simp add: dir_ok_def)
  have len: "length bs = 512 * unat (size_sect ?e)" using i(2) length_sectors [of content "disk s", OF content_length [OF rd]] by simp
  have small: "unat (size_sect ?e) < 600" "unat (start_lba ?e) < 600" using e by (simp_all add: entry_ok_def)
  have total: "size_sect ?e * 512 = of_nat (512 * unat (size_sect ?e))"
    by (simp add: mult.commute)
  have ut: "unat (size_sect ?e * 512) = 512 * unat (size_sect ?e)"
    unfolding total using small by (intro unat_u32) simp
  have meta: "\<not> bad_metadata ?e"
    using e small unat_sub [of "size_sect ?e" "0xFFFFFFFF"]
    by (auto simp: bad_metadata_def entry_ok_def word_less_nat_alt word_le_nat_alt)
  have fit: "\<not> size_sect ?e * 512 > max_size" using fits len ut by (simp add: word_less_nat_alt)
  from load_loop_ok [OF rd, of "start_lba ?e" "unat (size_sect ?e)" "[]"] small obtain d' where d':
    "load_loop io (start_lba ?e) (size_sect ?e * 512) [] s = (True, bs, s\<lparr>disk := d'\<rparr>)" "ready d'" "content d' = content (disk s)"
    unfolding total i(2) by auto
  have "no_name (Some nm) = False" using nm no_name_iff(1) [of nm] cname_id [of nm] by simp
  then have "fs_load_file io (Some nm) dest max_size s = (Some (size_sect ?e * 512), bs, s\<lparr>disk := d'\<rparr>)"
    using i(1) meta fit d'(1) dest by (simp add: fs_load_file_def Let_def)
  then show ?thesis using d' len by (simp only: total) auto
qed

lemma fs_root_load_ok:
  assumes "ready (disk s)" "root_shape (root s)"
  shows "\<exists>d'. fs_root_load io s = (True, s\<lparr>root := root_of_raw
      (content (disk s) 81 @ content (disk s) 82 @ take 32 (content (disk s) 83)), disk := d'\<rparr>) \<and>
    ready d' \<and> content d' = content (disk s)"
  using root_load_ok [OF assms(1) length_root_raw [OF assms(2)]] by (auto simp: fs_root_load_def)

text \<open>Mounting restores what the last session left on disk.\<close>

lemma init_restores:
  assumes ok: "fs_ok content ready s" and new: "ready (disk s0)" "content (disk s0) = content (disk s)" "root_shape (root s0)"
  shows "\<exists>d'. fs_init io s0 = s0\<lparr>root := root s, bitmap := bitmap s, disk := d'\<rparr> \<and> ready d' \<and> content d' = content (disk s)"
proof -
  let ?raw = "root_raw (root s)"
  have shape: "root_shape (root s)" and magic: "magic (root s) = FS_MAGIC" and disk: "on_disk content s" using ok by (simp_all add: fs_ok_def)
  have "content (disk s) 81 @ content (disk s) 82 @ take 32 (content (disk s) 83) =
      take 512 ?raw @ take 512 (drop 512 ?raw) @ drop 1024 ?raw"
    using disk length_root_raw [OF shape] by (simp add: on_disk_def root_sector_def root_chunk_def)
  also have "\<dots> = ?raw" by (metis append_take_drop_id drop_drop numeral_Bit0)
  finally have raw: "root_of_raw (content (disk s) 81 @ content (disk s) 82 @ take 32 (content (disk s) 83)) = root s"
    using root_round_trip [OF shape] by simp
  from fs_root_load_ok [OF new(1,3)] obtain d1 where d1: "fs_root_load io s0 = (True, s0\<lparr>root := root s, disk := d1\<rparr>)"
    "ready d1" "content d1 = content (disk s)" using raw new(2) by auto
  from fs_read [OF d1(2), of FS_BITMAP_LBA] d1(3) disk obtain d2 where
    "ata_read_sector io FS_BITMAP_LBA d1 = (Some (bitmap s), d2)" "ready d2" "content d2 = content (disk s)"
    by (auto simp: on_disk_def)
  then show ?thesis using d1 magic by (auto simp: fs_init_def)
qed

text \<open>Mounting a disk without the magic number creates an empty file system.\<close>

lemma init_formats:
  assumes rd: "ready (disk s0)" and shape: "root_shape (root s0)" and magic: "le32 (content (disk s0) 81) \<noteq> FS_MAGIC"
  shows "fs_ok content ready (fs_init io s0) \<and> file_map content (fs_init io s0) = Map.empty \<and> fcon (fs_init io s0) = fcon s0 \<and>
    bitmap (fs_init io s0) = replicate 512 0 \<and> (\<forall>e \<in> set (files (root (fs_init io s0))). \<not> used e)"
proof -
  have len: "length (content (disk s0) 81) = 512" by (rule content_length [OF rd])
  from fs_root_load_ok [OF rd shape] obtain d1 raw where d1:
    "fs_root_load io s0 = (True, s0\<lparr>root := root_of_raw (content (disk s0) 81 @ raw), disk := d1\<rparr>)" "ready d1" by auto
  have bad: "magic (root_of_raw (content (disk s0) 81 @ raw)) \<noteq> FS_MAGIC"
    using magic len by (simp add: root_of_raw_def le32_def nth_append)
  define r where "r = (root_of_raw (replicate ROOT_BYTES 0))\<lparr>magic := FS_MAGIC, next_free_lba := FS_DATA_LBA\<rparr>"
  define s2 where "s2 = s0\<lparr>disk := d1, root := r, bitmap := replicate 512 0\<rparr>"
  have zero: "fname e = replicate 24 0" if "e \<in> set (files r)" for e
    using that by (auto simp: r_def root_of_raw_def entry_of_raw_def)
  then have unused: "\<not> used e" if "e \<in> set (files r)" for e
    using that by (simp add: used_def cname_def takeWhile_replicate)
  have shape2: "root_shape r" using zero by (auto simp: root_shape_def) (simp_all add: r_def root_of_raw_def)
  from bitmap_persist_ok [of s2] d1(2) obtain d3 where d3: "bitmap_persist io s2 = s2\<lparr>disk := d3\<rparr>" "ready d3"
    "content d3 = (content d1)(FS_BITMAP_LBA := replicate 512 0)" by (auto simp: s2_def)
  from fs_root_save_ok [of "s2\<lparr>disk := d3\<rparr>"] d3(2) shape2 obtain d4 where d4:
    "fs_root_save io (s2\<lparr>disk := d3\<rparr>) = (True, s2\<lparr>disk := d4\<rparr>)" "ready d4"
    "content d4 = (content d3)(81 := root_sector (root_raw r) 0, 82 := root_sector (root_raw r) 1, 83 := root_sector (root_raw r) 2)"
    by (auto simp: s2_def)
  have "fs_init io s0 = s2\<lparr>disk := d4\<rparr>"
    using d1(1) bad d3(1) d4(1) by (simp add: fs_init_def Let_def s2_def r_def [symmetric])
  moreover have "dir_ok (files r) (replicate 512 0)" using unused by (auto simp: dir_ok_def)
  then have "fs_ok content ready (s2\<lparr>disk := d4\<rparr>)"
    using d4 d3(3) shape2 by (simp add: fs_ok_def on_disk_def s2_def) (simp add: r_def)
  moreover have "find_entry nm 0 (files r) = None" if "0 \<notin> set nm" for nm
    using find_entry_None [OF cname_id [OF that], of 0 "files r"] unused by (auto simp: named_def used_def valid_name_iff)
  then have "file_map content (s2\<lparr>disk := d4\<rparr>) = Map.empty" by (auto simp: file_map_def s2_def fun_eq_iff)
  moreover have "fcon (s2\<lparr>disk := d4\<rparr>) = fcon s0" "bitmap (s2\<lparr>disk := d4\<rparr>) = replicate 512 0"
    "\<forall>e \<in> set (files (root (s2\<lparr>disk := d4\<rparr>))). \<not> used e" using unused by (simp_all add: s2_def)
  ultimately show ?thesis by simp
qed

end

end
