(* ===== verification/Fs_Fault.thy ===== *)
theory Fs_Fault
  imports Fs_Store
begin

text \<open>
  The file system on a disk that may refuse any transfer: whatever fails, the operations keep the sizes
  of the directory and bitmap and write to no sector outside the file system's own area (LBA 81 to
  596), so the boot sector and the kernel image in front of it stay intact.
\<close>

definition geometry :: "'d fs \<Rightarrow> bool" where
  "geometry s \<longleftrightarrow> root_shape (root s) \<and> length (bitmap s) = 512"

definition fs_area :: "u32 \<Rightarrow> bool" where
  "fs_area l \<longleftrightarrow> 81 \<le> unat l \<and> unat l < 597"

locale fs_medium = block_device content ready lba28 "ata_read_sector io" "ata_write_sector io"
  for io :: "'d ports" and content :: "'d \<Rightarrow> u32 \<Rightarrow> sector" and ready
begin

definition confined :: "'d \<Rightarrow> 'd \<Rightarrow> bool" where
  "confined d d' \<longleftrightarrow> ready d' \<and> (\<forall>l. \<not> fs_area l \<longrightarrow> content d' l = content d l)"

lemma confined_refl: "ready d \<Longrightarrow> confined d d"
  by (simp add: confined_def)

lemma confined_trans: "confined d d' \<Longrightarrow> confined d' d'' \<Longrightarrow> confined d d''"
  by (simp add: confined_def)

lemma area_valid: "fs_area l \<Longrightarrow> lba28 l"
  by (simp add: fs_area_def word_less_nat_alt)

lemma confined_read:
  "ready d \<Longrightarrow> lba28 l \<Longrightarrow> ata_read_sector io l d = (r, d') \<Longrightarrow> confined d d'"
  using read_ready [of d l] read_frame [of d l] by (simp add: confined_def)

lemma read_length: "ready d \<Longrightarrow> lba28 l \<Longrightarrow> ata_read_sector io l d = (Some bs, d') \<Longrightarrow> length bs = 512"
  using read_content [of d l bs] content_length [of d l] by simp

lemma confined_write:
  "ready d \<Longrightarrow> fs_area l \<Longrightarrow> length bs = 512 \<Longrightarrow> ata_write_sector io l bs d = (r, d') \<Longrightarrow> confined d d'"
  using write_ready [of d l bs] write_frame [of d l bs] area_valid [of l] by (simp add: confined_def) metis

lemma ready_confined: "confined d d' \<Longrightarrow> ready d'"
  by (simp add: confined_def)

lemma root_sector_length: "length raw = ROOT_BYTES \<Longrightarrow> k < 3 \<Longrightarrow> length (root_sector raw k) = 512"
  by (auto simp: root_sector_def root_chunk_def)

lemma root_area: "k < 3 \<Longrightarrow> fs_area (FS_ROOT_LBA + of_nat k)"
  using unat_plus_no_wrap [of FS_ROOT_LBA k] by (simp add: fs_area_def)

lemma confined_root_save:
  "ready d \<Longrightarrow> length raw = ROOT_BYTES \<Longrightarrow> \<forall>k \<in> set ks. k < 3 \<Longrightarrow> root_save_loop io ks raw d = (r, d') \<Longrightarrow> confined d d'"
proof (induction ks arbitrary: d)
  case (Cons k ks)
  obtain ok d1 where w: "ata_write_sector io (FS_ROOT_LBA + of_nat k) (root_sector raw k) d = (ok, d1)" by fastforce
  then have c: "confined d d1" using Cons.prems root_sector_length root_area by (intro confined_write) auto
  show ?case
  proof (cases ok)
    case True
    then have "confined d1 d'" using Cons.prems w ready_confined [OF c] by (intro Cons.IH) auto
    then show ?thesis by (rule confined_trans [OF c])
  qed (use Cons.prems w c in auto)
qed (auto intro: confined_refl)

lemma confined_root_load:
  "ready d \<Longrightarrow> length raw = ROOT_BYTES \<Longrightarrow> \<forall>k \<in> set ks. k < 3 \<Longrightarrow> root_load_loop io ks raw d = (r, raw', d') \<Longrightarrow>
    confined d d' \<and> length raw' = ROOT_BYTES"
proof (induction ks arbitrary: d raw)
  case (Cons k ks)
  obtain b d1 where w: "ata_read_sector io (FS_ROOT_LBA + of_nat k) d = (b, d1)" by fastforce
  have v: "lba28 (FS_ROOT_LBA + of_nat k)" using Cons.prems root_area [of k] by (intro area_valid) simp
  have c: "confined d d1" using Cons.prems(1) v w by (rule confined_read)
  show ?case
  proof (cases b)
    case None
    then show ?thesis using Cons.prems w c by auto
  next
    case (Some buf)
    have len: "length buf = 512" using read_length [OF Cons.prems(1) v] w Some by simp
    let ?raw = "take (512 * k) raw @ take (root_chunk k) buf @ drop (512 * k + root_chunk k) raw"
    have "length ?raw = ROOT_BYTES" using Cons.prems(2,3) len by (auto simp: root_chunk_def)
    then have "confined d1 d' \<and> length raw' = ROOT_BYTES"
      using Cons.prems w Some ready_confined [OF c] by (intro Cons.IH [of d1 ?raw]) auto
    then show ?thesis using confined_trans [OF c] by blast
  qed
qed (auto intro: confined_refl)

text \<open>An operation is sound when, from a state of the right shape on a ready disk, it gives a state of the
  right shape with every change of the disk inside the area.\<close>

definition sound :: "'d fs \<Rightarrow> 'd fs \<Rightarrow> bool" where
  "sound s s' \<longleftrightarrow> geometry s' \<and> confined (disk s) (disk s')"

lemma sound_refl: "geometry s \<Longrightarrow> ready (disk s) \<Longrightarrow> sound s s"
  by (simp add: sound_def confined_refl)

lemma sound_trans: "sound s s' \<Longrightarrow> sound s' s'' \<Longrightarrow> sound s s''"
  unfolding sound_def using confined_trans by blast

lemma sound_parts: "sound s s' \<Longrightarrow> geometry s'" "sound s s' \<Longrightarrow> ready (disk s')"
  by (simp_all add: sound_def confined_def)

lemma sound_say [simp]: "sound s (say v msg s') = sound s s'"
  by (simp add: sound_def geometry_def)

lemma sound_root_save:
  assumes "geometry s" "ready (disk s)"
  shows "sound s (snd (fs_root_save io s))"
proof -
  obtain ok d where d: "root_save_loop io [0..<3] (root_raw (root s)) (disk s) = (ok, d)" by fastforce
  have "confined (disk s) d"
    using confined_root_save [OF assms(2) _ _ d] assms(1) length_root_raw [of "root s"] by (simp add: geometry_def)
  then show ?thesis using d assms(1) by (simp add: fs_root_save_def sound_def geometry_def)
qed

lemma root_of_raw_shape: "length raw = ROOT_BYTES \<Longrightarrow> root_shape (root_of_raw raw)"
  by (auto simp: root_shape_def root_of_raw_def entry_of_raw_def)

lemma sound_root_load:
  assumes "geometry s" "ready (disk s)"
  shows "sound s (snd (fs_root_load io s))"
proof -
  obtain ok raw d where d: "root_load_loop io [0..<3] (root_raw (root s)) (disk s) = (ok, raw, d)" by (metis prod_cases3)
  have "confined (disk s) d \<and> length raw = ROOT_BYTES"
    using confined_root_load [OF assms(2) _ _ d] assms(1) length_root_raw [of "root s"] by (simp add: geometry_def)
  then show ?thesis using d assms(1) root_of_raw_shape by (simp add: fs_root_load_def sound_def geometry_def)
qed

lemma sound_persist:
  assumes "geometry s" "ready (disk s)"
  shows "sound s (bitmap_persist io s)"
proof -
  obtain ok d where d: "ata_write_sector io FS_BITMAP_LBA (bitmap s) (disk s) = (ok, d)" by fastforce
  have "confined (disk s) d"
    using assms by (intro confined_write [OF assms(2) _ _ d]) (simp_all add: fs_area_def geometry_def)
  then show ?thesis using d assms(1) by (simp add: bitmap_persist_def sound_def geometry_def)
qed

lemma sound_mark:
  assumes "geometry s" "ready (disk s)"
  shows "sound s (bitmap_mark io start n u s)"
proof -
  let ?s = "s\<lparr>bitmap := mark_loop (start - FS_DATA_LBA) n u 0 (bitmap s)\<rparr>"
  have "sound ?s (bitmap_persist io ?s)" using assms by (intro sound_persist) (simp_all add: geometry_def)
  then have "sound s (bitmap_persist io ?s)" by (simp add: sound_def)
  then show ?thesis using sound_refl [OF assms] by (simp add: bitmap_mark_def)
qed

lemma sound_init:
  assumes "geometry s" "ready (disk s)"
  shows "sound s (fs_init io s)"
proof -
  obtain ok s1 where s1: "fs_root_load io s = (ok, s1)" by fastforce
  have l: "sound s s1" using sound_root_load [OF assms] s1 by simp
  show ?thesis
  proof (cases "\<not> ok \<or> magic (root s1) \<noteq> FS_MAGIC")
    case True
    let ?s2 = "s1\<lparr>root := (root_of_raw (replicate ROOT_BYTES 0))\<lparr>magic := FS_MAGIC, next_free_lba := FS_DATA_LBA\<rparr>,
      bitmap := replicate 512 0\<rparr>"
    have "geometry ?s2" using root_of_raw_shape [of "replicate ROOT_BYTES 0"] by (simp add: geometry_def root_shape_def)
    then have "sound ?s2 (bitmap_persist io ?s2)" using sound_parts(2) [OF l] by (intro sound_persist) simp_all
    from sound_trans [OF this sound_root_save [OF sound_parts [OF this]]]
    have "sound s1 (snd (fs_root_save io (bitmap_persist io ?s2)))" by (simp add: sound_def)
    then show ?thesis using sound_trans [OF l] True s1 by (simp add: fs_init_def Let_def)
  next
    case False
    obtain b d where r: "ata_read_sector io FS_BITMAP_LBA (disk s1) = (b, d)" by fastforce
    have "confined (disk s1) d" using sound_parts(2) [OF l] r by (intro confined_read) simp_all
    moreover have "length bs = 512" if "b = Some bs" for bs
      using read_length [OF sound_parts(2) [OF l], of FS_BITMAP_LBA bs d] r that by simp
    ultimately have "sound s1 (fs_init io s)" using False s1 r sound_parts(1) [OF l]
      by (auto simp: fs_init_def sound_def geometry_def split: option.splits)
    then show ?thesis by (rule sound_trans [OF l])
  qed
qed

lemma sound_set_entry:
  assumes "geometry s" "ready (disk s)" "i < length (files (root s))" "length (fname e) = 24"
  shows "sound s (snd (fs_root_save io (s\<lparr>root := (root s)\<lparr>files := (files (root s))[i := e]\<rparr>\<rparr>)))"
proof -
  let ?s = "s\<lparr>root := (root s)\<lparr>files := (files (root s))[i := e]\<rparr>\<rparr>"
  have "geometry ?s" using root_shape_update [OF _ assms(3,4)] assms(1) by (simp add: geometry_def)
  then have "sound ?s (snd (fs_root_save io ?s))" using assms(2) by (intro sound_root_save) simp_all
  then show ?thesis by (simp add: sound_def)
qed

lemma sound_add:
  assumes "geometry s" "ready (disk s)"
  shows "sound s (snd (fs_add_entry io nm start n s))"
proof (cases "free_entry 0 (files (root s))")
  case None
  then show ?thesis using sound_refl [OF assms] by (simp add: fs_add_entry_def)
next
  case (Some i)
  have i: "i < length (files (root s))" using free_entry_Some [OF Some] by simp
  let ?nm = "(copy_name 23 nm (fname (files (root s) ! i)))[23 := 0]"
  have "length ?nm = 24" using length_copy_name [of 23 "fname (files (root s) ! i)" nm] assms(1) i
    by (simp add: geometry_def root_shape_def)
  then show ?thesis using sound_set_entry [OF assms i, of "\<lparr>fname = ?nm, start_lba = start, size_sect = n\<rparr>"] Some
    by (auto simp: fs_add_entry_def Let_def split: prod.splits)
qed

lemma sound_delete:
  assumes "geometry s" "ready (disk s)" "0 \<notin> set (the nm)"
  shows "sound s (snd (fs_delete_file_impl io nm v s))"
proof (cases "no_name nm \<or> find_entry (the nm) 0 (files (root s)) = None")
  case True
  then show ?thesis using sound_refl [OF assms(1,2)] by (auto simp: fs_delete_file_impl_def not_found_def)
next
  case False
  then obtain i where i: "find_entry (the nm) 0 (files (root s)) = Some i" "\<not> no_name nm" by auto
  let ?e = "files (root s) ! i"
  let ?s1 = "bitmap_mark io (start_lba ?e) (size_sect ?e) 0 s"
  have il: "i < length (files (root s))" using find_entry_Some [OF cname_id [OF assms(3)] i(1)] by simp
  have m: "sound s ?s1" by (rule sound_mark [OF assms(1,2)])
  have "root ?s1 = root s" by (simp add: bitmap_mark_def bitmap_persist_def)
  then have "sound ?s1 (snd (fs_root_save io (?s1\<lparr>root := (root ?s1)\<lparr>files := (files (root ?s1))[i := blank_entry]\<rparr>\<rparr>)))"
    using sound_set_entry [OF sound_parts [OF m], of i blank_entry] il blank_entry_unused(2) by simp
  from sound_trans [OF m this] show ?thesis using i
    by (auto simp: fs_delete_file_impl_def Let_def blank_entry_def split: prod.splits)
qed

lemma confined_write_loop:
  assumes "ready (disk s)" "unat remaining \<le> length data" "86 \<le> unat lba" "unat lba + sectors_for (unat remaining) \<le> 597"
  shows "\<exists>r d'. write_loop io lba remaining data s = (r, s\<lparr>disk := d'\<rparr>) \<and> confined (disk s) d'"
  using assms
proof (induction "unat remaining" arbitrary: lba remaining data s rule: less_induct)
  case less
  show ?case
  proof (cases "remaining = 0")
    case True
    then show ?thesis using less.prems confined_refl by (subst write_loop.simps) (auto intro!: exI [of _ "disk s"])
  next
    case False
    define chunk where "chunk = (if remaining > 512 then 512 else remaining)"
    note facts = chunk_facts [OF False chunk_def]
    let ?buf = "take (unat chunk) data @ replicate (512 - unat chunk) 0"
    obtain ok d1 where w: "ata_write_sector io lba ?buf (disk s) = (ok, d1)" by fastforce
    obtain x where x: "sectors_for (unat remaining) = Suc x" "sectors_for (unat (remaining - chunk)) = x"
      unfolding facts(3) using facts(4) by blast
    have top: "unat lba + Suc x \<le> 597" using less.prems(4) unfolding x(1) .
    then have "fs_area lba" using less.prems(3) by (simp add: fs_area_def)
    moreover have "length ?buf = 512" using less.prems(2) facts(2) by simp
    ultimately have c: "confined (disk s) d1" using less.prems(1) w by (intro confined_write)
    have step: "write_loop io lba remaining data s = (if \<not> ok then (False, s\<lparr>disk := d1\<rparr>)
        else write_loop io (lba + 1) (remaining - chunk) (drop (unat chunk) data) (s\<lparr>disk := d1\<rparr>))"
      using False w by (subst write_loop.simps) (simp add: Let_def chunk_def [symmetric] word_gt_0)
    show ?thesis
    proof (cases ok)
      case True
      have lba1: "unat (lba + 1) = unat lba + 1" using top unat_plus_no_wrap [of lba 1] by simp
      have smaller: "unat (remaining - chunk) < unat remaining" using facts(1,3) by simp
      have len: "unat (remaining - chunk) \<le> length (drop (unat chunk) data)"
        using diff_le_mono [OF less.prems(2)] by (simp add: facts(2,3))
      have "unat (lba + 1) + sectors_for (unat (remaining - chunk)) \<le> 597"
        using top unfolding x(2) lba1 by simp
      from less.hyps [OF smaller _ len _ this, of "s\<lparr>disk := d1\<rparr>"]
      have "\<exists>r d'. write_loop io (lba + 1) (remaining - chunk) (drop (unat chunk) data) (s\<lparr>disk := d1\<rparr>)
          = (r, (s\<lparr>disk := d1\<rparr>)\<lparr>disk := d'\<rparr>) \<and> confined (disk (s\<lparr>disk := d1\<rparr>)) d'"
        using ready_confined [OF c] less.prems(3) lba1 by simp
      then show ?thesis using step True confined_trans [OF c] by auto
    next
      case no: False
      then show ?thesis using step c by auto
    qed
  qed
qed

lemma sound_write:
  assumes "geometry s" "ready (disk s)" "0 \<notin> set (the nm)"
    "unat size_bytes + 511 < 2 ^ 32" "\<And>bs. data = Some bs \<Longrightarrow> unat size_bytes \<le> length bs"
  shows "sound s (snd (fs_write_file_impl io nm data size_bytes v s))"
proof (cases "no_name nm \<or> data = None \<or> size_bytes = 0")
  case True
  then show ?thesis using sound_refl [OF assms(1,2)] by (simp add: fs_write_file_impl_def)
next
  case False
  then obtain bs where bs: "data = Some bs" "size_bytes \<noteq> 0" by auto
  define s1 where "s1 = (if fs_file_exists nm s then snd (fs_delete_file_impl io nm False s) else s)"
  have s1: "sound s s1" using sound_delete [OF assms(1-3)] sound_refl [OF assms(1,2)] by (simp add: s1_def)
  define n where "n = (size_bytes + 511) div 512"
  define start where "start = bitmap_find_free_run n (bitmap s1)"
  have nn: "\<not> no_name nm" using False by blast
  note body = write_body [OF nn bs(2) s1_def n_def start_def, of bs v]
  show ?thesis
  proof (cases "start = 0")
    case True
    then show ?thesis using body s1 bs(1) by simp
  next
    case start: False
    have un: "unat n = sectors_for (unat size_bytes)" using sectors_for_word [OF assms(4)] by (simp add: n_def)
    have "0 < unat size_bytes" using bs(2) by (simp add: unat_gt_0)
    then have "n \<noteq> 0" using sectors_for_pos [of "unat size_bytes"] un by auto
    note run = free_run_usable [OF start_def start this]
    have "\<exists>r d'. write_loop io start size_bytes bs s1 = (r, s1\<lparr>disk := d'\<rparr>) \<and> confined (disk s1) d'"
      using sound_parts(2) [OF s1] assms(5) [OF bs(1)] run(1,2) un by (intro confined_write_loop) simp_all
    then obtain r d' where w: "write_loop io start size_bytes bs s1 = (r, s1\<lparr>disk := d'\<rparr>)" "confined (disk s1) d'" by blast
    let ?s2 = "s1\<lparr>disk := d'\<rparr>"
    have s2: "sound s ?s2" using w(2) sound_parts(1) [OF s1] sound_trans [OF s1, of ?s2] by (simp add: sound_def geometry_def)
    let ?s3 = "bitmap_mark io start n 1 ?s2"
    have s3: "sound s ?s3" using sound_trans [OF s2 sound_mark [OF sound_parts [OF s2]]] .
    obtain r4 s4 where r4: "fs_add_entry io (the nm) start n ?s3 = (r4, s4)" by fastforce
    have s4: "sound s s4" using sound_trans [OF s3 sound_add [OF sound_parts [OF s3]]] r4 by (metis snd_conv)
    have "sound s (bitmap_mark io start n 0 s4)" using sound_trans [OF s4 sound_mark [OF sound_parts [OF s4]]] .
    then show ?thesis using body start w(1) r4 s2 s4 bs(1) by (simp add: Let_def)
  qed
qed

end

sublocale fs_disk \<subseteq> fs_medium io content ready
  by unfold_locales

interpretation ata_medium: fs_medium "reference_drive n" platter drive_ok for n
  by unfold_locales

interpretation ata_fs: fs_disk "reference_drive n" platter drive_healthy for n
  by unfold_locales

end
