(* ===== verification/Fs_Spec.thy ===== *)
theory Fs_Spec
  imports Fs_Fault
begin

text \<open>
  The properties of the file system, for every disk that satisfies the laws of the block device
  (\<open>fs_disk\<close>: no transfer is refused; \<open>fs_medium\<close>: any transfer may be). The witnesses run on the
  reference ATA drive, freshly formatted by \<open>fs_init\<close>.
\<close>

definition blank_fs :: "drive fs" where
  "blank_fs = \<lparr>root = root_of_raw (replicate ROOT_BYTES 0), bitmap = replicate 512 0, disk = blank_drive,
     fcon = boot_screen\<rparr>"

definition new_fs :: "nat \<Rightarrow> drive fs" where
  "new_fs n = fs_init (reference_drive n) blank_fs"

lemma blank_fs_geometry: "geometry blank_fs"
  using ata_medium.root_of_raw_shape [of "replicate ROOT_BYTES 0"] by (simp add: geometry_def blank_fs_def)

lemma new_fs_ok: "fs_ok platter drive_healthy (new_fs n)" "file_map platter (new_fs n) = Map.empty"
  "bitmap (new_fs n) = replicate 512 0" "\<exists>e \<in> set (files (root (new_fs n))). \<not> used e"
proof -
  have "drive_healthy (disk blank_fs)" "root_shape (root blank_fs)" "le32 (platter (disk blank_fs) 81) \<noteq> FS_MAGIC"
    using blank_drive_healthy blank_fs_geometry by (simp_all add: blank_fs_def geometry_def blank_drive_def le32_def)
  from ata_fs.init_formats [OF this, of n] show ok: "fs_ok platter drive_healthy (new_fs n)"
    "file_map platter (new_fs n) = Map.empty" "bitmap (new_fs n) = replicate 512 0" by (simp_all add: new_fs_def)
  from ok(1) have "files (root (new_fs n)) \<noteq> []" by (auto simp: fs_ok_def root_shape_def)
  then have "hd (files (root (new_fs n))) \<in> set (files (root (new_fs n)))" by simp
  moreover from ata_fs.init_formats [OF \<open>drive_healthy (disk blank_fs)\<close> \<open>root_shape (root blank_fs)\<close>
    \<open>le32 (platter (disk blank_fs) 81) \<noteq> FS_MAGIC\<close>, of n] have "\<forall>e \<in> set (files (root (new_fs n))). \<not> used e"
    by (simp add: new_fs_def)
  ultimately show "\<exists>e \<in> set (files (root (new_fs n))). \<not> used e" by blast
qed

lemma new_fs_room: "free_at (bitmap (new_fs n)) 1 0"
  by (simp add: new_fs_ok(3) free_at_def)

lemma new_fs_stores:
  assumes nm: "nm \<noteq> []" "0 \<notin> set nm" "length nm \<le> 23" and data: "0 < length data" "length data \<le> 512"
  shows "\<exists>s'. fs_write_file (reference_drive n) (Some nm) (Some data) (of_nat (length data)) (new_fs n) = (True, s') \<and>
    fs_ok platter drive_healthy s' \<and> file_map platter s' = [nm \<mapsto> padded data]"
proof -
  let ?n = "of_nat (length data) :: u32"
  have u: "unat ?n = length data" using data by (intro unat_u32) simp
  have sz: "?n \<noteq> 0" "unat ?n + 511 < 2 ^ 32" "unat ?n \<le> length data"
    using u data by (auto simp: word_unat_eq_iff)
  have one: "sectors_for (unat ?n) = 1" unfolding u using data by (intro div_nat_eqI) (linarith, simp)
  from ata_fs.write_result_fs [OF new_fs_ok(1) [of n] conjI [OF nm(1,2)] nm(3) sz(1-3), where n = n and v = True]
  obtain r s' s1 where w: "fs_write_file_impl (reference_drive n) (Some nm) (Some data) ?n True (new_fs n) = (r, s')"
    "fs_ok platter drive_healthy s'"
    "file_map platter s' = (file_map platter (new_fs n))(nm := if r then Some (padded (take (unat ?n) data)) else None)"
    "s1 = (if file_map platter (new_fs n) nm = None then new_fs n
           else snd (fs_delete_file_impl (reference_drive n) (Some nm) False (new_fs n)))"
    "r \<longleftrightarrow> (\<exists>k. free_at (bitmap s1) (sectors_for (unat ?n)) k) \<and> (\<exists>e \<in> set (files (root s1)). \<not> used e)" by blast
  have "s1 = new_fs n" using w(4) new_fs_ok(2) [of n] by simp
  then have r: "r" using w(5) new_fs_room [of n] new_fs_ok(4) [of n] unfolding one by blast
  then show ?thesis using w(1-3) new_fs_ok(2) [of n] u by (simp add: fs_write_file_def)
qed

lemma motd_name: "lit ''motd'' \<noteq> []" "0 \<notin> set (lit ''motd'')" "length (lit ''motd'') \<le> 23"
  "unat (7 :: u32) \<le> length (lit ''bonjour'')"
  by (simp_all add: lit_def)

lemma motd_written:
  "\<exists>s'. fs_write_file (reference_drive 3) (Some (lit ''motd'')) (Some (lit ''bonjour'')) 7 (new_fs 3) = (True, s')"
  using new_fs_stores [OF motd_name(1-3), of "lit ''bonjour''" 3] by (auto simp: lit_def)

lemma ata_disk: "fs_disk (reference_drive n) platter drive_healthy"
  by (rule ata_fs.fs_disk_axioms)

text \<open>C24. On a disk that refuses no transfer, \<open>fs_write_file\<close> with a name of at most 23
  bytes implements the update of a map from names to contents: the new contents are the data, zero
  padded to whole sectors; every other file keeps its contents; directory, bitmap and disk stay
  consistent. It succeeds exactly when, once an old file of that name is removed, a long enough run
  of free sectors and a free directory entry exist; when it fails, that old file is gone.\<close>

theorem fs_write_refines:
  assumes "fs_disk io content ready" "fs_ok content ready s" "nm \<noteq> []" "0 \<notin> set nm" "length nm \<le> 23"
    "size_bytes \<noteq> 0" "unat size_bytes + 511 < 2 ^ 32" "unat size_bytes \<le> length data"
  shows "\<exists>r s' s1. fs_write_file io (Some nm) (Some data) size_bytes s = (r, s') \<and> fs_ok content ready s' \<and>
    file_map content s' = (file_map content s)(nm := if r then Some (padded (take (unat size_bytes) data)) else None) \<and>
    s1 = (if file_map content s nm = None then s else snd (fs_delete_file_silent io (Some nm) s)) \<and>
    (r \<longleftrightarrow> (\<exists>k. free_at (bitmap s1) (sectors_for (unat size_bytes)) k) \<and> (\<exists>e \<in> set (files (root s1)). \<not> used e))"
  unfolding fs_write_file_def fs_delete_file_silent_def
  by (rule fs_disk.write_result_fs [OF assms(1,2) conjI [OF assms(3,4)] assms(5-8)])

theorem fs_write_refines_witness:
  "\<exists>s'. fs_write_file (reference_drive 3) (Some (lit ''motd'')) (Some (lit ''bonjour'')) 7 (new_fs 3) = (True, s') \<and>
    fs_ok platter drive_healthy s' \<and> file_map platter s' = [lit ''motd'' \<mapsto> lit ''bonjour'' @ replicate 505 0]"
proof -
  from fs_write_refines [OF ata_disk new_fs_ok(1) motd_name(1-3) _ _ motd_name(4), of 3 3] motd_written show ?thesis
    using new_fs_ok(2) [of 3] by (auto simp: padded_def lit_def split: if_splits)
qed

text \<open>C25. What \<open>fs_write_file\<close> has stored, \<open>fs_load_file\<close> returns: the data, zero padded to
  whole sectors, whenever the destination is not \<open>NULL\<close> and has room for the padded size.\<close>

theorem fs_write_load:
  assumes "fs_disk io content ready" "fs_ok content ready s" "nm \<noteq> []" "0 \<notin> set nm" "length nm \<le> 23"
    "size_bytes \<noteq> 0" "unat size_bytes + 511 < 2 ^ 32" "unat size_bytes \<le> length data"
    "fs_write_file io (Some nm) (Some data) size_bytes s = (True, s')"
    "dest \<noteq> 0" "512 * sectors_for (unat size_bytes) \<le> unat max_size"
  shows "\<exists>s''. fs_load_file io (Some nm) dest max_size s' =
    (Some (of_nat (512 * sectors_for (unat size_bytes))), padded (take (unat size_bytes) data), s'')"
proof -
  let ?bs = "padded (take (unat size_bytes) data)"
  have len: "length ?bs = 512 * sectors_for (unat size_bytes)" using assms(8) by (simp only: length_padded length_take min_absorb2)
  from fs_disk.write_result_fs [OF assms(1,2) _ assms(5-8), of True] assms(3,4,9)
  have ok: "fs_ok content ready s'" "file_map content s' nm = Some ?bs" by (auto simp: fs_write_file_def)
  from fs_disk.load_result [OF assms(1) ok(1) _ ok(2) assms(10), of max_size] assms(3,4,11) len
  show ?thesis by (metis (lifting))
qed

theorem fs_write_load_witness:
  "\<exists>s' s''. fs_write_file (reference_drive 3) (Some (lit ''motd'')) (Some (lit ''bonjour'')) 7 (new_fs 3) = (True, s') \<and>
    fs_load_file (reference_drive 3) (Some (lit ''motd'')) 0x5000 512 s' = (Some 512, lit ''bonjour'' @ replicate 505 0, s'')"
proof -
  from motd_written obtain s' where s':
    "fs_write_file (reference_drive 3) (Some (lit ''motd'')) (Some (lit ''bonjour'')) 7 (new_fs 3) = (True, s')" by blast
  from fs_write_load [OF ata_disk new_fs_ok(1) motd_name(1-3) _ _ motd_name(4) s', of "0x5000" 512] s' show ?thesis
    by (auto simp: padded_def lit_def)
qed

text \<open>Remark. On such a disk \<open>fs_delete_file\<close> removes exactly the named file, tells by its
  result whether there was one, and keeps directory, bitmap and disk consistent.\<close>

theorem fs_delete_refines:
  assumes "fs_disk io content ready" "fs_ok content ready s" "nm \<noteq> []" "0 \<notin> set nm"
  shows "\<exists>s'. fs_delete_file io (Some nm) s = (fs_file_exists (Some nm) s, s') \<and> fs_ok content ready s' \<and>
    file_map content s' = (file_map content s)(nm := None)"
  using fs_disk.delete_result [OF assms(1,2), of nm True] fs_disk.exists_iff [OF assms(1,2), of nm] assms(3,4)
  by (auto simp: fs_delete_file_def)

theorem fs_delete_refines_witness:
  "\<exists>s'. fs_delete_file (reference_drive 3) (Some (lit ''motd'')) (new_fs 3) =
    (fs_file_exists (Some (lit ''motd'')) (new_fs 3), s') \<and> file_map platter s' = Map.empty"
  using fs_delete_refines [OF ata_disk new_fs_ok(1) motd_name(1,2), of 3 3] new_fs_ok(2) [of 3] by auto

lemma fs_mounted:
  assumes "fs_disk io content ready" "fs_ok content ready s" "disk s0 = disk s" "geometry s0"
  shows "fs_ok content ready (fs_init io s0) \<and> file_map content (fs_init io s0) = file_map content s"
proof -
  have "ready (disk s0)" "root_shape (root s0)" using assms by (simp_all add: fs_ok_def geometry_def)
  from fs_disk.init_restores [OF assms(1,2) this(1) _ this(2)] assms(3) obtain d' where d':
    "fs_init io s0 = s0\<lparr>root := root s, bitmap := bitmap s, disk := d'\<rparr>" "ready d'" "content d' = content (disk s)" by auto
  then show ?thesis using assms(2) by (auto simp: fs_ok_def on_disk_def intro!: file_map_cong)
qed

text \<open>C26. Everything the file system holds is on disk: when the machine restarts with the
  disk as the last session left it, \<open>fs_init\<close> brings back the same files, whatever the statics
  contained.\<close>

theorem fs_mount_restores:
  assumes "fs_disk io content ready" "fs_ok content ready s" "disk s0 = disk s" "geometry s0"
  shows "fs_ok content ready (fs_init io s0) \<and> file_map content (fs_init io s0) = file_map content s"
  by (rule fs_mounted [OF assms])

theorem fs_mount_restores_witness:
  "file_map platter (fs_init (reference_drive 3) (blank_fs\<lparr>disk := disk (new_fs 3)\<rparr>)) = Map.empty"
  using fs_mount_restores [OF ata_disk new_fs_ok(1), of "blank_fs\<lparr>disk := disk (new_fs 3)\<rparr>" 3 3]
    blank_fs_geometry new_fs_ok(2) [of 3] by (simp add: geometry_def)

text \<open>C29. No loop of the file system leaves its array. With arbitrary bytes \<open>behind\<close> the array in memory,
  which a C loop could read or overwrite, marking any run of sectors in \<open>bitmap[512]\<close> (whatever start and count a directory entry holds),
  searching it for a free run, storing a name of any length in a 24-byte directory entry, and reading the directory from the disk into
  \<open>root\<close> do what they do without them and leave them as they are. \<open>fs_load_file\<close> stores at most \<open>max_size\<close> bytes at its destination, whatever the
  directory says and whichever transfers fail.\<close>

theorem fs_arrays_bounded:
  assumes "length bm = 512" "length old = 24" "length raw = ROOT_BYTES"
  shows "bitmap (bitmap_mark io start count v (s\<lparr>bitmap := bm @ behind\<rparr>)) = bitmap (bitmap_mark io start count v (s\<lparr>bitmap := bm\<rparr>)) @ behind \<and>
    bitmap_find_free_run count (bm @ behind) = bitmap_find_free_run count bm \<and>
    (copy_name 23 nm (old @ behind))[23 := 0] = (copy_name 23 nm old)[23 := 0] @ behind \<and>
    (root_load_loop io [0..<FS_ROOT_SECTORS] raw d = (ok, raw', d') \<longrightarrow>
      root_load_loop io [0..<FS_ROOT_SECTORS] (raw @ behind) d = (ok, raw' @ behind, d')) \<and>
    (fs_load_file io name dest max_size s = (r, out, s') \<longrightarrow> length out \<le> unat max_size)"
proof (intro conjI impI)
  show "bitmap (bitmap_mark io start count v (s\<lparr>bitmap := bm @ behind\<rparr>)) = bitmap (bitmap_mark io start count v (s\<lparr>bitmap := bm\<rparr>)) @ behind"
    using assms(1) by (simp add: bitmap_mark_def bitmap_persist_def mark_loop_behind)
  show "bitmap_find_free_run count (bm @ behind) = bitmap_find_free_run count bm"
    using assms(1) by (simp add: bitmap_find_free_run_def free_run_loop_behind)
  show "(copy_name 23 nm (old @ behind))[23 := 0] = (copy_name 23 nm old)[23 := 0] @ behind"
    using assms(2) by (simp add: copy_name_behind length_copy_name list_update_append)
  show "root_load_loop io [0..<FS_ROOT_SECTORS] (raw @ behind) d = (ok, raw' @ behind, d')"
    if "root_load_loop io [0..<FS_ROOT_SECTORS] raw d = (ok, raw', d')"
    by (rule root_load_behind [OF ata_read_sector_length _ that]) (use assms(3) in \<open>auto simp: root_chunk_def\<close>)
  show "length out \<le> unat max_size" if "fs_load_file io name dest max_size s = (r, out, s')"
    using that load_loop_length
    by (fastforce simp: fs_load_file_def Let_def word_less_nat_alt split: if_splits option.splits prod.splits)
qed

theorem fs_arrays_bounded_witness:
  "bitmap (bitmap_mark (reference_drive 3) (FS_DATA_LBA + 510) 7 1 (blank_fs\<lparr>bitmap := replicate 512 0 @ [7, 7]\<rparr>)) =
    bitmap (bitmap_mark (reference_drive 3) (FS_DATA_LBA + 510) 7 1 (blank_fs\<lparr>bitmap := replicate 512 0\<rparr>)) @ [7, 7]"
  using fs_arrays_bounded [of "replicate 512 0" "replicate 24 0" "replicate ROOT_BYTES 0"] by (metis length_replicate)

text \<open>C27. Whatever transfers the disk refuses, \<open>fs_init\<close>, \<open>fs_delete_file\<close> and \<open>fs_write_file\<close> (for
  sizes that do not wrap) change no sector outside LBA 81 to 596: the boot sector and the kernel image
  stay intact.\<close>

theorem fs_confined:
  assumes "fs_medium io content ready" "geometry s" "ready (disk s)" "0 \<notin> set (the nm)"
    "unat size_bytes + 511 < 2 ^ 32" "unat size_bytes \<le> length bs" "unat l < 81 \<or> 597 \<le> unat l"
  shows "content (disk (fs_init io s)) l = content (disk s) l \<and>
    content (disk (snd (fs_delete_file io nm s))) l = content (disk s) l \<and>
    content (disk (snd (fs_write_file io nm (Some bs) size_bytes s))) l = content (disk s) l"
proof -
  have out: "\<not> fs_area l" using assms(7) by (auto simp: fs_area_def)
  have "content (disk s') l = content (disk s) l" if "fs_medium.sound content ready s s'" for s'
    using that out by (simp add: fs_medium.sound_def [OF assms(1)] fs_medium.confined_def [OF assms(1)])
  then show ?thesis
    using fs_medium.sound_init [OF assms(1-3)] fs_medium.sound_delete [OF assms(1-4), of True]
      fs_medium.sound_write [OF assms(1-5), of "Some bs" True] assms(6)
    by (simp add: fs_delete_file_def fs_write_file_def)
qed

theorem fs_confined_witness:
  "platter (disk (fs_init (reference_drive 3) (blank_fs\<lparr>disk := blank_drive\<lparr>bad := (\<lambda>l. l = 82)\<rparr>\<rparr>))) 0 = replicate 512 0"
proof -
  let ?s = "blank_fs\<lparr>disk := blank_drive\<lparr>bad := (\<lambda>l. l = 82)\<rparr>\<rparr>"
  have "geometry ?s" "drive_ok (disk ?s)" using blank_fs_geometry by (simp_all add: geometry_def blank_drive_def drive_ok_def)
  from fs_confined [OF ata_medium.fs_medium_axioms this, of "Some []" 0 "[]" 0] show ?thesis by (simp add: blank_drive_def)
qed

subsection \<open>Limits\<close>

text \<open>Remark. A name of 24 bytes or more is stored cut to 23 bytes, so it is never found again:
  \<open>fs_file_exists\<close> is false for it in every state, and each \<open>fs_write_file\<close> under it takes a new entry.\<close>

theorem fs_long_name:
  assumes "0 \<notin> set nm" "24 \<le> length nm"
  shows "\<not> fs_file_exists (Some nm) s \<and>
    (length old = 24 \<longrightarrow> cname ((copy_name 23 nm old)[23 := 0]) = take 23 nm)"
proof -
  have "cname nm = nm" by (rule cname_id [OF assms(1)])
  then have "find_entry nm 0 (files (root s)) = None"
    using assms(2) by (auto simp: find_entry_None named_def valid_name_iff)
  then show ?thesis using copied_name(1) [of old nm] \<open>cname nm = nm\<close> by (simp add: fs_file_exists_def)
qed

theorem fs_long_name_witness:
  "\<not> fs_file_exists (Some (replicate 24 97)) (new_fs 3)"
  using fs_long_name [of "replicate 24 97" "new_fs 3" "[]"] by simp

text \<open>Remark. For sizes from 0xFFFFFE01 on, the 32-bit sum \<open>size_bytes + 511\<close> wraps: \<open>fs_write_file\<close>
  asks for a run of 0 sectors, gets the first free sector, and marks none.\<close>

theorem fs_size_wraps:
  assumes "2 ^ 32 \<le> unat size_bytes + 511" "bm ! 0 = 0"
  shows "(size_bytes + 511) div 512 = 0 \<and> bitmap_find_free_run ((size_bytes + 511) div 512) bm = FS_DATA_LBA \<and>
    mark_loop 0 ((size_bytes + 511) div 512) u 0 bm = bm"
proof -
  have "unat size_bytes < 2 ^ 32" using unsigned_less [of size_bytes] by simp
  then have "unat (size_bytes + 511) < 512" using assms(1) by (simp add: unat_word_ariths le_mod_geq)
  then have "(size_bytes + 511) div 512 = 0" by (simp add: word_arith_nat_div)
  then show ?thesis using assms(2)
    by (simp add: bitmap_find_free_run_def free_run_loop.simps [of bm 0 0] mark_loop.simps [of 0 0])
qed

theorem fs_size_wraps_witness:
  "bitmap_find_free_run ((0xFFFFFFFF + 511) div 512) (bitmap (new_fs 3)) = FS_DATA_LBA"
  using fs_size_wraps [of "0xFFFFFFFF" "bitmap (new_fs 3)" 1] new_fs_ok(3) [of 3] by simp

end
