(* ===== verification/Elf.thy ===== *)
theory Elf
  imports Screen
begin

text \<open>
  The ELF loader, \<open>kernel/elf.c\<close>. The image is read-only for the loader: a function from the offset to
  the byte at that offset (also beyond \<open>image_size\<close>, where the C code would read whatever follows the
  buffer). The loader writes to the byte memory.
\<close>

subsection \<open>ELF32 structures\<close>

record elf32_ehdr =
  e_ident :: "u8 list"
  e_type :: u16
  e_machine :: u16
  e_version :: u32
  e_entry :: u32
  e_phoff :: u32
  e_shoff :: u32
  e_flags :: u32
  e_ehsize :: u16
  e_phentsize :: u16
  e_phnum :: u16
  e_shentsize :: u16
  e_shnum :: u16
  e_shstrndx :: u16

record elf32_phdr =
  p_type :: u32
  p_offset :: u32
  p_vaddr :: u32
  p_paddr :: u32
  p_filesz :: u32
  p_memsz :: u32
  p_flags :: u32
  p_align :: u32

record elf32_shdr =
  sh_name :: u32
  sh_type :: u32
  sh_flags :: u32
  sh_addr :: u32
  sh_offset :: u32
  sh_size :: u32
  sh_link :: u32
  sh_info :: u32
  sh_addralign :: u32
  sh_entsize :: u32

record elf32_rel =
  r_offset :: u32
  r_info :: u32

definition rd16 :: "mem \<Rightarrow> u32 \<Rightarrow> u16" where
  "rd16 m a = ucast (m a) OR push_bit 8 (ucast (m (a + 1)))"

definition read_ehdr :: "mem \<Rightarrow> elf32_ehdr" where
  "read_ehdr img = \<lparr>e_ident = mem_read img 0 16, e_type = rd16 img 16, e_machine = rd16 img 18,
     e_version = rd32 img 20, e_entry = rd32 img 24, e_phoff = rd32 img 28, e_shoff = rd32 img 32,
     e_flags = rd32 img 36, e_ehsize = rd16 img 40, e_phentsize = rd16 img 42, e_phnum = rd16 img 44,
     e_shentsize = rd16 img 46, e_shnum = rd16 img 48, e_shstrndx = rd16 img 50\<rparr>"

definition read_phdr :: "mem \<Rightarrow> u32 \<Rightarrow> elf32_phdr" where
  "read_phdr img a = \<lparr>p_type = rd32 img a, p_offset = rd32 img (a + 4), p_vaddr = rd32 img (a + 8),
     p_paddr = rd32 img (a + 12), p_filesz = rd32 img (a + 16), p_memsz = rd32 img (a + 20),
     p_flags = rd32 img (a + 24), p_align = rd32 img (a + 28)\<rparr>"

definition read_shdr :: "mem \<Rightarrow> u32 \<Rightarrow> elf32_shdr" where
  "read_shdr img a = \<lparr>sh_name = rd32 img a, sh_type = rd32 img (a + 4), sh_flags = rd32 img (a + 8),
     sh_addr = rd32 img (a + 12), sh_offset = rd32 img (a + 16), sh_size = rd32 img (a + 20),
     sh_link = rd32 img (a + 24), sh_info = rd32 img (a + 28), sh_addralign = rd32 img (a + 32),
     sh_entsize = rd32 img (a + 36)\<rparr>"

definition read_rel :: "mem \<Rightarrow> u32 \<Rightarrow> elf32_rel" where
  "read_rel img a = \<lparr>r_offset = rd32 img a, r_info = rd32 img (a + 4)\<rparr>"

abbreviation PT_LOAD :: u32 where "PT_LOAD \<equiv> 1"
abbreviation SHT_REL :: u32 where "SHT_REL \<equiv> 9"
abbreviation R_386_32 :: u32 where "R_386_32 \<equiv> 1"

subsection \<open>Loading\<close>

definition elf_in_window :: "u32 \<Rightarrow> u32 \<Rightarrow> u32 \<Rightarrow> bool" where
  "elf_in_window off len window_size =
     (if len > window_size then False else if off > window_size - len then False else True)"

text \<open>The copy and the zeroing loop of one segment.\<close>

definition load_segment :: "mem \<Rightarrow> u32 \<Rightarrow> elf32_phdr \<Rightarrow> mem \<Rightarrow> mem" where
  "load_segment img dest ph m =
     (let m = mem_write m dest (mem_read img (p_offset ph) (unat (p_filesz ph)))
      in mem_write m (dest + p_filesz ph) (replicate (unat (p_memsz ph) - unat (p_filesz ph)) 0))"

text \<open>The loop over the program headers: the memory, and the message of the check that failed.\<close>

fun ph_loop :: "mem \<Rightarrow> u32 \<Rightarrow> u32 \<Rightarrow> u32 \<Rightarrow> u32 \<Rightarrow> elf32_phdr list \<Rightarrow> mem \<Rightarrow> mem \<times> u8 list option" where
  "ph_loop img image_size load_base window_size link_base [] m = (m, None)"
| "ph_loop img image_size load_base window_size link_base (ph # phs) m =
     (if p_type ph \<noteq> PT_LOAD then ph_loop img image_size load_base window_size link_base phs m
      else
        let dest_off = p_vaddr ph - link_base in
        if \<not> elf_in_window dest_off (p_memsz ph) window_size
        then (m, Some (lit ''ELF invalide : segment PT_LOAD hors de la fenetre memoire.'' @ [10]))
        else if p_offset ph + p_filesz ph > image_size
        then (m, Some (lit ''ELF invalide : segment PT_LOAD hors du fichier.'' @ [10]))
        else ph_loop img image_size load_base window_size link_base phs
               (load_segment img (load_base + dest_off) ph m))"

definition program_headers :: "mem \<Rightarrow> elf32_phdr list" where
  "program_headers img =
     (let eh = read_ehdr img
      in map (\<lambda>i. read_phdr img (e_phoff eh + of_nat i * 32)) [0..<unat (e_phnum eh)])"

definition section_headers :: "mem \<Rightarrow> elf32_shdr list" where
  "section_headers img =
     (let eh = read_ehdr img
      in map (\<lambda>i. read_shdr img (e_shoff eh + of_nat i * 40)) [0..<unat (e_shnum eh)])"

text \<open>The relocation entries of a section, as the loop over \<open>rel_count\<close> reads them.\<close>

definition section_rels :: "mem \<Rightarrow> u32 \<Rightarrow> elf32_shdr \<Rightarrow> elf32_rel list" where
  "section_rels img image_size sh =
     (if sh_type sh \<noteq> SHT_REL then []
      else if sh_offset sh + sh_size sh > image_size then []
      else
        let rel_count = (if sh_entsize sh \<noteq> 0 then sh_size sh div sh_entsize sh else 0)
        in map (\<lambda>r. read_rel img (sh_offset sh + of_nat r * 8)) [0..<unat rel_count])"

definition apply_rel :: "u32 \<Rightarrow> u32 \<Rightarrow> u32 \<Rightarrow> elf32_rel \<Rightarrow> mem \<Rightarrow> mem" where
  "apply_rel load_base window_size link_base rel m =
     (if r_info rel AND 0xFF \<noteq> R_386_32 then m
      else
        let dest_off = r_offset rel - link_base in
        if \<not> elf_in_window dest_off 4 window_size then m
        else wr32 m (load_base + dest_off) (rd32 m (load_base + dest_off) + (load_base - link_base)))"

definition relocations :: "mem \<Rightarrow> u32 \<Rightarrow> elf32_rel list" where
  "relocations img image_size =
     (let eh = read_ehdr img in
      if e_shoff eh \<noteq> 0 \<and> e_shoff eh + ucast (e_shnum eh) * 40 \<le> image_size
      then concat (map (section_rels img image_size) (section_headers img))
      else [])"

definition bad_header :: "mem \<Rightarrow> bool" where
  "bad_header img \<longleftrightarrow>
     (let eh = read_ehdr img
      in e_ident eh ! 0 \<noteq> 0x7F \<or> e_ident eh ! 1 \<noteq> of_char (CHR ''E'') \<or> e_ident eh ! 2 \<noteq> of_char (CHR ''L'')
         \<or> e_ident eh ! 3 \<noteq> of_char (CHR ''F'') \<or> e_ident eh ! 4 \<noteq> 1 \<or> e_machine eh \<noteq> 3)"

definition elf_load ::
    "mem \<Rightarrow> u32 \<Rightarrow> u32 \<Rightarrow> u32 \<Rightarrow> u32 \<Rightarrow> mem \<Rightarrow> screen \<Rightarrow> u32 option \<times> mem \<times> screen" where
  "elf_load img image_size load_base window_size link_base m scr =
     (if image_size < 52 then (None, m, kprint (lit ''ELF invalide : fichier trop court.'' @ [10]) scr)
      else if bad_header img
      then (None, m, kprint (lit ''ELF invalide : signature/format inattendu.'' @ [10]) scr)
      else
        let eh = read_ehdr img in
        if e_phoff eh + ucast (e_phnum eh) * 32 > image_size
        then (None, m, kprint (lit ''ELF invalide : table de programme hors fichier.'' @ [10]) scr)
        else
          case ph_loop img image_size load_base window_size link_base (program_headers img) m of
            (m, Some msg) \<Rightarrow> (None, m, kprint msg scr)
          | (m, None) \<Rightarrow>
              (Some (load_base + (e_entry eh - link_base)),
               fold (apply_rel load_base window_size link_base) (relocations img image_size) m, scr))"

subsection \<open>Writes stay in the window\<close>

lemma window_region:
  assumes "elf_in_window off len w" "x \<in> region (base + off) n" "n \<le> unat len"
  shows "x \<in> region base (unat w)"
proof -
  have w: "unat len \<le> unat w" "unat off \<le> unat w - unat len"
    using assms(1) by (auto simp: elf_in_window_def word_less_nat_alt unat_sub word_le_nat_alt split: if_splits)
  have "unat w < 2 ^ 32" using unsigned_less [of w] by simp
  moreover have "unat (x - (base + off)) < n" using assms(2) by (simp add: in_region)
  moreover have "x - base = (x - (base + off)) + off" by simp
  ultimately have "unat (x - (base + off)) + unat off < 2 ^ 32" "x - base = (x - (base + off)) + off"
    using w assms(3) by simp_all
  then have "unat (x - base) = unat (x - (base + off)) + unat off" by (simp only: unat_word_ariths(1)) simp
  then show ?thesis using \<open>unat (x - (base + off)) < n\<close> w assms(3) by (simp add: in_region)
qed

lemma load_segment_outside:
  assumes "elf_in_window off (p_memsz ph) w" "p_filesz ph \<le> p_memsz ph" "x \<notin> region base (unat w)"
  shows "load_segment img (base + off) ph m x = m x"
proof -
  have le: "unat (p_filesz ph) \<le> unat (p_memsz ph)" "unat (p_memsz ph) < 2 ^ 32"
    using assms(2) unsigned_less [of "p_memsz ph"] by (simp_all add: word_le_nat_alt)
  have "x \<notin> region (base + off) n" if "n \<le> unat (p_memsz ph)" for n
    using window_region [OF assms(1) _ that] assms(3) by blast
  moreover have "x \<notin> region (base + off + p_filesz ph) (unat (p_memsz ph) - unat (p_filesz ph))"
    using region_shift [of "unat (p_filesz ph)" "unat (p_memsz ph) - unat (p_filesz ph)" x "base + off"] le calculation
    by simp
  ultimately show ?thesis using le by (simp add: load_segment_def mem_write_outside)
qed

lemma ph_loop_outside:
  "\<forall>ph \<in> set phs. p_type ph = PT_LOAD \<longrightarrow> p_filesz ph \<le> p_memsz ph \<Longrightarrow> x \<notin> region base (unat w) \<Longrightarrow>
    fst (ph_loop img sz base w link phs m) x = m x"
proof (induction phs arbitrary: m)
  case (Cons ph phs)
  then show ?case by (auto simp: Let_def load_segment_outside)
qed simp

lemma apply_rel_outside: "x \<notin> region base (unat w) \<Longrightarrow> apply_rel base w link rel m x = m x"
  using window_region [of "r_offset rel - link" 4 w x base 4]
  by (auto simp: apply_rel_def Let_def intro!: wr32_outside)

lemma fold_rel_outside: "x \<notin> region base (unat w) \<Longrightarrow> fold (apply_rel base w link) rels m x = m x"
  by (induction rels arbitrary: m) (simp_all add: apply_rel_outside)

lemma elf_load_outside:
  assumes "\<forall>ph \<in> set (program_headers img). p_type ph = PT_LOAD \<longrightarrow> p_filesz ph \<le> p_memsz ph"
    "x \<notin> region base (unat w)" "elf_load img sz base w link m scr = (r, m', scr')"
  shows "m' x = m x"
proof -
  obtain m1 e where l: "ph_loop img sz base w link (program_headers img) m = (m1, e)" by fastforce
  then have "m1 x = m x" using ph_loop_outside [OF assms(1,2), of img sz link m] by simp
  then show ?thesis using assms(3) l fold_rel_outside [OF assms(2)]
    by (auto simp: elf_load_def Let_def split: if_splits option.splits)
qed

subsection \<open>Relocation\<close>

lemma bytes32_rd32: "bytes32 (rd32 m a) = [m a, m (a + 1), m (a + 2), m (a + 3)]"
proof -
  have "ucast (rd32 m a) = m a" "ucast (drop_bit 8 (rd32 m a)) = m (a + 1)"
    "ucast (drop_bit 16 (rd32 m a)) = m (a + 2)" "ucast (drop_bit 24 (rd32 m a)) = m (a + 3)"
    by (rule bit_word_eqI; auto simp: rd32_def bit_simps dest: bit_imp_le_length)+
  then show ?thesis by (simp add: bytes32_def)
qed

lemma wr32_rd32: "wr32 m a (rd32 m a) = m"
  by (simp add: wr32_def bytes32_rd32 add.assoc)

lemma apply_rel_at_link: "apply_rel base w base rel m = m"
  by (simp add: apply_rel_def Let_def wr32_rd32)

lemma fold_rel_at_link: "fold (apply_rel base w base) rels m = m"
  by (induction rels) (simp_all add: apply_rel_at_link)

text \<open>Two memories with the same contents at two bases.\<close>

definition same_window :: "u32 \<Rightarrow> nat \<Rightarrow> mem \<Rightarrow> u32 \<Rightarrow> mem \<Rightarrow> bool" where
  "same_window base n m base' m' \<longleftrightarrow> (\<forall>off. unat off < n \<longrightarrow> m (base + off) = m' (base' + off))"

lemma mem_write_window:
  assumes "same_window base n m base' m'" "length bs \<le> 2 ^ 32"
  shows "same_window base n (mem_write m (base + a) bs) base' (mem_write m' (base' + a) bs)"
proof -
  have "unat (base + off - (base + a)) = unat (off - a)" "unat (base' + off - (base' + a)) = unat (off - a)" for off by simp_all
  then show ?thesis using assms by (simp add: same_window_def mem_write_apply)
qed

lemma load_segment_window:
  assumes "same_window base n m base' m'"
  shows "same_window base n (load_segment img (base + a) ph m) base' (load_segment img (base' + a) ph m')"
proof -
  have "unat (p_filesz ph) < 2 ^ 32" "unat (p_memsz ph) < 2 ^ 32"
    using unsigned_less [of "p_filesz ph"] unsigned_less [of "p_memsz ph"] by simp_all
  then show ?thesis unfolding load_segment_def Let_def add.assoc
    by (intro mem_write_window) (use assms in simp_all)
qed

lemma ph_loop_window:
  "same_window base n m base' m' \<Longrightarrow>
    snd (ph_loop img sz base w link phs m) = snd (ph_loop img sz base' w link phs m') \<and>
    same_window base n (fst (ph_loop img sz base w link phs m)) base' (fst (ph_loop img sz base' w link phs m'))"
proof (induction phs arbitrary: m m')
  case (Cons ph phs)
  then show ?case using load_segment_window [OF Cons.prems] by (auto simp: Let_def)
qed simp

text \<open>The offsets of the words the loader relocates.\<close>

definition reloc_offsets :: "mem \<Rightarrow> u32 \<Rightarrow> u32 \<Rightarrow> u32 \<Rightarrow> u32 list" where
  "reloc_offsets img sz w link =
     map (\<lambda>rel. r_offset rel - link) (filter (\<lambda>rel. r_info rel AND 0xFF = R_386_32 \<and>
       elf_in_window (r_offset rel - link) 4 w) (relocations img sz))"

lemma fold_rel_offsets:
  "fold (apply_rel base w link) rels m =
    fold (\<lambda>off m. wr32 m (base + off) (rd32 m (base + off) + (base - link)))
      (map (\<lambda>rel. r_offset rel - link) (filter (\<lambda>rel. r_info rel AND 0xFF = R_386_32 \<and>
        elf_in_window (r_offset rel - link) 4 w) rels)) m"
  by (induction rels arbitrary: m) (auto simp: apply_rel_def Let_def)

abbreviation apart :: "u32 list \<Rightarrow> bool" where
  "apart offs \<equiv> sorted_wrt (\<lambda>a b. region a 4 \<inter> region b 4 = {}) offs"

lemma region_add: "base + x \<in> region (base + a) n \<longleftrightarrow> x \<in> region a n"
  by (simp add: in_region)

lemma rd32_wr32_apart:
  assumes "region a 4 \<inter> region b 4 = {}"
  shows "rd32 (wr32 m (base + a) v) (base + b) = rd32 m (base + b)"
proof (rule rd32_cong)
  fix x assume "x \<in> region (base + b) 4"
  then have "x - base \<in> region b 4" using region_add [of base "x - base" b 4] by simp
  then have "x - base \<notin> region a 4" using assms by blast
  then have "x \<notin> region (base + a) 4" using region_add [of base "x - base" a 4] by simp
  then show "wr32 m (base + a) v x = m x" by (rule wr32_outside)
qed

lemma relocated:
  "apart offs \<Longrightarrow>
    (\<forall>off \<in> set offs. rd32 (fold (\<lambda>off m. wr32 m (base + off) (rd32 m (base + off) + delta)) offs m) (base + off) =
      rd32 m (base + off) + delta) \<and>
    (\<forall>x. (\<forall>off \<in> set offs. x \<notin> region off 4) \<longrightarrow>
      fold (\<lambda>off m. wr32 m (base + off) (rd32 m (base + off) + delta)) offs m (base + x) = m (base + x))"
proof (induction offs arbitrary: m)
  case (Cons o1 offs)
  let ?step = "\<lambda>off m. wr32 m (base + off) (rd32 m (base + off) + delta)"
  have ap: "apart offs" "\<And>o2. o2 \<in> set offs \<Longrightarrow> region o1 4 \<inter> region o2 4 = {}" using Cons.prems by auto
  note IH = Cons.IH [OF ap(1), of "?step o1 m"]
  have keep: "fold ?step offs (?step o1 m) (base + x) = ?step o1 m (base + x)" if "x \<in> region o1 4" for x
    using IH ap(2) that by blast
  have "rd32 (fold ?step offs (?step o1 m)) (base + o1) = rd32 (?step o1 m) (base + o1)"
  proof (rule rd32_cong)
    fix x assume "x \<in> region (base + o1) 4"
    then show "fold ?step offs (?step o1 m) x = ?step o1 m x" using keep [of "x - base"] region_add [of base "x - base" o1 4] by simp
  qed
  moreover have "?step o1 m (base + x) = m (base + x)" if "x \<notin> region o1 4" for x
    using that region_add [of base x o1 4] by (simp add: wr32_outside)
  ultimately show ?case using IH rd32_wr32_apart [OF ap(2)] by auto
qed simp

subsection \<open>What a load leaves in the window\<close>

text \<open>The program as its file describes it, by offset from the link address: of the loadable segments that cover the offset
  the last one counts, with its file bytes and zeros behind them.\<close>

abbreviation covers :: "u32 \<Rightarrow> u32 \<Rightarrow> elf32_phdr \<Rightarrow> bool" where
  "covers link off ph \<equiv> p_type ph = PT_LOAD \<and> off - (p_vaddr ph - link) < p_memsz ph"

definition segment_byte :: "mem \<Rightarrow> u32 \<Rightarrow> elf32_phdr \<Rightarrow> u32 \<Rightarrow> u8" where
  "segment_byte img link ph off =
     (let k = off - (p_vaddr ph - link) in if k < p_filesz ph then img (p_offset ph + k) else 0)"

definition linked_image :: "mem \<Rightarrow> u32 \<Rightarrow> mem" where
  "linked_image img link off =
     (case find (covers link off) (rev (program_headers img)) of None \<Rightarrow> 0 | Some ph \<Rightarrow> segment_byte img link ph off)"

text \<open>That program at the address \<open>base\<close>: relocated words moved by the displacement, all other bytes as in the file.\<close>

definition program_at :: "mem \<Rightarrow> u32 \<Rightarrow> u32 \<Rightarrow> u32 \<Rightarrow> u32 \<Rightarrow> mem \<Rightarrow> bool" where
  "program_at img sz base w link m \<longleftrightarrow>
     (\<forall>off \<in> set (reloc_offsets img sz w link). rd32 m (base + off) = rd32 (linked_image img link) off + (base - link)) \<and>
     (\<forall>x. unat x < unat w \<and> (\<forall>off \<in> set (reloc_offsets img sz w link). x \<notin> region off 4) \<longrightarrow>
       m (base + x) = linked_image img link x)"

lemma program_at_cong:
  assumes "program_at img sz base w link m" "\<And>x. x \<in> region base (unat w) \<Longrightarrow> m' x = m x"
  shows "program_at img sz base w link m'"
proof -
  have in_w: "base + x \<in> region base (unat w)" if "unat x < unat w" for x using that by (simp add: in_region)
  have "rd32 m' (base + off) = rd32 m (base + off)" if "off \<in> set (reloc_offsets img sz w link)" for off
  proof (rule rd32_cong)
    fix x assume x: "x \<in> region (base + off) 4"
    have "elf_in_window off 4 w" using that by (auto simp: reloc_offsets_def)
    from window_region [OF this x] show "m' x = m x" using assms(2) by simp
  qed
  then show ?thesis using assms in_w by (simp add: program_at_def)
qed

lemma load_segment_byte:
  assumes "p_filesz ph \<le> p_memsz ph"
  shows "load_segment img (base + (p_vaddr ph - link)) ph m (base + off) =
    (if off - (p_vaddr ph - link) < p_memsz ph then segment_byte img link ph off else m (base + off))"
proof -
  define k where "k = off - (p_vaddr ph - link)"
  have a: "base + off - (base + (p_vaddr ph - link)) = k" "base + off - (base + (p_vaddr ph - link) + p_filesz ph) = k - p_filesz ph"
    by (simp_all add: k_def)
  have sz: "unat (p_filesz ph) < 2 ^ 32" "unat (p_memsz ph) < 2 ^ 32" "unat (p_filesz ph) \<le> unat (p_memsz ph)"
    using unsigned_less [of "p_filesz ph"] unsigned_less [of "p_memsz ph"] assms by (simp_all add: word_le_nat_alt)
  have second: "unat (k - p_filesz ph) < unat (p_memsz ph) - unat (p_filesz ph) \<longleftrightarrow> p_filesz ph \<le> k \<and> k < p_memsz ph"
  proof (cases "p_filesz ph \<le> k")
    case True
    then show ?thesis by (auto simp: unat_sub word_less_nat_alt word_le_nat_alt)
  next
    case False
    then have "unat (k - p_filesz ph) = unat k + 2 ^ 32 - unat (p_filesz ph)" by (simp add: unat_sub_if' word_le_nat_alt)
    then show ?thesis using False sz by simp
  qed
  show ?thesis using second sz
    by (simp add: load_segment_def Let_def mem_write_apply a segment_byte_def k_def [symmetric] mem_read_def word_less_nat_alt word_le_nat_alt)
qed

lemma find_snoc: "find P (xs @ [x]) = (case find P xs of None \<Rightarrow> if P x then Some x else None | Some y \<Rightarrow> Some y)"
  by (induction xs) auto

lemma ph_loop_bytes:
  "\<forall>ph \<in> set phs. p_type ph = PT_LOAD \<longrightarrow> p_filesz ph \<le> p_memsz ph \<Longrightarrow> ph_loop img sz base w link phs m = (m', None) \<Longrightarrow>
    m' (base + off) = (case find (covers link off) (rev phs) of None \<Rightarrow> m (base + off) | Some ph \<Rightarrow> segment_byte img link ph off)"
proof (induction phs arbitrary: m)
  case (Cons ph phs)
  then show ?case using load_segment_byte [of ph img base link m off]
    by (auto simp: find_snoc Let_def split: if_splits option.splits)
qed simp

lemma elf_load_program:
  assumes "\<forall>ph \<in> set (program_headers img). p_type ph = PT_LOAD \<longrightarrow> p_filesz ph \<le> p_memsz ph"
    "elf_load img sz base w link m scr = (Some entry, m', scr')" "\<And>x. x \<in> region base (unat w) \<Longrightarrow> m x = 0"
    "apart (reloc_offsets img sz w link)"
  shows "program_at img sz base w link m'"
proof -
  let ?offs = "reloc_offsets img sz w link"
  obtain m1 where m1: "ph_loop img sz base w link (program_headers img) m = (m1, None)" "m' = fold (apply_rel base w link) (relocations img sz) m1"
    using assms(2) by (auto simp: elf_load_def Let_def split: if_splits option.splits prod.splits)
  have byte: "m1 (base + x) = linked_image img link x" if "unat x < unat w" for x
    using ph_loop_bytes [OF assms(1) m1(1), of x] assms(3) [of "base + x"] that
    by (simp add: linked_image_def in_region split: option.split)
  have m': "m' = fold (\<lambda>off m. wr32 m (base + off) (rd32 m (base + off) + (base - link))) ?offs m1"
    by (simp only: m1(2) fold_rel_offsets reloc_offsets_def)
  have "rd32 m1 (base + off) = rd32 (linked_image img link) off" if "off \<in> set ?offs" for off
  proof -
    have win: "elf_in_window off 4 w" using that by (auto simp: reloc_offsets_def)
    have "m1 (base + (off + k)) = linked_image img link (off + k)" if "unat k < 4" for k
    proof -
      have "off + k \<in> region 0 (unat w)" using that by (intro window_region [OF win, of _ 0 4]) (simp_all add: in_region)
      then show ?thesis using byte by (simp add: in_region)
    qed
    from this [of 0] this [of 1] this [of 2] this [of 3] show ?thesis by (simp add: rd32_def add.assoc)
  qed
  then show ?thesis using relocated [OF assms(4), of base "base - link" m1, folded m'] byte by (simp add: program_at_def)
qed

subsection \<open>A small program\<close>

text \<open>A 136-byte executable linked at 0x300000: one segment with a word that holds its own address, four
  bytes of \<open>.bss\<close>, one \<open>R_386_32\<close> relocation for that word.\<close>

definition tiny_elf :: "u8 list" where
  "tiny_elf =
     [0x7F, 0x45, 0x4C, 0x46, 1, 1, 1, 0, 0, 0, 0, 0, 0, 0, 0, 0,
      2, 0, 3, 0, 1, 0, 0, 0, 0x00, 0x00, 0x30, 0, 52, 0, 0, 0, 96, 0, 0, 0, 0, 0, 0, 0,
      52, 0, 32, 0, 1, 0, 40, 0, 1, 0, 0, 0,
      1, 0, 0, 0, 84, 0, 0, 0, 0, 0, 0x30, 0, 0, 0, 0x30, 0, 4, 0, 0, 0, 8, 0, 0, 0, 7, 0, 0, 0, 4, 0, 0, 0,
      0, 0, 0x30, 0,
      0, 0, 0x30, 0, 1, 0, 0, 0,
      0, 0, 0, 0, 9, 0, 0, 0, 0, 0, 0, 0, 0, 0, 0, 0, 88, 0, 0, 0, 8, 0, 0, 0, 0, 0, 0, 0, 0, 0, 0, 0,
      4, 0, 0, 0, 8, 0, 0, 0]"

definition tiny_img :: mem where
  "tiny_img a = (if unat a < length tiny_elf then tiny_elf ! unat a else 0)"

lemma tiny_ehdr:
  "e_phoff (read_ehdr tiny_img) = 52" "e_phnum (read_ehdr tiny_img) = 1" "e_shoff (read_ehdr tiny_img) = 96"
  "e_shnum (read_ehdr tiny_img) = 1" "e_entry (read_ehdr tiny_img) = 0x300000" "\<not> bad_header tiny_img"
  by (simp_all add: bad_header_def read_ehdr_def tiny_img_def tiny_elf_def rd16_def rd32_def mem_read_def Let_def)

lemma tiny_headers:
  "program_headers tiny_img = [\<lparr>p_type = 1, p_offset = 84, p_vaddr = 0x300000, p_paddr = 0x300000, p_filesz = 4,
     p_memsz = 8, p_flags = 7, p_align = 4\<rparr>]"
  "relocations tiny_img 136 = [\<lparr>r_offset = 0x300000, r_info = 1\<rparr>]"
  by (simp_all add: program_headers_def relocations_def section_headers_def section_rels_def Let_def tiny_ehdr)
    (simp_all add: read_phdr_def read_shdr_def read_rel_def tiny_img_def tiny_elf_def rd32_def)

subsection \<open>Properties\<close>

text \<open>C33. When no loadable segment has more bytes in the file than in memory, \<open>elf_load\<close>
  changes no byte outside its window, whatever the file contains, whether it succeeds or fails.\<close>

theorem elf_load_confined:
  assumes "\<forall>ph \<in> set (program_headers img). p_type ph = PT_LOAD \<longrightarrow> p_filesz ph \<le> p_memsz ph"
    "elf_load img sz load_base window_size link_base m scr = (r, m', scr')"
    "x \<notin> region load_base (unat window_size)"
  shows "m' x = m x"
  by (rule elf_load_outside [OF assms(1,3,2)])

theorem elf_load_confined_witness:
  "fst (snd (elf_load tiny_img 136 0x330000 0x20000 0x300000 (\<lambda>_. 7) boot_screen)) 0x350000 = 7"
proof -
  obtain r m' scr' where e: "elf_load tiny_img 136 0x330000 0x20000 0x300000 (\<lambda>_. 7) boot_screen = (r, m', scr')"
    by (metis prod_cases3)
  have "m' 0x350000 = 7"
    using elf_load_confined [OF _ e, of "0x350000"] by (simp add: tiny_headers in_region)
  then show ?thesis using e by simp
qed

text \<open>C34. A program loads at any base as it does at the base it was linked for: if
  \<open>elf_load\<close> succeeds at the link base, then at every other base, from a window with the same contents,
  it succeeds with the entry point moved by the difference of the bases; every word with an \<open>R_386_32\<close>
  relocation has that difference added and every other byte of the window is the same. (The relocated
  words must not overlap.)\<close>

theorem elf_relocates:
  assumes "elf_load img sz link_base w link_base m0 scr = (Some entry, m0', scr')"
    "same_window load_base (unat w) m link_base m0" "apart (reloc_offsets img sz w link_base)"
  shows "\<exists>m'. elf_load img sz load_base w link_base m scr = (Some (entry + (load_base - link_base)), m', scr) \<and>
    (\<forall>off \<in> set (reloc_offsets img sz w link_base).
      rd32 m' (load_base + off) = rd32 m0' (link_base + off) + (load_base - link_base)) \<and>
    (\<forall>x. unat x < unat w \<and> (\<forall>off \<in> set (reloc_offsets img sz w link_base). x \<notin> region off 4) \<longrightarrow>
      m' (load_base + x) = m0' (link_base + x))"
proof -
  let ?offs = "reloc_offsets img sz w link_base" and ?rels = "relocations img sz"
  obtain m1 where m1: "ph_loop img sz link_base w link_base (program_headers img) m0 = (m1, None)"
    and guards: "\<not> sz < 52" "\<not> bad_header img"
      "\<not> e_phoff (read_ehdr img) + ucast (e_phnum (read_ehdr img)) * 32 > sz"
    and res: "entry = link_base + (e_entry (read_ehdr img) - link_base)" "m0' = m1"
    using assms(1) by (auto simp: elf_load_def Let_def fold_rel_at_link split: if_splits option.splits prod.splits)
  from ph_loop_window [OF assms(2), of img sz w link_base "program_headers img"] m1 obtain m2 where
    m2: "ph_loop img sz load_base w link_base (program_headers img) m = (m2, None)"
      "same_window load_base (unat w) m2 link_base m1"
    by (metis fst_conv snd_conv surj_pair)
  let ?m' = "fold (apply_rel load_base w link_base) ?rels m2"
  have m': "?m' = fold (\<lambda>off m. wr32 m (load_base + off) (rd32 m (load_base + off) + (load_base - link_base))) ?offs m2"
    by (simp only: fold_rel_offsets reloc_offsets_def)
  note reloc = relocated [OF assms(3), of load_base "load_base - link_base" m2, folded m']
  have load: "elf_load img sz load_base w link_base m scr = (Some (entry + (load_base - link_base)), ?m', scr)"
    using guards m2(1) res(1) by (simp add: elf_load_def Let_def)
  have word: "rd32 m2 (load_base + off) = rd32 m1 (link_base + off)" if "off \<in> set ?offs" for off
  proof -
    have win: "elf_in_window off 4 w" using that by (auto simp: reloc_offsets_def)
    have "m2 (load_base + (off + k)) = m1 (link_base + (off + k))" if "unat k < 4" for k
    proof -
      have "off + k \<in> region 0 (unat w)" using that
        by (intro window_region [OF win, of _ 0 4]) (simp_all add: in_region)
      then show ?thesis using m2(2) by (simp add: same_window_def in_region)
    qed
    from this [of 0] this [of 1] this [of 2] this [of 3] show ?thesis by (simp add: rd32_def add.assoc)
  qed
  show ?thesis
  proof (intro exI conjI ballI allI impI)
    show "elf_load img sz load_base w link_base m scr = (Some (entry + (load_base - link_base)), ?m', scr)" by (rule load)
    fix off assume "off \<in> set ?offs"
    then show "rd32 ?m' (load_base + off) = rd32 m0' (link_base + off) + (load_base - link_base)"
      using reloc word res(2) by simp
  next
    fix x assume "unat x < unat w \<and> (\<forall>off \<in> set ?offs. x \<notin> region off 4)"
    then show "?m' (load_base + x) = m0' (link_base + x)" using reloc m2(2) res(2) by (simp add: same_window_def)
  qed
qed

lemma tiny_offsets: "reloc_offsets tiny_img 136 0x20000 0x300000 = [0]"
  by (simp add: reloc_offsets_def tiny_headers elf_in_window_def)

lemma tiny_loads:
  "elf_load tiny_img 136 0x300000 0x20000 0x300000 m scr =
    (Some 0x300000, load_segment tiny_img 0x300000 (hd (program_headers tiny_img)) m, scr)"
  by (simp add: elf_load_def Let_def tiny_headers apply_rel_at_link elf_in_window_def tiny_ehdr)

theorem elf_relocates_witness:
  "\<exists>m'. elf_load tiny_img 136 0x330000 0x20000 0x300000 (\<lambda>_. 0) boot_screen = (Some 0x330000, m', boot_screen) \<and>
    rd32 m' 0x330000 = 0x330000"
proof -
  let ?m0 = "load_segment tiny_img 0x300000 (hd (program_headers tiny_img)) (\<lambda>_. 0)"
  have "mem_read tiny_img 84 4 = [0, 0, 0x30, 0]" by (simp add: mem_read_def upt_rec tiny_img_def tiny_elf_def)
  then have "rd32 ?m0 0x300000 = 0x300000" by (simp add: load_segment_def tiny_headers rd32_def mem_write_apply)
  moreover have "same_window 0x330000 n (\<lambda>_. 0) 0x300000 (\<lambda>_. 0)" for n by (simp add: same_window_def)
  ultimately show ?thesis using elf_relocates [OF tiny_loads, of "0x330000" "\<lambda>_. 0" "\<lambda>_. 0" boot_screen] by (auto simp: tiny_offsets)
qed

text \<open>Remark. A file that is too short for an ELF header, or whose header does not name a 32-bit
  i386 ELF, is refused with a message and no byte of memory changes.\<close>

theorem elf_load_rejects:
  assumes "sz < 52 \<or> mem_read img 0 5 \<noteq> [0x7F, 0x45, 0x4C, 0x46, 1] \<or> rd16 img 18 \<noteq> 3"
  shows "\<exists>msg. elf_load img sz load_base window_size link_base m scr = (None, m, kprint msg scr)"
proof -
  have "bad_header img \<longleftrightarrow> mem_read img 0 5 \<noteq> [0x7F, 0x45, 0x4C, 0x46, 1] \<or> rd16 img 18 \<noteq> 3"
    by (auto simp: bad_header_def read_ehdr_def mem_read_def upt_rec Let_def)
  then show ?thesis using assms by (auto simp: elf_load_def)
qed

theorem elf_load_rejects_witness:
  "\<exists>msg. elf_load (\<lambda>_. 0) 512 0x300000 0x20000 0x300000 (\<lambda>_. 7) boot_screen = (None, \<lambda>_. 7, kprint msg boot_screen)"
  by (rule elf_load_rejects) (simp add: rd16_def)

text \<open>Remark. The window check covers \<open>p_memsz\<close> bytes only, but \<open>p_filesz\<close> bytes are copied: a
  segment with \<open>p_memsz = 0\<close> at the end of the window passes every check and its file bytes are stored behind
  the window.\<close>

theorem elf_segment_overrun:
  assumes "p_type ph = PT_LOAD" "p_memsz ph = 0" "p_vaddr ph = link_base + window_size" "0 < p_filesz ph"
    "p_offset ph + p_filesz ph \<le> image_size"
  shows "\<exists>m'. ph_loop img image_size load_base window_size link_base [ph] m = (m', None) \<and>
    m' (load_base + window_size) = img (p_offset ph)"
proof -
  have "unat (p_filesz ph) < 2 ^ 32" using unsigned_less [of "p_filesz ph"] by simp
  moreover have "0 < unat (p_filesz ph)" using assms(4) by (simp add: word_less_nat_alt)
  ultimately show ?thesis using assms
    by (simp add: elf_in_window_def load_segment_def Let_def mem_write_apply mem_read_def not_less)
qed

theorem elf_segment_overrun_witness:
  "\<exists>m'. ph_loop tiny_img 136 0x300000 0x20000 0x300000
      [\<lparr>p_type = 1, p_offset = 0, p_vaddr = 0x320000, p_paddr = 0, p_filesz = 4, p_memsz = 0, p_flags = 7, p_align = 4\<rparr>]
      (\<lambda>_. 0) = (m', None) \<and> m' 0x320000 = 0x7F"
  using elf_segment_overrun [of "\<lparr>p_type = 1, p_offset = 0, p_vaddr = 0x320000, p_paddr = 0, p_filesz = 4, p_memsz = 0,
      p_flags = 7, p_align = 4\<rparr>" "0x300000" "0x20000" 136 tiny_img "0x300000" "\<lambda>_. 0"]
  by (simp add: tiny_img_def tiny_elf_def)

end
