(* ===== verification/Exec.thy ===== *)
theory Exec
  imports Task_Life Fs_Spec Elf
begin

text \<open>
  The program loader of the shell, \<open>kernel/exec.c\<close>: four load slots, each with a code window of 128 KiB
  and a user stack, the ELF staging buffer, and \<open>exec_run\<close>, which brings a file from the disk into a
  slot and starts a ring-3 task on it.

  The machine joins the kernel state of \<open>Sched\<close>, the file system, and the statics of \<open>exec.c\<close>. The staging
  buffer is a function from the offset to the byte there. The two embedded programs are build products
  (\<open>objcopy\<close> of the user ELF files): parameters.
\<close>

subsection \<open>State\<close>

abbreviation USER_PROG_MAX_SIZE :: u32 where "USER_PROG_MAX_SIZE \<equiv> 0x20000"
abbreviation SLOT_STRIDE :: u32 where "SLOT_STRIDE \<equiv> 0x30000"
abbreviation MAX_EXEC_SLOTS :: nat where "MAX_EXEC_SLOTS \<equiv> 4"
abbreviation ARGV_AREA_SIZE :: nat where "ARGV_AREA_SIZE \<equiv> 512"
abbreviation EXEC_STACK_SIZE :: u32 where "EXEC_STACK_SIZE \<equiv> 4096"

definition SLOT_BASE :: "nat \<Rightarrow> u32" where
  "SLOT_BASE i = 0x300000 + of_nat i * SLOT_STRIDE"

abbreviation LINK_BASE :: u32 where "LINK_BASE \<equiv> SLOT_BASE 0"

record 'd machine =
  kern :: kernel
  fsys :: "'d fs"
  staging :: mem
  slot_pid :: "int list"

text \<open>A file system call prints on the kernel's screen.\<close>

definition with_fs :: "('d fs \<Rightarrow> 'r \<times> 'd fs) \<Rightarrow> 'd machine \<Rightarrow> 'r \<times> 'd machine" where
  "with_fs f M =
     (let (r, s) = f ((fsys M)\<lparr>fcon := kscreen (kern M)\<rparr>)
      in (r, M\<lparr>fsys := s, kern := (kern M)\<lparr>kscreen := fcon s\<rparr>\<rparr>))"

definition mprint :: "u8 list \<Rightarrow> 'd machine \<Rightarrow> 'd machine" where
  "mprint msg M = M\<lparr>kern := (kern M)\<lparr>kscreen := kprint msg (kscreen (kern M))\<rparr>\<rparr>"

subsection \<open>Operations\<close>

definition seed_program :: "'d ports \<Rightarrow> u8 list \<Rightarrow> u8 list \<Rightarrow> 'd machine \<Rightarrow> 'd machine" where
  "seed_program io name elf M =
     (if \<not> fs_file_exists (Some name) (fsys M) then
        let n = (of_nat (length elf) :: u32)
        in if n > 0 then snd (with_fs (fs_write_file io (Some name) (Some elf) n) M) else M
      else M)"

definition exec_seed_programs :: "'d ports \<Rightarrow> u8 list \<Rightarrow> u8 list \<Rightarrow> 'd machine \<Rightarrow> 'd machine" where
  "exec_seed_programs io hello_elf echo_elf M =
     seed_program io (lit ''echo'') echo_elf (seed_program io (lit ''hello'') hello_elf M)"

fun free_slot_from :: "'d machine \<Rightarrow> nat list \<Rightarrow> int" where
  "free_slot_from M [] = -1"
| "free_slot_from M (i # is) =
     (if slot_pid M ! i < 0 \<or> \<not> task_is_active (slot_pid M ! i) (kern M) then int i else free_slot_from M is)"

definition find_free_slot :: "'d machine \<Rightarrow> int" where
  "find_free_slot M = free_slot_from M [0..<MAX_EXEC_SLOTS]"

fun m_strlen :: "u8 list \<Rightarrow> nat" where
  "m_strlen [] = 0"
| "m_strlen (c # cs) = (if c \<noteq> 0 then m_strlen cs + 1 else 0)"

text \<open>\<open>build_argv\<close>: the pointer table at \<open>sbase\<close>, the strings behind it; \<open>used\<close> bytes of the area are taken.\<close>

fun argv_loop :: "u32 \<Rightarrow> nat \<Rightarrow> nat \<Rightarrow> nat \<Rightarrow> u8 list list \<Rightarrow> mem \<Rightarrow> mem" where
  "argv_loop sbase argc i n [] m = m"
| "argv_loop sbase argc i n (a # argv) m =
     (let len = m_strlen a + 1 in
      if n + len > ARGV_AREA_SIZE
      then fold (\<lambda>j m. wr32 m (sbase + of_nat (4 * j)) 0) [i..<argc] (wr32 m (sbase + of_nat (4 * i)) 0)
      else
        let m = mem_write m (sbase + of_nat n) (take (m_strlen a) a @ [0]);
            m = wr32 m (sbase + of_nat (4 * i)) (sbase + of_nat n)
        in argv_loop sbase argc (i + 1) (n + len) argv m)"

definition build_argv :: "u32 \<Rightarrow> u8 list list \<Rightarrow> mem \<Rightarrow> u32 \<times> mem" where
  "build_argv sbase argv m =
     (let argc = length argv;
          m = argv_loop sbase argc 0 (4 * (argc + 1)) argv m
      in (sbase, wr32 m (sbase + of_nat (4 * argc)) 0))"

text \<open>\<open>exec_run\<close>; \<open>name_at\<close> is the address of the name. \<open>None\<close>: the call never returns.\<close>

definition exec_run :: "layout \<Rightarrow> 'd ports \<Rightarrow> u8 list \<Rightarrow> u32 \<Rightarrow> u8 list list \<Rightarrow> 'd machine \<Rightarrow> (int \<times> 'd machine) option" where
  "exec_run L io name name_at argv M =
     (let sl = find_free_slot M in
      if sl < 0 then Some (-1, mprint (line ''Trop de programmes charges simultanement (limite atteinte).'') M)
      else
        let i = nat sl;
            base = SLOT_BASE i;
            M = M\<lparr>kern := (kern M)\<lparr>kmem := mem_write (kmem (kern M)) base (replicate (unat USER_PROG_MAX_SIZE) 0)\<rparr>\<rparr>;
            ((elf_size, out), M) = with_fs (\<lambda>s. case fs_load_file io (Some name) (elf_staging_at L) USER_PROG_MAX_SIZE s of
                                        (r, out, s) \<Rightarrow> ((r, out), s)) M;
            M = M\<lparr>staging := mem_write (staging M) 0 out\<rparr>
        in case elf_size of
             None \<Rightarrow> Some (-1, M)
           | Some n \<Rightarrow>
               (case elf_load (staging M) n base USER_PROG_MAX_SIZE LINK_BASE (kmem (kern M)) (kscreen (kern M)) of
                  (entry, m, scr) \<Rightarrow>
                    (let M = M\<lparr>kern := (kern M)\<lparr>kmem := m, kscreen := scr\<rparr>\<rparr> in
                     case entry of
                       None \<Rightarrow> Some (-1, M)
                     | Some entry \<Rightarrow>
                         (let stack = exec_stacks_at L + of_nat i * EXEC_STACK_SIZE;
                              (argv_ptr, m) = build_argv stack argv (kmem (kern M))
                          in case create_user_task_argv L entry name_at (stack + EXEC_STACK_SIZE) EXEC_STACK_SIZE
                                    base USER_PROG_MAX_SIZE (of_nat (length argv)) argv_ptr ((kern M)\<lparr>kmem := m\<rparr>) of
                               Ret pid k \<Rightarrow>
                                 (let M = M\<lparr>kern := k\<rparr>
                                  in if pid < 0
                                     then Some (-1, mprint (line ''Impossible de creer la tache (limite atteinte).'') M)
                                     else Some (pid, M\<lparr>slot_pid := (slot_pid M)[i := pid]\<rparr>))
                             | _ \<Rightarrow> None))))"

subsection \<open>The argument area\<close>

lemma m_strlen_cname: "m_strlen s = length (cname s)"
  by (induction s) auto

lemma take_m_strlen: "take (m_strlen s) s = cname s"
  by (induction s) auto

lemma area_write:
  assumes "n + length bs \<le> 512" "unat (x - base) < n \<or> n + length bs \<le> unat (x - base)"
  shows "mem_write m (base + of_nat n) bs x = m x"
  using assms region_shift [of n "length bs" x base]
  by (intro mem_write_outside) (auto simp: in_region)

lemma area_wr32:
  assumes "n + 4 \<le> 512" "unat (x - base) < n \<or> n + 4 \<le> unat (x - base)"
  shows "wr32 m (base + of_nat n) v x = m x"
  using area_write [of n "bytes32 v" x base m] assms by (simp add: wr32_def)

lemma area_index: "n < 512 \<Longrightarrow> unat (base + of_nat n - base) = n" for base :: u32
  by (simp add: unat_u32)

lemma area_read_cong:
  assumes "n + k \<le> 512" "\<And>x. n \<le> unat (x - base) \<Longrightarrow> unat (x - base) < n + k \<Longrightarrow> m x = m' x"
  shows "mem_read m (base + of_nat n) k = mem_read m' (base + of_nat n) k"
  using assms region_shift [of n k _ base] by (intro mem_read_cong) (auto simp: in_region)

lemma area_rd32_cong:
  assumes "n + 4 \<le> 512" "\<And>x. n \<le> unat (x - base) \<Longrightarrow> unat (x - base) < n + 4 \<Longrightarrow> m x = m' x"
  shows "rd32 m (base + of_nat n) = rd32 m' (base + of_nat n)"
  using assms region_shift [of n 4 _ base] by (intro rd32_cong) (auto simp: in_region)

text \<open>The offset of the \<open>j\<close>-th string when the strings start at \<open>n\<close>.\<close>

definition str_pos :: "nat \<Rightarrow> u8 list list \<Rightarrow> nat \<Rightarrow> nat" where
  "str_pos n argv j = n + sum_list (map (\<lambda>a. length a + 1) (take j argv))"

abbreviation argv_bytes :: "u8 list list \<Rightarrow> nat" where
  "argv_bytes argv \<equiv> sum_list (map (\<lambda>a. length a + 1) argv)"

lemma argv_loop_frame:
  "i + length argv = argc \<Longrightarrow> 4 * (argc + 1) \<le> n \<Longrightarrow> n \<le> 512 \<Longrightarrow>
    unat (x - base) < 4 * i \<or> (4 * argc \<le> unat (x - base) \<and> unat (x - base) < n) \<or> 512 \<le> unat (x - base) \<Longrightarrow>
    argv_loop base argc i n argv m x = m x"
proof (induction argv arbitrary: i n m)
  case (Cons a argv)
  have z: "fold (\<lambda>j m. wr32 m (base + of_nat (4 * j)) 0) js m x = m x" if "\<forall>j \<in> set js. i \<le> j \<and> j < argc" for js m
    using that
  proof (induction js arbitrary: m)
    case (Cons j js)
    then show ?case using area_wr32 [of "4 * j" x base m 0] \<open>4 * (argc + 1) \<le> n\<close> \<open>n \<le> 512\<close> Cons.prems
        \<open>unat (x - base) < 4 * i \<or> _\<close> by auto
  qed simp
  have p: "wr32 m (base + of_nat (4 * i)) v x = m x" for m v
    using area_wr32 [of "4 * i" x base m v] Cons.prems by auto
  show ?case
  proof (cases "n + (m_strlen a + 1) > 512")
    case True
    then show ?thesis using z [of "[i..<argc]"] p by (simp add: Let_def)
  next
    case False
    let ?bs = "take (m_strlen a) a @ [0]"
    have "length (take (m_strlen a) a) = m_strlen a" by (simp only: take_m_strlen) (simp add: m_strlen_cname)
    then have len: "length ?bs = m_strlen a + 1" by simp
    have "mem_write m (base + of_nat n) ?bs x = m x"
      using area_write [of n ?bs x base m] False Cons.prems len by auto
    moreover have "argv_loop base argc (i + 1) (n + (m_strlen a + 1)) argv m' x = m' x" for m'
      using Cons.prems False by (intro Cons.IH) auto
    ultimately show ?thesis using False p by (simp add: Let_def)
  qed
qed simp

lemma argv_loop_strings:
  "i + length argv = argc \<Longrightarrow> 4 * (argc + 1) \<le> n \<Longrightarrow> n + argv_bytes argv \<le> 512 \<Longrightarrow> \<forall>a \<in> set argv. 0 \<notin> set a \<Longrightarrow>
    j < length argv \<Longrightarrow>
    rd32 (argv_loop base argc i n argv m) (base + of_nat (4 * (i + j))) = base + of_nat (str_pos n argv j) \<and>
    mem_read (argv_loop base argc i n argv m) (base + of_nat (str_pos n argv j)) (length (argv ! j) + 1) = argv ! j @ [0]"
proof (induction argv arbitrary: i n m j)
  case (Cons a argv)
  have a: "cname a = a" using Cons.prems(4) by (intro cname_id) simp
  have len: "m_strlen a = length a" by (simp add: m_strlen_cname a)
  define m1 where "m1 = wr32 (mem_write m (base + of_nat n) (a @ [0])) (base + of_nat (4 * i)) (base + of_nat n)"
  have step: "argv_loop base argc i n (a # argv) m = argv_loop base argc (i + 1) (n + (length a + 1)) argv m1"
    using Cons.prems(3) by (simp add: Let_def m1_def len)
  show ?case
  proof (cases j)
    case 0
    let ?m' = "argv_loop base argc (i + 1) (n + (length a + 1)) argv m1"
    have keep: "?m' x = m1 x" if "unat (x - base) < 4 * (i + 1) \<or> n \<le> unat (x - base) \<and> unat (x - base) < n + (length a + 1)" for x
      using that Cons.prems by (intro argv_loop_frame) auto
    have "rd32 ?m' (base + of_nat (4 * i)) = rd32 m1 (base + of_nat (4 * i))"
      using Cons.prems keep by (intro area_rd32_cong) auto
    then have "rd32 ?m' (base + of_nat (4 * i)) = base + of_nat n" by (simp add: m1_def)
    moreover have "mem_read ?m' (base + of_nat n) (length a + 1) = mem_read m1 (base + of_nat n) (length a + 1)"
      using Cons.prems keep by (intro area_read_cong) auto
    moreover have "mem_read m1 (base + of_nat n) (length a + 1) = mem_read (mem_write m (base + of_nat n) (a @ [0])) (base + of_nat n) (length a + 1)"
      unfolding m1_def using Cons.prems by (intro area_read_cong area_wr32) auto
    moreover have "\<dots> = a @ [0]" using mem_read_write_same [of "a @ [0]" m "base + of_nat n"] Cons.prems(3) by simp
    ultimately show ?thesis using 0 step by (simp add: str_pos_def)
  next
    case (Suc j')
    have "str_pos n (a # argv) j = str_pos (n + (length a + 1)) argv j'" using Suc by (simp add: str_pos_def)
    then show ?thesis using Cons.IH [of "i + 1" "n + (length a + 1)" j' m1] Cons.prems step Suc by simp
  qed
qed simp

lemma build_argv_frame:
  assumes "4 * (length argv + 1) \<le> 512" "build_argv base argv m = (p, m')" "512 \<le> unat (x - base)"
  shows "p = base \<and> m' x = m x"
proof -
  have "argv_loop base (length argv) 0 (4 * (length argv + 1)) argv m x = m x"
    using assms by (intro argv_loop_frame) auto
  then show ?thesis using assms area_wr32 [of "4 * length argv" x base] by (auto simp: build_argv_def Let_def)
qed

lemma argv_area:
  assumes "4 * (length argv + 1) + argv_bytes argv \<le> ARGV_AREA_SIZE" "\<forall>a \<in> set argv. 0 \<notin> set a"
    "build_argv base argv m = (argv_ptr, m')"
  shows "argv_ptr = base \<and> rd32 m' (base + of_nat (4 * length argv)) = 0 \<and>
    (\<forall>j < length argv. \<exists>off. off + length (argv ! j) < 512 \<and>
      rd32 m' (base + of_nat (4 * j)) = base + of_nat off \<and>
      mem_read m' (base + of_nat off) (length (argv ! j) + 1) = argv ! j @ [0]) \<and>
    (\<forall>x. x \<notin> region base 512 \<longrightarrow> m' x = m x)"
proof -
  let ?n = "4 * (length argv + 1)"
  let ?m1 = "argv_loop base (length argv) 0 ?n argv m"
  have m': "m' = wr32 ?m1 (base + of_nat (4 * length argv)) 0" "argv_ptr = base"
    using assms(3) by (auto simp: build_argv_def Let_def)
  have "\<exists>off. off + length (argv ! j) < 512 \<and> rd32 m' (base + of_nat (4 * j)) = base + of_nat off \<and>
      mem_read m' (base + of_nat off) (length (argv ! j) + 1) = argv ! j @ [0]" if j: "j < length argv" for j
  proof -
    let ?off = "str_pos ?n argv j"
    have "argv_bytes argv = argv_bytes (take j argv) + argv_bytes (drop j argv)"
      by (metis append_take_drop_id map_append sum_list_append)
    moreover have "argv_bytes (drop j argv) \<ge> length (argv ! j) + 1" using j by (simp add: Cons_nth_drop_Suc [symmetric])
    ultimately have fit: "?off + (length (argv ! j) + 1) \<le> 512" using assms(1) by (simp add: str_pos_def)
    note st = argv_loop_strings [of 0 argv "length argv" ?n j base m, simplified, OF assms(1) [simplified] assms(2) j]
    have "rd32 m' (base + of_nat (4 * j)) = rd32 ?m1 (base + of_nat (4 * j))"
      unfolding m' using assms(1) j by (intro area_rd32_cong area_wr32) auto
    moreover have "mem_read m' (base + of_nat ?off) (length (argv ! j) + 1) = mem_read ?m1 (base + of_nat ?off) (length (argv ! j) + 1)"
      unfolding m' using fit by (intro area_read_cong area_wr32) (auto simp: str_pos_def)
    ultimately show ?thesis using st fit by (intro exI [of _ ?off]) simp
  qed
  moreover have "m' x = m x" if "x \<notin> region base 512" for x
    using build_argv_frame [OF _ assms(3), of x] assms(1) that by (simp add: in_region)
  ultimately show ?thesis using m' by simp
qed

text \<open>Remark. When the arguments and their pointer table fit into the 512-byte area, \<open>build_argv\<close>
  leaves there an \<open>argv\<close> array a C program can use: each entry points to its NUL-terminated argument
  inside the area, the entry after the last is \<open>NULL\<close>, and no byte outside the area changes.\<close>

theorem build_argv_strings:
  assumes "4 * (length argv + 1) + argv_bytes argv \<le> ARGV_AREA_SIZE" "\<forall>a \<in> set argv. 0 \<notin> set a"
    "build_argv base argv m = (argv_ptr, m')"
  shows "argv_ptr = base \<and> rd32 m' (base + of_nat (4 * length argv)) = 0 \<and>
    (\<forall>j < length argv. \<exists>off. off + length (argv ! j) < 512 \<and>
      rd32 m' (base + of_nat (4 * j)) = base + of_nat off \<and>
      mem_read m' (base + of_nat off) (length (argv ! j) + 1) = argv ! j @ [0]) \<and>
    (\<forall>x. x \<notin> region base 512 \<longrightarrow> m' x = m x)"
  by (rule argv_area [OF assms])

lemma example_argv: "4 * (length [lit ''echo'', lit ''hi'']  + 1) + argv_bytes [lit ''echo'', lit ''hi''] \<le> 512"
  "\<forall>a \<in> set [lit ''echo'', lit ''hi'']. 0 \<notin> set a"
  by (simp_all add: lit_def)

theorem build_argv_strings_witness:
  "\<exists>off. rd32 (snd (build_argv 0x22000 [lit ''echo'', lit ''hi''] (\<lambda>_. 0xCC))) 0x22004 = 0x22000 + of_nat off \<and>
    mem_read (snd (build_argv 0x22000 [lit ''echo'', lit ''hi''] (\<lambda>_. 0xCC))) (0x22000 + of_nat off) 3 = lit ''hi'' @ [0]"
proof -
  obtain p m' where b: "build_argv 0x22000 [lit ''echo'', lit ''hi''] (\<lambda>_. 0xCC) = (p, m')" by fastforce
  have "\<exists>off. off + length ([lit ''echo'', lit ''hi''] ! 1) < 512 \<and> rd32 m' (0x22000 + of_nat (4 * 1)) = 0x22000 + of_nat off \<and>
      mem_read m' (0x22000 + of_nat off) (length ([lit ''echo'', lit ''hi''] ! 1) + 1) = [lit ''echo'', lit ''hi''] ! 1 @ [0]"
    using build_argv_strings [OF example_argv b] by (metis One_nat_def lessI length_Cons list.size(3))
  moreover have "length (lit ''hi'') = 2" by (simp add: lit_def)
  ultimately show ?thesis using b by auto
qed

subsection \<open>A started program\<close>

lemma free_slot_from_cases:
  "free_slot_from M is = -1 \<and> (\<forall>i \<in> set is. 0 \<le> slot_pid M ! i \<and> task_is_active (slot_pid M ! i) (kern M)) \<or>
   (\<exists>i \<in> set is. free_slot_from M is = int i \<and> (slot_pid M ! i < 0 \<or> \<not> task_is_active (slot_pid M ! i) (kern M)))"
  by (induction "is") auto

lemma find_free_slot_cases:
  "find_free_slot M = -1 \<and> (\<forall>i<4. 0 \<le> slot_pid M ! i \<and> task_is_active (slot_pid M ! i) (kern M)) \<or>
   (\<exists>i<4. find_free_slot M = int i \<and> (slot_pid M ! i < 0 \<or> \<not> task_is_active (slot_pid M ! i) (kern M)))"
  using free_slot_from_cases [of M "[0..<4]"] by (auto simp: find_free_slot_def)

abbreviation exec_stack :: "layout \<Rightarrow> nat \<Rightarrow> u32" where
  "exec_stack L i \<equiv> exec_stacks_at L + of_nat i * EXEC_STACK_SIZE"

lemma exec_run_success:
  assumes "exec_run L io name name_at argv M = Some (pid, M')" "0 \<le> pid"
  obtains i n out s' entry m scr p m2 k where "find_free_slot M = int i" "i < 4"
    "slot_pid M ! i < 0 \<or> \<not> task_is_active (slot_pid M ! i) (kern M)"
    "fs_load_file io (Some name) (elf_staging_at L) USER_PROG_MAX_SIZE ((fsys M)\<lparr>fcon := kscreen (kern M)\<rparr>) = (Some n, out, s')"
    "elf_load (mem_write (staging M) 0 out) n (SLOT_BASE i) USER_PROG_MAX_SIZE LINK_BASE
       (mem_write (kmem (kern M)) (SLOT_BASE i) (replicate (unat USER_PROG_MAX_SIZE) 0)) (fcon s') = (Some entry, m, scr)"
    "build_argv (exec_stack L i) argv m = (p, m2)"
    "create_user_task_argv L entry name_at (exec_stack L i + EXEC_STACK_SIZE) EXEC_STACK_SIZE (SLOT_BASE i)
       USER_PROG_MAX_SIZE (of_nat (length argv)) p ((kern M)\<lparr>kscreen := scr, kmem := m2\<rparr>) = Ret pid k"
    "M' = M\<lparr>kern := k, fsys := s', staging := mem_write (staging M) 0 out, slot_pid := (slot_pid M)[i := pid]\<rparr>"
proof -
  have "find_free_slot M \<noteq> -1" using assms by (auto simp: exec_run_def)
  then obtain i where i: "find_free_slot M = int i" "i < 4" "slot_pid M ! i < 0 \<or> \<not> task_is_active (slot_pid M ! i) (kern M)"
    using find_free_slot_cases [of M] by auto
  obtain r out s' where f: "fs_load_file io (Some name) (elf_staging_at L) USER_PROG_MAX_SIZE ((fsys M)\<lparr>fcon := kscreen (kern M)\<rparr>) = (r, out, s')"
    by (metis prod_cases3)
  with assms i obtain n where n: "r = Some n" by (cases r) (auto simp: exec_run_def with_fs_def Let_def)
  obtain e m scr where e: "elf_load (mem_write (staging M) 0 out) n (SLOT_BASE i) USER_PROG_MAX_SIZE LINK_BASE
       (mem_write (kmem (kern M)) (SLOT_BASE i) (replicate (unat USER_PROG_MAX_SIZE) 0)) (fcon s') = (e, m, scr)"
    by (metis prod_cases3)
  with assms i f n obtain entry where entry: "e = Some entry" by (cases e) (auto simp: exec_run_def with_fs_def Let_def)
  obtain p m2 where b: "build_argv (exec_stack L i) argv m = (p, m2)" by fastforce
  let ?c = "create_user_task_argv L entry name_at (exec_stack L i + EXEC_STACK_SIZE) EXEC_STACK_SIZE (SLOT_BASE i)
       USER_PROG_MAX_SIZE (of_nat (length argv)) p ((kern M)\<lparr>kscreen := scr, kmem := m2\<rparr>)"
  show thesis
  proof (cases ?c)
    case (Ret q k)
    then show thesis using that [OF i f [unfolded n] e [unfolded entry] b] assms i f n e entry b
      by (auto simp: exec_run_def with_fs_def Let_def mprint_def split: if_splits)
  qed (use assms i f n e entry b in \<open>auto simp: exec_run_def with_fs_def Let_def\<close>)
qed

text \<open>Where the statics of \<open>exec.c\<close> lie: the user stacks are part of the kernel image, below the heap.\<close>

definition exec_layout_ok :: "layout \<Rightarrow> kernel \<Rightarrow> bool" where
  "exec_layout_ok L k \<longleftrightarrow> unat (exec_stacks_at L) + 4 * 4096 \<le> unat (heap_start k) \<and> unat (heap_start k) \<le> HEAP_END"

lemma slot_base_nat: "i < 4 \<Longrightarrow> unat (SLOT_BASE i) = 0x300000 + i * 0x30000"
proof -
  assume "i < 4"
  then have "i = 0 \<or> i = 1 \<or> i = 2 \<or> i = 3" by arith
  then show ?thesis by (auto simp: SLOT_BASE_def)
qed

lemma slot_window: "i < 4 \<Longrightarrow> x \<in> region (SLOT_BASE i) 0x20000 \<longleftrightarrow> 0x300000 + i * 0x30000 \<le> unat x \<and> unat x < 0x320000 + i * 0x30000"
  by (subst region_iff) (simp_all add: slot_base_nat)

lemma stack_nat:
  assumes "exec_layout_ok L k" "i < 4"
  shows "unat (exec_stack L i) = unat (exec_stacks_at L) + i * 4096"
proof -
  have "of_nat i * 4096 = (of_nat (i * 4096) :: u32)" by simp
  then show ?thesis using assms unat_plus_no_wrap [of "exec_stacks_at L" "i * 4096"] by (simp only:) (simp add: exec_layout_ok_def)
qed

lemma stack_window:
  assumes "exec_layout_ok L k" "i < 4" "n \<le> 4096"
  shows "x \<in> region (exec_stack L i) n \<longleftrightarrow> unat (exec_stacks_at L) + i * 4096 \<le> unat x \<and> unat x < unat (exec_stacks_at L) + i * 4096 + n"
  using assms stack_nat [OF assms(1,2)] by (subst region_iff) (auto simp: exec_layout_ok_def)

abbreviation well_sized :: "mem \<Rightarrow> bool" where
  "well_sized img \<equiv> \<forall>ph \<in> set (program_headers img). p_type ph = PT_LOAD \<longrightarrow> p_filesz ph \<le> p_memsz ph"

text \<open>The memory effect of a run: the loaded window, the argument area, and the heap.\<close>

lemma loaded_frame:
  assumes "well_sized img" "length argv < 128"
    "elf_load img n (SLOT_BASE i) USER_PROG_MAX_SIZE LINK_BASE
       (mem_write m0 (SLOT_BASE i) (replicate (unat USER_PROG_MAX_SIZE) 0)) scr0 = (r, m, scr)"
    "build_argv b argv m = (p, m2)" "x \<notin> region (SLOT_BASE i) 0x20000" "x \<notin> region b 512"
  shows "m2 x = m0 x" "p = b"
proof -
  have "m x = mem_write m0 (SLOT_BASE i) (replicate (unat USER_PROG_MAX_SIZE) 0) x"
    using elf_load_outside [OF assms(1) _ assms(3)] assms(5) by simp
  also have "\<dots> = m0 x" using assms(5) by (intro mem_write_outside) simp_all
  finally have "m x = m0 x" .
  then show "m2 x = m0 x" "p = b" using build_argv_frame [OF _ assms(4), of x] assms(2,6) by (simp_all add: in_region)
qed

lemma loaded_safe:
  assumes "sched_inv k" "exec_layout_ok L k" "i < 4" "\<And>x. x \<notin> region (SLOT_BASE i) 0x20000 \<Longrightarrow>
    x \<notin> region (exec_stack L i) 512 \<Longrightarrow> m2 x = kmem k x"
  shows "sched_inv (k\<lparr>kscreen := scr, kmem := m2\<rparr>)"
proof -
  have "unat x < unat (heap_start k) \<or> HEAP_END \<le> unat x" if "m2 x \<noteq> kmem k x" for x
    using assms(4) [of x] that assms(2,3) slot_window [OF assms(3), of x] stack_window [OF assms(2,3), of 512 x]
    by (auto simp: exec_layout_ok_def)
  then have "safe_store k m2" by (simp add: safe_store_def)
  from safe_store_inv [OF assms(1) this] show ?thesis by (simp add: sched_inv_def)
qed

text \<open>The C view of the argument array at \<open>base\<close>: each entry points to its string within 512 bytes, \<open>NULL\<close> ends it.\<close>

definition argv_at :: "u32 \<Rightarrow> u8 list list \<Rightarrow> mem \<Rightarrow> bool" where
  "argv_at base argv m \<longleftrightarrow> rd32 m (base + of_nat (4 * length argv)) = 0 \<and>
     (\<forall>j < length argv. \<exists>off. off + length (argv ! j) < 512 \<and> rd32 m (base + of_nat (4 * j)) = base + of_nat off \<and>
       mem_read m (base + of_nat off) (length (argv ! j) + 1) = argv ! j @ [0])"

lemma argv_at_cong:
  assumes "argv_at base argv m" "4 * (length argv + 1) \<le> 512" "\<And>x. x \<in> region base 512 \<Longrightarrow> m' x = m x"
  shows "argv_at base argv m'"
proof -
  have w: "rd32 m' (base + of_nat (4 * j)) = rd32 m (base + of_nat (4 * j))" if "j \<le> length argv" for j
    using that assms(2,3) by (intro area_rd32_cong) (simp_all add: in_region)
  have s: "mem_read m' (base + of_nat n) (k + 1) = mem_read m (base + of_nat n) (k + 1)" if "n + k < 512" for n k
    using that assms(3) by (intro area_read_cong) (simp_all add: in_region)
  have "\<exists>off. off + length (argv ! j) < 512 \<and> rd32 m' (base + of_nat (4 * j)) = base + of_nat off \<and>
      mem_read m' (base + of_nat off) (length (argv ! j) + 1) = argv ! j @ [0]" if "j < length argv" for j
    using assms(1) that w [of j] s unfolding argv_at_def by (metis less_imp_le_nat)
  moreover have "rd32 m' (base + of_nat (4 * length argv)) = 0" using assms(1) w [OF order_refl] by (simp only: argv_at_def)
  ultimately show ?thesis unfolding argv_at_def by blast
qed

text \<open>What the creation of the task leaves alone: slot and argument area.\<close>

lemma started_memory:
  assumes "exec_layout_ok L k" "i < 4" "\<And>x. unat x < unat (heap_start k) \<or> HEAP_END \<le> unat x \<Longrightarrow> m' x = m2 x"
    "build_argv (exec_stack L i) argv m = (p, m2)" "length argv < 128"
  shows "x \<in> region (SLOT_BASE i) 0x20000 \<Longrightarrow> m' x = m x" "x \<in> region (exec_stack L i) 512 \<Longrightarrow> m' x = m2 x"
proof -
  have l: "unat (exec_stacks_at L) + 4 * 4096 \<le> unat (heap_start k)" "unat (heap_start k) \<le> HEAP_END"
    using assms(1) by (simp_all add: exec_layout_ok_def)
  note st = stack_window [OF assms(1,2), of 512 x]
  show "m' x = m2 x" if "x \<in> region (exec_stack L i) 512" using assms(2,3) that st l by auto
  assume x: "x \<in> region (SLOT_BASE i) 0x20000"
  then have "HEAP_END \<le> unat x" using slot_window [OF assms(2), of x] by auto
  then have "m' x = m2 x" "x \<notin> region (exec_stack L i) 512" using assms(2,3) st l by auto
  then show "m' x = m x" using build_argv_frame [OF _ assms(4), of x] assms(5) by (simp add: in_region)
qed

text \<open>C31. When \<open>exec_run\<close> returns a PID, the named program runs. \<open>fs_load_file\<close> has read the file of that
  name into the staging buffer, and the slot's window holds the program of that file, independently of how the loader
  goes about it: at each offset the byte of the last segment that covers it, zero where there is none, and each relocated
  word moved by the displacement of the slot (the relocated words must not overlap). The arguments stand on the program's stack
  as a C \<open>argv\<close> array, if they and their pointer table fit into 512 bytes. A task that did not exist
  before is active in an address space of its own that opens exactly the slot's code window and user
  stack; its first dispatch enters the file's entry point, moved from the link base to the slot, in
  ring 3 on the slot's stack with \<open>argc\<close> in EBX and the \<open>argv\<close> array in ECX. The slot was not in use by a
  live task and is now recorded as the new task's; every other task is as before and the scheduler
  invariant holds. Assumed: the exec stacks lie below the heap, there are fewer than 128 arguments (the shell passes at most 8), and
  no segment of the file has more bytes in the file than in memory, which \<open>elf_load\<close> does not check.\<close>

theorem exec_run_starts:
  assumes "sched_inv (kern M)" "exec_layout_ok L (kern M)" "length argv < 128" "well_sized (staging M')"
    "exec_run L io name name_at argv M = Some (pid, M')" "0 \<le> pid"
  shows "\<exists>i < 4. \<exists>t < 16. pid = int t \<and> \<not> active (tasks (kern M) t) \<and>
    (\<exists>n out. fs_load_file io (Some name) (elf_staging_at L) USER_PROG_MAX_SIZE ((fsys M)\<lparr>fcon := kscreen (kern M)\<rparr>) =
        (Some n, out, fsys M') \<and> staging M' = mem_write (staging M) 0 out \<and>
      (apart (reloc_offsets (staging M') n USER_PROG_MAX_SIZE LINK_BASE) \<longrightarrow>
        program_at (staging M') n (SLOT_BASE i) USER_PROG_MAX_SIZE LINK_BASE (kmem (kern M')))) \<and>
    (4 * (length argv + 1) + argv_bytes argv \<le> ARGV_AREA_SIZE \<and> (\<forall>a \<in> set argv. 0 \<notin> set a) \<longrightarrow>
      argv_at (exec_stack L i) argv (kmem (kern M'))) \<and>
    (slot_pid M ! i < 0 \<or> \<not> task_is_active (slot_pid M ! i) (kern M)) \<and>
    slot_pid M' = (slot_pid M)[i := pid] \<and> sched_inv (kern M') \<and>
    (let u = tasks (kern M') t in
      active u \<and> \<not> sleeping u \<and> tname u = name_at \<and> 0 \<le> addr_space u \<and> addr_space u < 6 \<and>
      addr_space u \<notin> used_spaces (kpaging (kern M)) \<and>
      space_set L (kpaging (kern M')) (nat (addr_space u)) (SLOT_BASE i) USER_PROG_MAX_SIZE (exec_stack L i) EXEC_STACK_SIZE \<and>
      resume (kmem (kern M')) (esp u) = \<lparr>r_edi = 0, r_esi = 0, r_ebp = 0, r_ebx = of_nat (length argv), r_edx = 0,
        r_ecx = exec_stack L i, r_eax = 0, r_eip = SLOT_BASE i + (e_entry (read_ehdr (staging M')) - LINK_BASE),
        r_cs = 0x1B, r_eflags = 0x202, r_esp = exec_stack L i + EXEC_STACK_SIZE, r_ss = 0x23\<rparr>) \<and>
    (\<forall>j. j \<noteq> t \<longrightarrow> tasks (kern M') j = tasks (kern M) j)"
proof -
  from assms(5,6) obtain i n out s' entry m scr p m2 k where ex: "find_free_slot M = int i" "i < 4"
    "slot_pid M ! i < 0 \<or> \<not> task_is_active (slot_pid M ! i) (kern M)"
    "elf_load (mem_write (staging M) 0 out) n (SLOT_BASE i) USER_PROG_MAX_SIZE LINK_BASE
       (mem_write (kmem (kern M)) (SLOT_BASE i) (replicate (unat USER_PROG_MAX_SIZE) 0)) (fcon s') = (Some entry, m, scr)"
    "build_argv (exec_stack L i) argv m = (p, m2)"
    "create_user_task_argv L entry name_at (exec_stack L i + EXEC_STACK_SIZE) EXEC_STACK_SIZE (SLOT_BASE i)
       USER_PROG_MAX_SIZE (of_nat (length argv)) p ((kern M)\<lparr>kscreen := scr, kmem := m2\<rparr>) = Ret pid k"
    "fs_load_file io (Some name) (elf_staging_at L) USER_PROG_MAX_SIZE ((fsys M)\<lparr>fcon := kscreen (kern M)\<rparr>) = (Some n, out, s')"
    and M': "M' = M\<lparr>kern := k, fsys := s', staging := mem_write (staging M) 0 out, slot_pid := (slot_pid M)[i := pid]\<rparr>"
    by (rule exec_run_success)
  have ws: "well_sized (mem_write (staging M) 0 out)" using assms(4) M' by simp
  note fr = loaded_frame [OF ws assms(3) ex(4,5)]
  have inv: "sched_inv ((kern M)\<lparr>kscreen := scr, kmem := m2\<rparr>)"
    using fr(1) by (rule loaded_safe [OF assms(1,2) ex(2)])
  have p: "p = exec_stack L i" using ex(5) by (simp add: build_argv_def Let_def)
  have entry: "entry = SLOT_BASE i + (e_entry (read_ehdr (staging M')) - LINK_BASE)"
    using ex(4) M' by (auto simp: elf_load_def Let_def split: if_splits prod.splits option.splits)
  from created_user_task [OF inv ex(6)] assms(6) obtain t where t: "t < 16" "pid = int t" "\<not> active (tasks (kern M) t)"
    "let u = tasks k t in active u \<and> \<not> sleeping u \<and> tname u = name_at \<and> 0 \<le> addr_space u \<and> addr_space u < 6 \<and>
      addr_space u \<notin> used_spaces (kpaging (kern M)) \<and>
      space_set L (kpaging k) (nat (addr_space u)) (SLOT_BASE i) USER_PROG_MAX_SIZE (exec_stack L i) EXEC_STACK_SIZE \<and>
      resume (kmem k) (esp u) = \<lparr>r_edi = 0, r_esi = 0, r_ebp = 0, r_ebx = of_nat (length argv), r_edx = 0, r_ecx = p,
        r_eax = 0, r_eip = entry, r_cs = 0x1B, r_eflags = 0x202, r_esp = exec_stack L i + EXEC_STACK_SIZE, r_ss = 0x23\<rparr>"
    "\<forall>j. j \<noteq> t \<longrightarrow> tasks k j = tasks (kern M) j" by auto
  have inv': "sched_inv (kern M')" using create_user_task_inv [OF inv ex(6)] M' by simp
  have eqs: "kern M' = k" "slot_pid M' = (slot_pid M)[i := pid]" "staging M' = mem_write (staging M) 0 out" "fsys M' = s'"
    using M' by simp_all
  have kept: "kmem k x = m2 x" if "unat x < unat (heap_start (kern M)) \<or> HEAP_END \<le> unat x" for x
    using create_user_task_outside [OF inv ex(6), of x] that by simp
  note mem = started_memory [OF assms(2) ex(2) kept ex(5) assms(3)]
  have prog: "program_at (staging M') n (SLOT_BASE i) USER_PROG_MAX_SIZE LINK_BASE (kmem k)"
    if "apart (reloc_offsets (staging M') n USER_PROG_MAX_SIZE LINK_BASE)"
  proof -
    have "mem_write (kmem (kern M)) (SLOT_BASE i) (replicate (unat USER_PROG_MAX_SIZE) 0) x = 0"
      if "x \<in> region (SLOT_BASE i) (unat USER_PROG_MAX_SIZE)" for x using that by (simp add: mem_write_apply in_region)
    from elf_load_program [OF ws ex(4) this] that eqs(3)
    have "program_at (staging M') n (SLOT_BASE i) USER_PROG_MAX_SIZE LINK_BASE m" by simp
    then show ?thesis by (rule program_at_cong) (use mem(1) in simp)
  qed
  have args: "argv_at (exec_stack L i) argv (kmem k)" if "4 * (length argv + 1) + argv_bytes argv \<le> ARGV_AREA_SIZE" "\<forall>a \<in> set argv. 0 \<notin> set a"
  proof -
    have "argv_at (exec_stack L i) argv m2" using argv_area [OF that ex(5)] by (simp add: argv_at_def)
    then show ?thesis by (rule argv_at_cong) (use that mem(2) in simp_all)
  qed
  show ?thesis using ex(2,3,7) t inv' entry p eqs prog args
    by (intro exI [of _ i] conjI exI [of _ t] exI [of _ n] exI [of _ out]) simp_all
qed

subsection \<open>A run on the booted machine\<close>

lemma boot_heap_fixed:
  assumes "\<And>x. m' x \<noteq> boot_heap m x \<Longrightarrow> unat x < 0x100000 \<or> HEAP_END \<le> unat x"
  shows "boot_heap m' = m'"
proof -
  define f :: "u32 \<Rightarrow> u8 option" where
    "f = [0x100000 \<mapsto> 0xF4, 0x100001 \<mapsto> 0xFF, 0x100002 \<mapsto> 0x0F, 0x100003 \<mapsto> 0, 0x100004 \<mapsto> 0, 0x100005 \<mapsto> 0,
      0x100006 \<mapsto> 0, 0x100007 \<mapsto> 0, 0x100008 \<mapsto> 1]"
  have h: "boot_heap n x = (case f x of None \<Rightarrow> n x | Some b \<Rightarrow> b)" for n x
    by (simp add: f_def boot_heap_def heap_init_def store_header_def wr32_def bytes32_def)
  have dom: "0x100000 \<le> unat x \<and> unat x < HEAP_END" if "f x = Some b" for x b
    using that by (auto simp: f_def split: if_splits)
  show ?thesis
  proof
    fix x
    show "boot_heap m' x = m' x"
    proof (cases "f x")
      case (Some b)
      then have "m' x = boot_heap m x" using assms [of x] dom [of x b] by force
      then show ?thesis using Some by (simp add: h)
    qed (simp add: h)
  qed
qed

lemma boot_create_loaded:
  assumes "boot_heap m2 = m2"
  shows "\<exists>k'. create_user_task_argv L entry name utop sz cb cs ebx ecx
    ((boot_kernel L m)\<lparr>kscreen := scr, kmem := m2\<rparr>) = Ret 1 k'"
proof -
  obtain m' where "kmalloc 0x100000 0x1000 (boot_heap m2) = Some (0x10000C, m')" using boot_heap_alloc by blast
  moreover have "free_slot ((boot_kernel L m)\<lparr>kscreen := scr, kmem := m2\<rparr>) = Some 1"
    by (simp add: free_slot_def boot_kernel_tasks init_blank_task upt_rec)
  moreover obtain p where "paging_create_task_directory_ex L cb cs (utop - sz) sz (paging_init L blank_paging) = (0, p)"
    by (simp add: paging_create_task_directory_ex_def paging_init_def blank_paging_def upt_rec)
  ultimately show ?thesis using assms by (simp add: create_user_task_argv_def Let_def)
qed

lemma tiny_file: "lit ''tiny'' \<noteq> []" "0 \<notin> set (lit ''tiny'')" "length (lit ''tiny'') \<le> 23"
  by (simp_all add: lit_def)

lemma tiny_staged: "length tiny_elf = 136" "mem_write (\<lambda>_. 0) 0 (padded tiny_elf) = tiny_img"
proof -
  show len: "length tiny_elf = 136" by (simp add: tiny_elf_def)
  have "padded tiny_elf = tiny_elf @ replicate 376 0" using len by (simp add: padded_def)
  then show "mem_write (\<lambda>_. 0) 0 (padded tiny_elf) = tiny_img"
    using len by (intro ext) (simp add: mem_write_apply tiny_img_def nth_append)
qed

text \<open>The booted machine with the small program on its disk.\<close>

lemma tiny_disk:
  "\<exists>s. fs_ok platter drive_healthy s \<and> file_map platter s (lit ''tiny'') = Some (padded tiny_elf)"
  using new_fs_stores [OF tiny_file, of tiny_elf 3] tiny_staged(1) by auto

definition tiny_machine :: "drive fs \<Rightarrow> drive machine" where
  "tiny_machine s = \<lparr>kern = boot_kernel example_layout (\<lambda>_. 0), fsys = s, staging = (\<lambda>_. 0), slot_pid = [-1, -1, -1, -1]\<rparr>"

lemma tiny_layout: "exec_layout_ok example_layout (boot_kernel example_layout m)"
  by (simp add: exec_layout_ok_def example_layout_def)

lemma tiny_runs:
  assumes "fs_ok platter drive_healthy s" "file_map platter s (lit ''tiny'') = Some (padded tiny_elf)"
    "M = (tiny_machine s)\<lparr>slot_pid := sp\<rparr>" "find_free_slot M = int i" "i < 4"
  shows "\<exists>M'. exec_run example_layout (reference_drive 3) (lit ''tiny'') 0x26005 [lit ''tiny''] M = Some (1, M') \<and>
    staging M' = tiny_img \<and> slot_pid M' = sp[i := 1] \<and>
    (\<exists>s'. fs_load_file (reference_drive 3) (Some (lit ''tiny'')) (elf_staging_at example_layout) USER_PROG_MAX_SIZE
      ((fsys M)\<lparr>fcon := kscreen (kern M)\<rparr>) = (Some 512, padded tiny_elf, s'))"
proof -
  let ?M = "(tiny_machine s)\<lparr>slot_pid := sp\<rparr>" and ?L = example_layout
  let ?s = "(fsys ?M)\<lparr>fcon := kscreen (kern ?M)\<rparr>"
  have slot: "find_free_slot ?M = int i" using assms(3,4) by simp
  have s: "fs_ok platter drive_healthy ?s" "file_map platter ?s (lit ''tiny'') = Some (padded tiny_elf)"
    using assms(1,2) file_map_cong [of ?s s platter] by (simp_all add: fs_ok_def on_disk_def tiny_machine_def)
  have len: "length (padded tiny_elf) = 512" using length_padded [of tiny_elf] tiny_staged(1) by simp
  have "elf_staging_at ?L \<noteq> 0" "length (padded tiny_elf) \<le> unat USER_PROG_MAX_SIZE" using len by (simp_all add: example_layout_def)
  from ata_fs.load_result [OF s(1) conjI [OF tiny_file(1,2)] s(2) this, where n = 3] obtain d' where
    f: "fs_load_file (reference_drive 3) (Some (lit ''tiny'')) (elf_staging_at ?L) USER_PROG_MAX_SIZE ?s =
      (Some 512, padded tiny_elf, ?s\<lparr>disk := d'\<rparr>)" using len by auto
  let ?m0 = "mem_write (kmem (kern ?M)) (SLOT_BASE i) (replicate (unat USER_PROG_MAX_SIZE) 0)"
  have LB: "SLOT_BASE 0 = 0x300000" by (simp add: SLOT_BASE_def)
  obtain m scr where e: "elf_load tiny_img 512 (SLOT_BASE i) USER_PROG_MAX_SIZE LINK_BASE ?m0 (fcon (?s\<lparr>disk := d'\<rparr>)) = (Some (SLOT_BASE i), m, scr)"
    unfolding LB by (simp add: elf_load_def Let_def tiny_headers tiny_ehdr elf_in_window_def)
  obtain p m2 where b: "build_argv (exec_stack ?L i) [lit ''tiny''] m = (p, m2)" by fastforce
  have ws: "well_sized tiny_img" by (simp add: tiny_headers)
  have "boot_heap m2 = m2"
  proof (rule boot_heap_fixed [of _ "\<lambda>_. 0"])
    fix x assume "m2 x \<noteq> boot_heap (\<lambda>_. 0) x"
    then show "unat x < 0x100000 \<or> HEAP_END \<le> unat x"
      using loaded_frame(1) [OF ws _ e b, of x] slot_window [OF assms(5), of x] stack_window [OF tiny_layout [of "\<lambda>_. 0"] assms(5), of 512 x] assms(5)
      by (auto simp: tiny_machine_def example_layout_def)
  qed
  from boot_create_loaded [OF this] obtain k where
    c: "create_user_task_argv ?L (SLOT_BASE i) 0x26005 (exec_stack ?L i + EXEC_STACK_SIZE) EXEC_STACK_SIZE (SLOT_BASE i)
       USER_PROG_MAX_SIZE (of_nat (length [lit ''tiny''])) p ((kern ?M)\<lparr>kscreen := scr, kmem := m2\<rparr>) = Ret 1 k"
    unfolding tiny_machine_def machine.simps by (metis machine.simps(5) machine.update_convs(4) machine.select_convs(1))
  have st: "mem_write (staging ?M) 0 (padded tiny_elf) = tiny_img" using tiny_staged(2) by (simp add: tiny_machine_def)
  have "slot_pid ?M = sp" by simp
  then show ?thesis unfolding assms(3) using slot f e b c st
    by (simp add: exec_run_def with_fs_def Let_def del: of_nat_Suc list.size)
qed

lemma busy_slot: "find_free_slot ((tiny_machine s)\<lparr>slot_pid := [0, -1, -1, -1]\<rparr>) = int 1"
  by (simp add: find_free_slot_def tiny_machine_def upt_rec task_is_active_def boot_kernel_tasks)

lemma tiny_apart: "reloc_offsets tiny_img 512 0x20000 0x300000 = [0]"
  by (simp add: reloc_offsets_def relocations_def section_headers_def section_rels_def Let_def tiny_ehdr)
    (simp add: read_shdr_def read_rel_def tiny_img_def tiny_elf_def rd32_def elf_in_window_def)

lemma tiny_placed:
  assumes "program_at tiny_img 512 0x330000 0x20000 0x300000 m"
  shows "rd32 m 0x330000 = 0x330000"
proof -
  have "rd32 (linked_image tiny_img 0x300000) 0 = 0x300000"
    by (simp add: rd32_def linked_image_def tiny_headers segment_byte_def tiny_img_def tiny_elf_def)
  then show ?thesis using assms tiny_apart by (simp add: program_at_def)
qed

text \<open>The first slot belongs to a live task: the program is loaded into the second, and its pointer is relocated.\<close>

theorem exec_run_starts_witness:
  "\<exists>s M'. exec_run example_layout (reference_drive 3) (lit ''tiny'') 0x26005 [lit ''tiny'']
      ((tiny_machine s)\<lparr>slot_pid := [0, -1, -1, -1]\<rparr>) = Some (1, M') \<and>
    active (tasks (kern M') 1) \<and> r_cs (resume (kmem (kern M')) (esp (tasks (kern M') 1))) = 0x1B \<and>
    rd32 (kmem (kern M')) 0x330000 = 0x330000"
proof -
  obtain s where "fs_ok platter drive_healthy s" "file_map platter s (lit ''tiny'') = Some (padded tiny_elf)" using tiny_disk by blast
  from tiny_runs [OF this refl busy_slot] obtain M' s' where r: "exec_run example_layout (reference_drive 3) (lit ''tiny'') 0x26005 [lit ''tiny'']
      ((tiny_machine s)\<lparr>slot_pid := [0, -1, -1, -1]\<rparr>) = Some (1, M')" "staging M' = tiny_img" "slot_pid M' = [0, 1, -1, -1]"
    "fs_load_file (reference_drive 3) (Some (lit ''tiny'')) (elf_staging_at example_layout) USER_PROG_MAX_SIZE
      ((fsys ((tiny_machine s)\<lparr>slot_pid := [0, -1, -1, -1]\<rparr>))\<lparr>fcon := kscreen (kern ((tiny_machine s)\<lparr>slot_pid := [0, -1, -1, -1]\<rparr>))\<rparr>) =
      (Some 512, padded tiny_elf, s')" by auto
  let ?M = "(tiny_machine s)\<lparr>slot_pid := [0, -1, -1, -1]\<rparr>"
  have "sched_inv (kern ?M)" "exec_layout_ok example_layout (kern ?M)" "well_sized (staging M')"
    using boot_inv tiny_layout r(2) by (simp_all add: tiny_machine_def tiny_headers)
  from exec_run_starts [OF this(1,2) _ this(3) r(1)] obtain i n out t where e: "i < 4" "1 = int t"
    "fs_load_file (reference_drive 3) (Some (lit ''tiny'')) (elf_staging_at example_layout) USER_PROG_MAX_SIZE
      ((fsys ?M)\<lparr>fcon := kscreen (kern ?M)\<rparr>) = (Some n, out, fsys M')"
    "apart (reloc_offsets (staging M') n USER_PROG_MAX_SIZE LINK_BASE) \<longrightarrow>
      program_at (staging M') n (SLOT_BASE i) USER_PROG_MAX_SIZE LINK_BASE (kmem (kern M'))"
    "slot_pid M' = (slot_pid ?M)[i := 1]" "active (tasks (kern M') t)" "r_cs (resume (kmem (kern M')) (esp (tasks (kern M') t))) = 0x1B"
    using tiny_file(2,3) by (auto simp: Let_def)
  have n: "n = 512" "t = 1" using e(2,3) r(4) by auto
  have "i = 0 \<or> i = 1 \<or> i = 2 \<or> i = 3" using e(1) by arith
  then have i: "SLOT_BASE i = 0x330000" using e(5) r(3) by (auto simp: SLOT_BASE_def)
  have "program_at tiny_img 512 0x330000 0x20000 0x300000 (kmem (kern M'))"
    using e(4) r(2) i by (simp add: n tiny_apart SLOT_BASE_def)
  then show ?thesis using r(1) e(6,7) tiny_placed n by auto
qed

subsection \<open>Isolation of the slots\<close>

lemma exec_run_memory:
  assumes "sched_inv (kern M)" "exec_layout_ok L (kern M)" "length argv < 128" "well_sized (staging M')"
    "exec_run L io name name_at argv M = Some (pid, M')" "find_free_slot M = int i" "i < 4"
    "x \<notin> region (SLOT_BASE i) 0x20000" "x \<notin> region (exec_stack L i) 512"
    "unat x < unat (heap_start (kern M)) \<or> HEAP_END \<le> unat x"
  shows "kmem (kern M') x = kmem (kern M) x"
proof -
  let ?m0 = "mem_write (kmem (kern M)) (SLOT_BASE i) (replicate (unat USER_PROG_MAX_SIZE) 0)"
  have m0: "?m0 x = kmem (kern M) x" using assms(8) by (intro mem_write_outside) simp_all
  obtain r out s' where f: "fs_load_file io (Some name) (elf_staging_at L) USER_PROG_MAX_SIZE ((fsys M)\<lparr>fcon := kscreen (kern M)\<rparr>) = (r, out, s')"
    by (metis prod_cases3)
  show ?thesis
  proof (cases r)
    case None
    then show ?thesis using assms(5,6) f m0 by (auto simp: exec_run_def with_fs_def Let_def)
  next
    case (Some n)
    obtain e m scr where e: "elf_load (mem_write (staging M) 0 out) n (SLOT_BASE i) USER_PROG_MAX_SIZE LINK_BASE ?m0 (fcon s') = (e, m, scr)"
      by (metis prod_cases3)
    obtain p m2 where b: "build_argv (exec_stack L i) argv m = (p, m2)" by fastforce
    show ?thesis
    proof (cases e)
      case None
      have M': "staging M' = mem_write (staging M) 0 out" "kmem (kern M') = m"
        using assms(5,6) f Some e None by (auto simp: exec_run_def with_fs_def Let_def)
      then show ?thesis using elf_load_outside [OF _ _ e, of x] assms(4,8) m0 by simp
    next
      case entry: (Some entry)
      let ?c = "create_user_task_argv L entry name_at (exec_stack L i + EXEC_STACK_SIZE) EXEC_STACK_SIZE (SLOT_BASE i)
       USER_PROG_MAX_SIZE (of_nat (length argv)) p ((kern M)\<lparr>kscreen := scr, kmem := m2\<rparr>)"
      obtain q k where c: "?c = Ret q k" "staging M' = mem_write (staging M) 0 out" "kmem (kern M') = kmem k"
        using assms(5,6) f Some e entry b
        by (cases ?c) (auto simp: exec_run_def with_fs_def Let_def mprint_def split: if_splits)
      have ws: "well_sized (mem_write (staging M) 0 out)" using assms(4) c(2) by simp
      note fr = loaded_frame [OF ws assms(3) e b]
      have inv: "sched_inv ((kern M)\<lparr>kscreen := scr, kmem := m2\<rparr>)"
        using fr(1) by (rule loaded_safe [OF assms(1,2,7)])
      have "kmem k x = m2 x" using create_user_task_outside [OF inv c(1), of x] assms(10) by simp
      then show ?thesis using fr(1) [OF assms(8,9)] c(3) by simp
    qed
  qed
qed

text \<open>C32. Whether \<open>exec_run\<close> loads a program, refuses the file or fails to create the task, it leaves the code window and the
  user stack of every program that is still running in another slot as they are, provided that no segment of the staged file
  has more bytes in the file than in memory. \<open>elf_load\<close> does not check this, and such a segment can reach the next slot:
  \<open>elf_segment_overrun\<close>. (Fewer than 128 arguments; the exec stacks lie below the heap.)\<close>

theorem exec_run_isolated:
  assumes "sched_inv (kern M)" "exec_layout_ok L (kern M)" "length argv < 128" "well_sized (staging M')"
    "exec_run L io name name_at argv M = Some (pid, M')"
    "j < 4" "0 \<le> slot_pid M ! j" "task_is_active (slot_pid M ! j) (kern M)"
    "x \<in> region (SLOT_BASE j) 0x20000 \<union> region (exec_stack L j) 4096"
  shows "kmem (kern M') x = kmem (kern M) x"
proof (cases "find_free_slot M = -1")
  case True
  then show ?thesis using assms(5) by (auto simp: exec_run_def mprint_def)
next
  case False
  with find_free_slot_cases [of M] obtain i where i: "find_free_slot M = int i" "i < 4"
    "slot_pid M ! i < 0 \<or> \<not> task_is_active (slot_pid M ! i) (kern M)" by auto
  then have ne: "i \<noteq> j" using assms(7,8) by auto
  have x: "0x300000 + j * 0x30000 \<le> unat x \<and> unat x < 0x320000 + j * 0x30000 \<or>
      unat (exec_stacks_at L) + j * 4096 \<le> unat x \<and> unat x < unat (exec_stacks_at L) + j * 4096 + 4096"
    using assms(9) slot_window [OF assms(6), of x] stack_window [OF assms(2,6), of 4096 x] by auto
  have hs: "unat (exec_stacks_at L) + 4 * 4096 \<le> unat (heap_start (kern M))" "unat (heap_start (kern M)) \<le> HEAP_END"
    using assms(2) by (simp_all add: exec_layout_ok_def)
  have d: "j = 0 \<or> j = 1 \<or> j = 2 \<or> j = 3" "i = 0 \<or> i = 1 \<or> i = 2 \<or> i = 3" using assms(6) i(2) by arith+
  have "x \<notin> region (SLOT_BASE i) 0x20000" using x d ne hs slot_window [OF i(2), of x] by auto
  moreover have "x \<notin> region (exec_stack L i) 512" using x d ne hs stack_window [OF assms(2) i(2), of 512 x] by auto
  moreover have "unat x < unat (heap_start (kern M)) \<or> HEAP_END \<le> unat x" using x d hs by auto
  ultimately show ?thesis using exec_run_memory [OF assms(1-5) i(1,2)] by blast
qed

theorem exec_run_isolated_witness:
  "\<exists>s M'. exec_run example_layout (reference_drive 3) (lit ''tiny'') 0x26005 [lit ''tiny'']
      ((tiny_machine s)\<lparr>slot_pid := [0, -1, -1, -1]\<rparr>) = Some (1, M') \<and> slot_pid M' = [0, 1, -1, -1] \<and>
    (\<forall>x. x \<in> region (SLOT_BASE 0) 0x20000 \<longrightarrow> kmem (kern M') x = boot_heap (\<lambda>_. 0) x)"
proof -
  obtain s where "fs_ok platter drive_healthy s" "file_map platter s (lit ''tiny'') = Some (padded tiny_elf)" using tiny_disk by blast
  from tiny_runs [OF this refl busy_slot] obtain M' where r: "exec_run example_layout (reference_drive 3) (lit ''tiny'') 0x26005 [lit ''tiny'']
      ((tiny_machine s)\<lparr>slot_pid := [0, -1, -1, -1]\<rparr>) = Some (1, M')" "staging M' = tiny_img" "slot_pid M' = [0, 1, -1, -1]" by auto
  let ?M = "(tiny_machine s)\<lparr>slot_pid := [0, -1, -1, -1]\<rparr>"
  have pre: "sched_inv (kern ?M)" "exec_layout_ok example_layout (kern ?M)" "well_sized (staging M')" "length [lit ''tiny''] < 128"
    "0 \<le> slot_pid ?M ! 0" "task_is_active (slot_pid ?M ! 0) (kern ?M)"
    using boot_inv tiny_layout r(2) by (simp_all add: tiny_machine_def tiny_headers task_is_active_def boot_kernel_tasks)
  have "kmem (kern M') x = boot_heap (\<lambda>_. 0) x" if "x \<in> region (SLOT_BASE 0) 0x20000" for x
    using exec_run_isolated [OF pre(1,2,4,3) r(1) _ pre(5,6), of x] that by (simp add: tiny_machine_def)
  then show ?thesis using r(1,3) by blast
qed

end
