(* ===== verification/Keyboard.thy ===== *)
theory Keyboard
  imports Ring
begin

text \<open>
  The PS/2 keyboard driver, \<open>kernel/keyboard.c\<close>: the interrupt handler decodes scancodes and
  queues characters; the shell takes them out. The byte that \<open>inb(0x60)\<close> returns is an argument of
  the handler; its port writes (the end-of-interrupt) are part of its result.
\<close>

definition KEY_ARROW_UP :: u8 where "KEY_ARROW_UP = 0x11"
definition KEY_ARROW_DOWN :: u8 where "KEY_ARROW_DOWN = 0x12"

record kbd =
  key_queue :: "u8 list"
  queue_read :: u8
  queue_write :: u8
  shift_pressed :: bool
  extended_prefix :: bool

definition kbd_init :: kbd where
  "kbd_init = \<lparr>key_queue = replicate 256 0, queue_read = 0, queue_write = 0,
     shift_pressed = False, extended_prefix = False\<rparr>"

definition queue_push :: "u8 \<Rightarrow> kbd \<Rightarrow> kbd" where
  "queue_push c s =
     (let nxt = queue_write s + 1 in
      if nxt \<noteq> queue_read s
      then s\<lparr>key_queue := (key_queue s)[unat (queue_write s) := c], queue_write := nxt\<rparr>
      else s)"

definition ascii :: "string \<Rightarrow> u8 list" where
  "ascii cs = map of_char cs"

definition kbd_table :: "u8 list" where
  "kbd_table = [0, 27] @ ascii ''1234567890-='' @ [8, 9] @ ascii ''qwertyuiop[]'' @ [10, 0]
     @ ascii ''asdfghjkl;'' @ [39, 96, 0, 92] @ ascii ''zxcvbnm,./'' @ [0, 42, 0, 32]"

definition kbd_shift_table :: "u8 list" where
  "kbd_shift_table = [0, 27] @ ascii ''!@#$%^&*()_+'' @ [8, 9] @ ascii ''QWERTYUIOP{}'' @ [10, 0]
     @ ascii ''ASDFGHJKL:'' @ [34, 126, 0, 124] @ ascii ''ZXCVBNM<>?'' @ [0, 42, 0, 32]"

definition EOI :: "port_write list" where
  "EOI = [(0x20, 0x20)]"

definition keyboard_handler :: "u8 \<Rightarrow> kbd \<Rightarrow> kbd \<times> port_write list" where
  "keyboard_handler sc s =
     (if sc = 0xE0 then (s\<lparr>extended_prefix := True\<rparr>, EOI)
      else
        let make = (sc AND 0x80 = 0); code = sc AND 0x7F in
        if extended_prefix s then
          let s1 = s\<lparr>extended_prefix := False\<rparr> in
          (if make then
             if code = 0x48 then queue_push KEY_ARROW_UP s1
             else if code = 0x50 then queue_push KEY_ARROW_DOWN s1 else s1
           else s1, EOI)
        else if sc = 0x2A \<or> sc = 0x36 then (s\<lparr>shift_pressed := True\<rparr>, EOI)
        else if sc = 0xAA \<or> sc = 0xB6 then (s\<lparr>shift_pressed := False\<rparr>, EOI)
        else
          (if make \<and> unat code < length kbd_table then
             let c = (if shift_pressed s then kbd_shift_table ! unat code
                      else kbd_table ! unat code)
             in if c \<noteq> 0 then queue_push c s else s
           else s, EOI))"

definition keyboard_read_char :: "kbd \<Rightarrow> u8 option \<times> kbd" where
  "keyboard_read_char s =
     (if queue_read s = queue_write s then (None, s)
      else (Some (key_queue s ! unat (queue_read s)), s\<lparr>queue_read := queue_read s + 1\<rparr>))"

subsection \<open>The key queue is a bounded queue\<close>

definition kbd_inv :: "kbd \<Rightarrow> bool" where
  "kbd_inv s \<longleftrightarrow> length (key_queue s) = 256"

definition kbd_count :: "kbd \<Rightarrow> nat" where
  "kbd_count s = unat (queue_write s - queue_read s)"

definition kbd_items :: "kbd \<Rightarrow> u8 list" where
  "kbd_items s = ring_list (\<lambda>i. key_queue s ! i) 256 (unat (queue_read s)) (kbd_count s)"

text \<open>\<open>queue_push\<close> returns nothing; whether it kept the key is read off the write index.\<close>

definition kbd_put :: "u8 \<Rightarrow> kbd \<Rightarrow> bool \<times> kbd" where
  "kbd_put c s = (queue_write (queue_push c s) \<noteq> queue_write s, queue_push c s)"

lemma u8_add_unat: "unat (a + b) = (unat a + unat b) mod 256" for a b :: u8
  by (simp add: unat_word_ariths)

lemma u8_lt: "unat a < 256" for a :: u8
  using unsigned_less [of a, where 'a = nat] by simp

lemma kbd_slot: "(unat (queue_read s) + kbd_count s) mod 256 = unat (queue_write s)"
  using u8_add_unat [of "queue_read s" "queue_write s - queue_read s"] by (simp add: kbd_count_def)

lemma kbd_full_iff: "queue_write s + 1 = queue_read s \<longleftrightarrow> kbd_count s = 255"
proof -
  have "queue_write s + 1 = queue_read s \<longleftrightarrow> queue_write s - queue_read s = -1"
    using diff_eq_eq [of "queue_write s" "queue_read s" "-1"] eq_diff_eq [of "queue_write s" "queue_read s" 1]
    by auto
  also have "\<dots> \<longleftrightarrow> kbd_count s = unat (-1 :: u8)"
    by (simp only: kbd_count_def word_unat_eq_iff)
  finally show ?thesis by (simp add: unsigned_minus_1_eq_mask mask_eq_exp_minus_1)
qed

interpretation kq: bounded_fifo kbd_inv kbd_items 255 id kbd_put keyboard_read_char
proof (unfold_locales, goal_cases)
  case (1 s c ok s')
  then have room: "kbd_count s < 255" by (simp add: kbd_items_def)
  then have nf: "queue_write s + 1 \<noteq> queue_read s" by (simp add: kbd_full_iff)
  then have s': "s' = s\<lparr>key_queue := (key_queue s)[unat (queue_write s) := c],
      queue_write := queue_write s + 1\<rparr>" "ok"
    using 1(3) by (auto simp: kbd_put_def queue_push_def Let_def)
  have "queue_write s' - queue_read s' = (queue_write s - queue_read s) + 1" by (simp add: s')
  then have count: "kbd_count s' = Suc (kbd_count s)"
    using room u8_add_unat [of "queue_write s - queue_read s" 1] by (simp add: kbd_count_def)
  have "kbd_items s' = kbd_items s @ [c]"
    unfolding kbd_items_def count
  proof (subst ring_list_push [where f = "\<lambda>i. key_queue s ! i" and v = c])
    fix j assume "j < kbd_count s"
    then have "(unat (queue_read s) + j) mod 256 \<noteq> unat (queue_write s)"
      using ring_slots_distinct [of j "kbd_count s" 256 "unat (queue_read s)"] room kbd_slot by simp
    then show "key_queue s' ! ((unat (queue_read s') + j) mod 256) =
        key_queue s ! ((unat (queue_read s') + j) mod 256)" by (simp add: s')
  next
    show "key_queue s' ! ((unat (queue_read s') + kbd_count s) mod 256) = c"
      using 1(1) kbd_slot [of s] u8_lt [of "queue_write s"] by (simp add: s' kbd_inv_def)
  qed (use room in \<open>simp_all add: s'\<close>)
  with s' show ?case by simp
next
  case (2 s c)
  then have "kbd_count s = 255" using u8_lt [of "queue_write s - queue_read s"]
    by (simp add: kbd_items_def kbd_count_def)
  then show ?case by (simp add: kbd_put_def queue_push_def Let_def kbd_full_iff)
next
  case (3 s c ok s')
  then show ?case by (auto simp: kbd_put_def queue_push_def kbd_inv_def Let_def split: if_splits)
next
  case (4 s)
  then have "length (kbd_items s) = 0" by simp
  then have "queue_write s - queue_read s = 0" by (simp add: kbd_items_def kbd_count_def unat_eq_0)
  then show ?case by (simp add: keyboard_read_char_def)
next
  case (5 s y ys r s')
  then have "length (kbd_items s) \<noteq> 0" by simp
  then have "kbd_count s \<noteq> 0" by (simp add: kbd_items_def)
  then obtain n where n: "kbd_count s = Suc n" using not0_implies_Suc by blast
  then have ne: "queue_write s \<noteq> queue_read s" by (auto simp: kbd_count_def)
  then have s': "r = Some (key_queue s ! unat (queue_read s))" "s' = s\<lparr>queue_read := queue_read s + 1\<rparr>"
    using 5(3) by (auto simp: keyboard_read_char_def)
  have "queue_write s' - queue_read s' = (queue_write s - queue_read s) - 1" by (simp add: s')
  then have c': "kbd_count s' = n"
    using n ne unat_minus_one [of "queue_write s - queue_read s"] by (simp add: kbd_count_def)
  have "kbd_items s = key_queue s ! unat (queue_read s) # kbd_items s'"
    unfolding kbd_items_def n c' ring_list_pop using u8_lt [of "queue_read s"]
    by (simp add: s' u8_add_unat)
  with 5(2) s' show ?case by simp
next
  case (6 s r s')
  then show ?case by (auto simp: keyboard_read_char_def kbd_inv_def split: if_splits)
qed

subsection \<open>Properties\<close>

lemma kbd_items_frame [simp]:
  "kbd_items (s\<lparr>shift_pressed := b\<rparr>) = kbd_items s"
  "kbd_items (s\<lparr>extended_prefix := b\<rparr>) = kbd_items s"
  "kbd_inv (s\<lparr>shift_pressed := b\<rparr>) = kbd_inv s"
  "kbd_inv (s\<lparr>extended_prefix := b\<rparr>) = kbd_inv s"
  by (simp_all add: kbd_items_def kbd_count_def kbd_inv_def)

lemma queue_push_items:
  "kbd_inv s \<Longrightarrow> kbd_items (queue_push c s) =
    (if length (kbd_items s) < 255 then kbd_items s @ [c] else kbd_items s)"
  using kq.put_cases [of s c] by (simp add: kbd_put_def)

lemma queue_push_inv [simp]: "kbd_inv s \<Longrightarrow> kbd_inv (queue_push c s)"
  using kq.put_inv [of s c] by (simp add: kbd_put_def)

lemma queue_push_flags [simp]:
  "shift_pressed (queue_push c s) = shift_pressed s"
  "extended_prefix (queue_push c s) = extended_prefix s"
  by (simp_all add: queue_push_def Let_def)

lemma kbd_items_le: "length (kbd_items s) \<le> 255"
  using u8_lt [of "queue_write s - queue_read s"] by (simp add: kbd_items_def kbd_count_def)

text \<open>One step of the queue: unchanged, or one more non-zero character at the end.\<close>

definition queue_step :: "kbd \<Rightarrow> kbd \<Rightarrow> bool" where
  "queue_step s s' \<longleftrightarrow> kbd_items s' = kbd_items s \<or>
     (\<exists>c. c \<noteq> 0 \<and> length (kbd_items s) < 255 \<and> kbd_items s' = kbd_items s @ [c])"

lemma queue_step_push: "kbd_inv s \<Longrightarrow> c \<noteq> 0 \<Longrightarrow> queue_step s (queue_push c s)"
  by (auto simp: queue_step_def queue_push_items)

lemma queue_step_refl: "queue_step s s"
  by (simp add: queue_step_def)

lemma queue_step_flags [simp]:
  "queue_step (s\<lparr>shift_pressed := b\<rparr>) t = queue_step s t"
  "queue_step (s\<lparr>extended_prefix := b\<rparr>) t = queue_step s t"
  "queue_step s (t\<lparr>shift_pressed := b\<rparr>) = queue_step s t"
  "queue_step s (t\<lparr>extended_prefix := b\<rparr>) = queue_step s t"
  by (simp_all add: queue_step_def)

lemma handler_queue_step: "kbd_inv s \<Longrightarrow> queue_step s (fst (keyboard_handler sc s))"
proof -
  assume s: "kbd_inv s"
  have "queue_step s (queue_push c (s\<lparr>extended_prefix := False\<rparr>))" if "c \<noteq> 0" for c
    using queue_step_push [of "s\<lparr>extended_prefix := False\<rparr>" c] s that by simp
  then show ?thesis
    using s by (simp add: keyboard_handler_def Let_def KEY_ARROW_UP_def KEY_ARROW_DOWN_def
        queue_step_push queue_step_refl)
qed

text \<open>Remark. Over any interleaving of key insertions by the interrupt handler and reads by the shell, the
  characters read are the accepted ones, in order, none lost or duplicated.\<close>

theorem keyboard_fifo:
  assumes "kbd_inv s" "fifo_run kbd_put keyboard_read_char ops s = (s', acc, got)"
  shows "kbd_items s @ acc = got @ kbd_items s'"
  using kq.run_order [OF assms] by simp

theorem keyboard_fifo_witness:
  "kbd_items kbd_init @ [97, 98] = [97] @
    kbd_items (fst (fifo_run kbd_put keyboard_read_char [Put 97, Put 98, Get] kbd_init))"
proof -
  obtain s' acc got where r: "fifo_run kbd_put keyboard_read_char [Put 97, Put 98, Get] kbd_init = (s', acc, got)"
    by (cases "fifo_run kbd_put keyboard_read_char [Put 97, Put 98, Get] kbd_init")
  moreover from r have "acc = [97, 98] \<and> got = [97]"
    by (auto simp: kbd_put_def queue_push_def keyboard_read_char_def kbd_init_def)
  ultimately show ?thesis using keyboard_fifo [OF _ r] by (simp add: kbd_inv_def kbd_init_def)
qed

text \<open>Remark. Every scancode is handled: the handler keeps the queue well formed, acknowledges the
  interrupt exactly once, and either leaves the pending characters as they are or appends one
  non-zero character. A full queue drops the new key, never a pending one.\<close>

theorem keyboard_handler_safe:
  assumes "kbd_inv s" "keyboard_handler sc s = (s', out)"
  shows "kbd_inv s' \<and> out = [(0x20, 0x20)] \<and>
    (kbd_items s' = kbd_items s \<or>
     (\<exists>c. c \<noteq> 0 \<and> length (kbd_items s) < 255 \<and> kbd_items s' = kbd_items s @ [c]))"
proof -
  have "kbd_inv s' \<and> out = [(0x20, 0x20)]"
    using assms by (auto simp: keyboard_handler_def Let_def EOI_def split: if_splits)
  then show ?thesis using handler_queue_step [OF assms(1), of sc] assms(2) by (simp add: queue_step_def)
qed

theorem keyboard_handler_safe_witness:
  "\<exists>s' out. keyboard_handler 0x1E kbd_init = (s', out) \<and> kbd_inv s' \<and> out = [(0x20, 0x20)]"
  using keyboard_handler_safe [of kbd_init "0x1E"]
  by (cases "keyboard_handler 0x1E kbd_init") (simp add: kbd_inv_def kbd_init_def)

text \<open>A key stroke is its make code followed by its break code.\<close>

definition stroke :: "u8 \<Rightarrow> u8 list" where
  "stroke k = [k, k OR 0x80]"

fun feed :: "u8 list \<Rightarrow> kbd \<Rightarrow> kbd" where
  "feed [] s = s"
| "feed (sc # scs) s = feed scs (fst (keyboard_handler sc s))"

definition key_char :: "bool \<Rightarrow> u8 \<Rightarrow> u8" where
  "key_char shift k = (if shift then kbd_shift_table else kbd_table) ! unat k"

definition char_key :: "u8 \<Rightarrow> bool" where
  "char_key k \<longleftrightarrow> unat k < length kbd_table \<and> kbd_table ! unat k \<noteq> 0"

lemma stroke_bits: "(k OR 0x80) AND 0x80 \<noteq> 0" "unat k < 128 \<Longrightarrow> k AND 0x80 = 0" "unat k < 128 \<Longrightarrow> k AND 0x7F = k"
  for k :: u8
proof -
  have "bit ((k OR 0x80) AND 0x80) 7" by (simp add: bit_simps)
  then show "(k OR 0x80) AND 0x80 \<noteq> 0" by auto
  have m: "0x7F = (mask 7 :: u8)" by (simp add: mask_eq_exp_minus_1)
  show *: "k AND 0x7F = k" if "unat k < 128"
  proof -
    have "unat (take_bit 7 k) = unat k" using that by (simp add: take_bit_eq_mod unat_mod)
    then have "take_bit 7 k = k" by (simp only: word_unat_eq_iff)
    then show ?thesis unfolding m by (simp add: take_bit_eq_mask)
  qed
  show "k AND 0x80 = 0" if "unat k < 128"
  proof -
    have "k AND 0x80 = (k AND 0x7F) AND 0x80" using * that by simp
    also have "\<dots> = k AND (0x7F AND 0x80)" by (rule and.assoc)
    finally show ?thesis by simp
  qed
qed

lemma stroke_low: "unat k < 128 \<Longrightarrow> (k OR 0x80) AND 0x7F = k" for k :: u8
  using stroke_bits(3) [of k] by (simp add: bit.conj_disj_distrib2)

lemma table_length [simp]: "length kbd_table = 58" "length kbd_shift_table = 58"
  by (simp_all add: kbd_table_def kbd_shift_table_def ascii_def)

lemma shifted_char: "list_all (\<lambda>i. kbd_table ! i = 0 \<or> kbd_shift_table ! i \<noteq> 0) [0..<58]"
  by (simp add: kbd_table_def kbd_shift_table_def ascii_def upt_rec)

lemma shift_keys: "kbd_table ! 42 = 0" "kbd_table ! 54 = 0"
  by (simp_all add: kbd_table_def ascii_def)

lemma char_keyD:
  assumes "char_key k"
  shows "unat k < 58" "k \<noteq> 0x2A" "k \<noteq> 0x36" "key_char b k \<noteq> 0"
  using assms shifted_char shift_keys by (auto simp: char_key_def key_char_def list_all_iff)

lemma handler_make:
  assumes "char_key k" "\<not> extended_prefix s"
  shows "fst (keyboard_handler k s) = queue_push (key_char (shift_pressed s) k) s"
proof -
  note k = char_keyD [OF assms(1)]
  have "k \<noteq> 0xE0" "k \<noteq> 0xAA" "k \<noteq> 0xB6" using k(1) by auto
  then show ?thesis
    using k(1-3) k(4) [of "shift_pressed s"] assms(2) stroke_bits(2,3) [of k]
    by (auto simp: keyboard_handler_def Let_def key_char_def)
qed

lemma handler_break:
  assumes "char_key k" "\<not> extended_prefix s"
  shows "fst (keyboard_handler (k OR 0x80) s) = s"
proof -
  note k = char_keyD [OF assms(1)]
  have low: "(k OR 0x80) AND 0x7F = k" using k(1) by (simp add: stroke_low)
  then have "k OR 0x80 \<noteq> 0xE0" "k OR 0x80 \<noteq> 0xAA" "k OR 0x80 \<noteq> 0xB6"
    "k OR 0x80 \<noteq> 0x2A" "k OR 0x80 \<noteq> 0x36" using k(1-3) by auto
  then show ?thesis using stroke_bits(1) [of k] assms(2)
    by (simp add: keyboard_handler_def Let_def)
qed

text \<open>Strokes of character keys, each made and released, queue exactly the characters of
  the unshifted table, or of the shifted one while Shift is held, in typing order, as long as the
  queue has room.\<close>

lemma keyboard_types:
  assumes "kbd_inv s" "\<not> extended_prefix s" "list_all char_key ks"
    "length (kbd_items s) + length ks \<le> 255"
  shows "kbd_items (feed (concat (map stroke ks)) s) =
    kbd_items s @ map (key_char (shift_pressed s)) ks"
  using assms
proof (induction ks arbitrary: s)
  case Nil
  then show ?case by simp
next
  case (Cons k ks)
  let ?s = "queue_push (key_char (shift_pressed s) k) s"
  have "feed (concat (map stroke (k # ks))) s = feed (concat (map stroke ks)) ?s"
    using Cons.prems by (simp add: stroke_def handler_make handler_break)
  moreover have "kbd_items ?s = kbd_items s @ [key_char (shift_pressed s) k]"
    using Cons.prems by (simp add: queue_push_items)
  ultimately show ?case using Cons.IH [of ?s] Cons.prems by simp
qed

lemma feed_inv: "kbd_inv q \<Longrightarrow> kbd_inv (feed scs q)"
proof (induction scs arbitrary: q)
  case (Cons sc scs)
  have "kbd_inv (fst (keyboard_handler sc q))"
    using Cons.prems by (auto simp: keyboard_handler_def Let_def kbd_inv_def queue_push_def)
  then show ?case using Cons.IH by simp
qed simp

end
