(* ===== verification/Shell.thy ===== *)
theory Shell
  imports Exec Sleep_Ipc Keyboard
begin

text \<open>
  The command shell, \<open>kernel/shell.c\<close>: line editing, the command history (a ring of eight lines, kept on
  disk in \<open>history.dat\<close>), the message of the day, and the commands.

  The state is the machine of \<open>Exec\<close> with the statics of \<open>shell.c\<close> and the key queue. A pointer into the input
  buffer is an index; reading at the end of the buffer gives zero (the buffer is terminated by
  \<open>shell_execute\<close> before any command looks at it). \<open>int\<close> values parsed from the line wrap at 32 bits. The
  commands that hand out the address of the buffer (\<open>exec\<close>: a task name; \<open>ps\<close>: reads task names) see its
  bytes in memory at \<open>input_buffer_at\<close>.
\<close>

subsection \<open>State\<close>

abbreviation HISTORY_SIZE :: nat where "HISTORY_SIZE \<equiv> 8"
abbreviation EXEC_MAX_ARGS :: nat where "EXEC_MAX_ARGS \<equiv> 8"

definition HISTORY_FILE :: "u8 list" where "HISTORY_FILE = lit ''history.dat''"
definition MOTD_FILE :: "u8 list" where "MOTD_FILE = lit ''motd''"

record 'd shell =
  mach :: "'d machine"
  input_buffer :: "u8 list"
  buffer_idx :: nat
  history :: "u8 list list"
  history_len :: "nat list"
  history_count :: nat
  history_nav :: int
  saved_line :: "u8 list"
  saved_line_len :: nat
  keys :: kbd

text \<open>The statics at boot (zeroed BSS and initialisers), with the key queue empty.\<close>

definition boot_shell :: "'d machine \<Rightarrow> 'd shell" where
  "boot_shell M = \<lparr>mach = M, input_buffer = replicate 256 0, buffer_idx = 0,
     history = replicate HISTORY_SIZE (replicate 256 0), history_len = replicate HISTORY_SIZE 0, history_count = 0,
     history_nav = -1, saved_line = replicate 256 0, saved_line_len = 0, keys = kbd_init\<rparr>"

text \<open>A command returns to the prompt, restarts the machine, or never returns.\<close>

datatype 's result = Running 's | Rebooted 's | Stuck

definition shprint :: "u8 list \<Rightarrow> 'd shell \<Rightarrow> 'd shell" where
  "shprint msg s = s\<lparr>mach := mprint msg (mach s)\<rparr>"

definition shdo :: "(screen \<Rightarrow> screen) \<Rightarrow> 'd shell \<Rightarrow> 'd shell" where
  "shdo f s = s\<lparr>mach := (mach s)\<lparr>kern := (kern (mach s))\<lparr>kscreen := f (kscreen (kern (mach s)))\<rparr>\<rparr>\<rparr>"

definition shfs :: "('d fs \<Rightarrow> 'r \<times> 'd fs) \<Rightarrow> 'd shell \<Rightarrow> 'r \<times> 'd shell" where
  "shfs f s = (let (r, M) = with_fs f (mach s) in (r, s\<lparr>mach := M\<rparr>))"

text \<open>The first \<open>n\<close> bytes of \<open>new\<close> copied over the first bytes of an array.\<close>

definition overlay :: "nat \<Rightarrow> u8 list \<Rightarrow> u8 list \<Rightarrow> u8 list" where
  "overlay n new old = take n new @ drop n old"

subsection \<open>Strings\<close>

fun shell_strcmp :: "u8 list \<Rightarrow> u8 list \<Rightarrow> int" where
  "shell_strcmp (c # s1) s2 =
     (if c \<noteq> 0 \<and> c = cbyte s2 0 then shell_strcmp s1 (tl s2) else int (unat c) - int (unat (cbyte s2 0)))"
| "shell_strcmp [] s2 = - int (unat (cbyte s2 0))"

fun m_strncmp :: "u8 list \<Rightarrow> u8 list \<Rightarrow> nat \<Rightarrow> int" where
  "m_strncmp s1 s2 0 = 0"
| "m_strncmp s1 s2 (Suc n) =
     (if cbyte s1 0 \<noteq> 0 \<and> cbyte s1 0 = cbyte s2 0 then m_strncmp (tl s1) (tl s2) n
      else int (unat (cbyte s1 0)) - int (unat (cbyte s2 0)))"

fun shell_strlen :: "u8 list \<Rightarrow> nat" where
  "shell_strlen [] = 0"
| "shell_strlen (c # cs) = (if c \<noteq> 0 then shell_strlen cs + 1 else 0)"

subsection \<open>History\<close>

definition history_push :: "u8 list \<Rightarrow> nat \<Rightarrow> 'd shell \<Rightarrow> 'd shell" where
  "history_push cmd len s =
     (let len = (if len > 255 then 255 else len);
          slot = history_count s mod HISTORY_SIZE
      in s\<lparr>history := (history s)[slot := overlay len cmd (history s ! slot)],
           history_len := (history_len s)[slot := len], history_count := history_count s + 1\<rparr>)"

definition history_slot :: "int \<Rightarrow> 'd shell \<Rightarrow> nat" where
  "history_slot steps_back s = nat ((int (history_count s) - 1 - steps_back + int HISTORY_SIZE) mod int HISTORY_SIZE)"

definition max_steps :: "'d shell \<Rightarrow> nat" where
  "max_steps s = (if history_count s < HISTORY_SIZE then history_count s else HISTORY_SIZE)"

text \<open>The loop of \<open>history_save\<close>; \<open>buf\<close> are the bytes written so far into the array of 2048 bytes.\<close>

fun save_loop :: "'d shell \<Rightarrow> nat \<Rightarrow> u8 list \<Rightarrow> u8 list" where
  "save_loop s 0 buf = buf"
| "save_loop s (Suc steps_back) buf =
     (let slot = history_slot (int steps_back) s;
          l = history_len s ! slot;
          buf = buf @ take (min l (2047 - length buf)) (history s ! slot);
          buf = (if length buf < 2047 then buf @ [10] else buf)
      in save_loop s steps_back buf)"

definition history_save :: "'d ports \<Rightarrow> 'd shell \<Rightarrow> 'd shell" where
  "history_save io s =
     (let buf = save_loop s (max_steps s) [] in
      if length buf = 0 then s
      else
        let (_, s) = shfs (fs_delete_file_silent io (Some HISTORY_FILE)) s;
            (_, s) = shfs (fs_write_file_silent io (Some HISTORY_FILE) (Some buf) (of_nat (length buf))) s
        in s)"

fun trim_from :: "u8 list \<Rightarrow> nat \<Rightarrow> nat \<Rightarrow> nat" where
  "trim_from buf i 0 = i"
| "trim_from buf i (Suc n) = (if buf ! i = 0 then i else trim_from buf (i + 1) n)"

definition trim_to_first_nul :: "u8 list \<Rightarrow> nat \<Rightarrow> nat" where
  "trim_to_first_nul buf n = trim_from buf 0 n"

function line_loop :: "u8 list \<Rightarrow> nat \<Rightarrow> nat \<Rightarrow> nat \<Rightarrow> 'd shell \<Rightarrow> 'd shell" where
  "line_loop buf n start i s =
     (if i \<le> n then
        if i = n \<or> buf ! i = 10 then
          let s = (if i > start then history_push (drop start buf) (i - start) s else s)
          in line_loop buf n (i + 1) (i + 1) s
        else line_loop buf n start (i + 1) s
      else s)"
  by pat_completeness auto
termination
  by (relation "measure (\<lambda>(buf, n, start, i, s). Suc n - i)") auto

declare line_loop.simps [simp del]

text \<open>\<open>fs_load_file\<close> into a zero-initialised static array of \<open>cap\<close> bytes: the array and the trimmed size.\<close>

definition load_static :: "'d ports \<Rightarrow> u8 list \<Rightarrow> u32 \<Rightarrow> nat \<Rightarrow> 'd shell \<Rightarrow> (u8 list \<times> nat) option \<times> 'd shell" where
  "load_static io name buf_at cap s =
     (let ((r, out), s) = shfs (\<lambda>f. case fs_load_file io (Some name) buf_at (of_nat cap) f of (r, out, f) \<Rightarrow> ((r, out), f)) s
      in case r of
           None \<Rightarrow> (None, s)
         | Some n \<Rightarrow>
             (let buf = overlay (length out) out (replicate cap 0)
              in (Some (buf, trim_to_first_nul buf (unat n)), s)))"

definition history_load_from_disk :: "layout \<Rightarrow> 'd ports \<Rightarrow> 'd shell \<Rightarrow> 'd shell" where
  "history_load_from_disk L io s =
     (if \<not> fs_file_exists (Some HISTORY_FILE) (fsys (mach s)) then s
      else case load_static io HISTORY_FILE (history_buf_at L) 2048 s of
             (None, s) \<Rightarrow> s
           | (Some (buf, n), s) \<Rightarrow> line_loop buf n 0 0 s)"

definition shell_show_motd :: "layout \<Rightarrow> 'd ports \<Rightarrow> 'd shell \<Rightarrow> 'd shell" where
  "shell_show_motd L io s =
     (if \<not> fs_file_exists (Some MOTD_FILE) (fsys (mach s)) then s
      else case load_static io MOTD_FILE (motd_buf_at L) 512 s of
             (None, s) \<Rightarrow> s
           | (Some (buf, n), s) \<Rightarrow>
               (let s = shprint (lit '' ---'' @ [10]) (shprint MOTD_FILE (shprint ([10] @ lit ''--- '') s));
                    s = shdo (fold kprint_char (take n buf)) s
                in shprint [10] s))"

definition shell_init :: "layout \<Rightarrow> 'd ports \<Rightarrow> 'd shell \<Rightarrow> 'd shell" where
  "shell_init L io s =
     (let s = shprint ([10] @ lit ''MxOS Shell v1.0'' @ [10] @ lit ''Tapez 'help' pour la liste des commandes.'' @ [10]) s;
          s = history_load_from_disk L io s;
          s = shell_show_motd L io s;
          s = shprint (lit ''> '') s
      in s\<lparr>buffer_idx := 0\<rparr>)"

subsection \<open>Line editing\<close>

definition redraw_input_line :: "nat \<Rightarrow> 'd shell \<Rightarrow> 'd shell" where
  "redraw_input_line new_len s =
     (let s = shdo ((kprint_char 8) ^^ buffer_idx s) s;
          s = shdo (fold kprint_char (take new_len (input_buffer s))) s
      in s\<lparr>buffer_idx := new_len\<rparr>)"

definition history_load :: "int \<Rightarrow> 'd shell \<Rightarrow> 'd shell" where
  "history_load steps_back s =
     (let slot = history_slot steps_back s;
          len = history_len s ! slot
      in redraw_input_line len (s\<lparr>input_buffer := overlay len (history s ! slot) (input_buffer s)\<rparr>))"

definition history_up :: "'d shell \<Rightarrow> 'd shell" where
  "history_up s =
     (if history_count s = 0 then s
      else
        let s' = (if history_nav s = -1
                  then s\<lparr>saved_line_len := buffer_idx s, saved_line := overlay (buffer_idx s) (input_buffer s) (saved_line s),
                         history_nav := 0\<rparr>
                  else if history_nav s + 1 < int (max_steps s) then s\<lparr>history_nav := history_nav s + 1\<rparr> else s)
        in history_load (history_nav s') s')"

definition history_down :: "'d shell \<Rightarrow> 'd shell" where
  "history_down s =
     (if history_nav s = -1 then s
      else if history_nav s = 0 then
        redraw_input_line (saved_line_len s)
          (s\<lparr>history_nav := -1, input_buffer := overlay (saved_line_len s) (saved_line s) (input_buffer s)\<rparr>)
      else
        let s = s\<lparr>history_nav := history_nav s - 1\<rparr> in history_load (history_nav s) s)"

subsection \<open>Parsing\<close>

lemma cbyte_inside: "cbyte b p \<noteq> 0 \<Longrightarrow> p < length b"
  by (simp add: cbyte_def split: if_splits)

function skip_spaces :: "u8 list \<Rightarrow> nat \<Rightarrow> nat" where
  "skip_spaces b p = (if cbyte b p = 32 then skip_spaces b (p + 1) else p)"
  by pat_completeness auto
termination
  by (relation "measure (\<lambda>(b, p). length b - p)") (auto dest!: arg_cong [of _ 32 "\<lambda>c. c \<noteq> 0"] cbyte_inside)

function skip_word :: "u8 list \<Rightarrow> nat \<Rightarrow> nat" where
  "skip_word b p = (if cbyte b p \<noteq> 0 \<and> cbyte b p \<noteq> 32 then skip_word b (p + 1) else p)"
  by pat_completeness auto
termination
  by (relation "measure (\<lambda>(b, p). length b - p)") (auto dest!: cbyte_inside)

definition is_digit :: "u8 \<Rightarrow> bool" where
  "is_digit c \<longleftrightarrow> 48 \<le> c \<and> c \<le> 57"

text \<open>\<^verbatim>\<open>while (*p >= '0' && *p <= '9') { v = v * 10 + (*p - '0'); p++; }\<close>\<close>

function read_num :: "u8 list \<Rightarrow> nat \<Rightarrow> int \<Rightarrow> int \<times> nat" where
  "read_num b p v =
     (if is_digit (cbyte b p) then read_num b (p + 1) (signed_take_bit 31 (v * 10 + (int (unat (cbyte b p)) - 48)))
      else (v, p))"
  by pat_completeness auto
termination
  by (relation "measure (\<lambda>(b, p, v). length b - p)") (auto simp: is_digit_def dest!: cbyte_inside [rotated] intro!: diff_less_mono2 cbyte_inside)

declare skip_spaces.simps [simp del] skip_word.simps [simp del] read_num.simps [simp del]

text \<open>The argument loop of \<open>exec\<close>: the buffer with zeros behind the words, and where the words start.\<close>

function exec_args :: "u8 list \<Rightarrow> nat \<Rightarrow> nat list \<Rightarrow> u8 list \<times> nat list" where
  "exec_args b p argv =
     (if cbyte b p \<noteq> 0 \<and> length argv < EXEC_MAX_ARGS then
        let argv = argv @ [p];
            p = skip_word b p
        in if cbyte b p = 32
           then let b = b[p := 0] in exec_args b (skip_spaces b (p + 1)) argv
           else exec_args b p argv
      else (b, argv))"
  by pat_completeness auto
termination
  by (relation "measure (\<lambda>(b, p, argv). EXEC_MAX_ARGS - length argv)") auto

declare exec_args.simps [simp del]

subsection \<open>Commands\<close>

definition cmd_exec :: "layout \<Rightarrow> 'd ports \<Rightarrow> 'd shell \<Rightarrow> 'd shell result" where
  "cmd_exec L io s =
     (let b = input_buffer s;
          (b, argv) = exec_args b (skip_spaces b 5) [];
          s = s\<lparr>input_buffer := b\<rparr>
      in if argv = [] then Running (shprint (lit ''Usage : exec <fichier> [arguments...]'') s)
         else case exec_run L io (cname (drop (hd argv) b)) (input_buffer_at L + of_nat (hd argv))
                     (map (\<lambda>p. cname (drop p b)) argv) (mach s) of
                None \<Rightarrow> Stuck
              | Some (_, M) \<Rightarrow> Running (s\<lparr>mach := M\<rparr>))"

definition cmd_ps :: "layout \<Rightarrow> 'd shell \<Rightarrow> 'd shell result" where
  "cmd_ps L s =
     (let k = kern (mach s) in
      case sched_dump_tasks (k\<lparr>kmem := mem_write (kmem k) (input_buffer_at L) (input_buffer s)\<rparr>) of
        None \<Rightarrow> Stuck
      | Some scr \<Rightarrow> Running (shdo (\<lambda>_. scr) s))"

definition on_kern :: "(kernel \<Rightarrow> kernel) \<Rightarrow> 'd shell \<Rightarrow> 'd shell" where
  "on_kern f s = s\<lparr>mach := (mach s)\<lparr>kern := f (kern (mach s))\<rparr>\<rparr>"

definition cmd_kill :: "'d shell \<Rightarrow> 'd shell" where
  "cmd_kill s =
     (let b = input_buffer s;
          p = skip_spaces b 5
      in if \<not> is_digit (cbyte b p) then shprint (lit ''Usage : kill <pid>'') s
         else
           let (pid, _) = read_num b p 0;
               (ok, k) = task_kill pid (kern (mach s));
               s = on_kern (\<lambda>_. k) s
           in if ok
              then shprint (lit '' terminee.'') (shdo (kprint_dec (word_of_int pid)) (shprint (lit ''Tache '') s))
              else shprint (lit ''Impossible de terminer cette tache (PID invalide, inactive, ou tache courante).'') s)"

definition cmd_priority :: "'d shell \<Rightarrow> 'd shell" where
  "cmd_priority s =
     (let b = input_buffer s;
          usage = shprint (lit ''Usage : priority <pid> <niveau>'') s;
          p = skip_spaces b 9
      in if \<not> is_digit (cbyte b p) then usage
         else
           let (pid, p) = read_num b p 0;
               p = skip_spaces b p;
               neg = (cbyte b p = 45);
               p = (if neg then p + 1 else p)
           in if \<not> is_digit (cbyte b p) then usage
              else
                let (level, _) = read_num b p 0;
                    level = (if neg then signed_take_bit 31 (- level) else level)
                in shprint (lit ''Priorite mise a jour.'') (on_kern (task_set_priority pid level) s))"

definition cmd_write :: "'d ports \<Rightarrow> 'd shell \<Rightarrow> 'd shell" where
  "cmd_write io s =
     (let b = input_buffer s;
          name = skip_spaces b 6;
          sep = skip_word b name
      in if cbyte b sep = 32 then
           let b = b[sep := 0];
               content = drop (sep + 1) b
           in snd (shfs (fs_write_file io (Some (drop name b)) (Some content) (of_nat (shell_strlen content)))
                (s\<lparr>input_buffer := b\<rparr>))
         else shprint (lit ''Usage : write <nom> <contenu>'') s)"

definition cmd_mem :: "'d shell \<Rightarrow> 'd shell result" where
  "cmd_mem s =
     (let k = kern (mach s) in
      case heap_stats (heap_start k) (kmem k) of
        None \<Rightarrow> Stuck
      | Some (n_used, n_free) \<Rightarrow>
          (let s = shdo (kprint_dec n_used) (shprint (lit ''Heap - utilisee : '') s);
               s = shdo (kprint_dec n_free) (shprint (lit '' octets, libre : '') s)
           in Running (shprint (lit '' octets'') s)))"

definition cmd_uptime :: "'d shell \<Rightarrow> 'd shell" where
  "cmd_uptime s =
     (let p = kpit (kern (mach s));
          tick = get_ticks p;
          freq = pit_get_frequency p;
          seconds = (if freq \<noteq> 0 then tick div freq else 0);
          s = shdo (kprint_dec seconds) (shprint (lit ''Uptime : '') s);
          s = shdo (kprint_dec tick) (shprint (lit '' secondes ('') s)
      in shprint (lit '' ticks)'') s)"

text \<open>\<open>reboot\<close> (\<open>kernel/cpu.c\<close>): the wait for the keyboard controller may not end; after the reset pulse
  the processor halts.\<close>

partial_function (option) reboot :: "'d ports \<Rightarrow> 'd \<Rightarrow> 'd option" where
  "reboot io d =
     (let (tmp, d) = inb io 0x64 d;
          d = (if tmp AND 1 \<noteq> 0 then snd (inb io 0x60 d) else d)
      in if tmp AND 2 \<noteq> 0 then reboot io d else Some (outb io 0x64 0xFE d))"

definition cmd_reboot :: "'d ports \<Rightarrow> 'd shell \<Rightarrow> 'd shell result" where
  "cmd_reboot io s =
     (let s = shprint (lit ''Redemarrage...'' @ [10]) s in
      case reboot io (disk (fsys (mach s))) of
        None \<Rightarrow> Stuck
      | Some d \<Rightarrow> Rebooted (s\<lparr>mach := (mach s)\<lparr>fsys := (fsys (mach s))\<lparr>disk := d\<rparr>\<rparr>\<rparr>))"

definition help_text :: "u8 list" where
  "help_text = lit ''Commandes : help, clear, ver, ls, cat <file>, write <file> <contenu>,'' @ [10] @
     lit ''rm <file>, exec <file> [args...], ps, kill <pid>, priority <pid> <niveau>,'' @ [10] @
     lit ''mem, uptime, reboot''"

definition is_cmd :: "'d shell \<Rightarrow> string \<Rightarrow> bool" where
  "is_cmd s c \<longleftrightarrow> shell_strcmp (input_buffer s) (lit c) = 0"

definition is_prefix :: "'d shell \<Rightarrow> string \<Rightarrow> bool" where
  "is_prefix s c \<longleftrightarrow> m_strncmp (input_buffer s) (lit c) (length c) = 0"

definition shell_command :: "layout \<Rightarrow> 'd ports \<Rightarrow> 'd shell \<Rightarrow> 'd shell result" where
  "shell_command L io s =
     (if is_cmd s ''help'' then Running (shprint help_text s)
      else if is_cmd s ''clear'' then Running (shdo clear_screen s)
      else if is_cmd s ''ver'' then Running (shprint (lit ''MxOS Kernel v1.1.2 (Preemptive/ATA-PIO)'') s)
      else if is_cmd s ''ls'' then Running (snd (shfs (\<lambda>f. ((), fs_list f)) s))
      else if is_prefix s ''cat '' then
        Running (snd (shfs (\<lambda>f. ((), fs_read_file io (Some (drop 4 (input_buffer s))) f)) s))
      else if is_prefix s ''rm '' then
        Running (snd (shfs (fs_delete_file io (Some (drop 3 (input_buffer s)))) s))
      else if is_prefix s ''exec '' then cmd_exec L io s
      else if is_cmd s ''ps'' then cmd_ps L s
      else if is_prefix s ''kill '' then Running (cmd_kill s)
      else if is_prefix s ''priority '' then Running (cmd_priority s)
      else if is_prefix s ''write '' then Running (cmd_write io s)
      else if is_cmd s ''mem'' then cmd_mem s
      else if is_cmd s ''uptime'' then Running (cmd_uptime s)
      else if is_cmd s ''reboot'' then cmd_reboot io s
      else if buffer_idx s > 0 then Running (shprint (input_buffer s) (shprint (lit ''Commande inconnue : '') s))
      else Running s)"

definition shell_execute :: "layout \<Rightarrow> 'd ports \<Rightarrow> 'd shell \<Rightarrow> 'd shell result" where
  "shell_execute L io s =
     (let s = shprint [10] s;
          s = s\<lparr>input_buffer := (input_buffer s)[buffer_idx s := 0]\<rparr>;
          s = (if buffer_idx s > 0 then history_save io (history_push (input_buffer s) (buffer_idx s) s) else s);
          s = s\<lparr>history_nav := -1\<rparr>
      in case shell_command L io s of
           Running s \<Rightarrow> Running ((shprint ([10] @ lit ''> '') s)\<lparr>buffer_idx := 0\<rparr>)
         | Rebooted s \<Rightarrow> Rebooted s
         | Stuck \<Rightarrow> Stuck)"

definition shell_update :: "layout \<Rightarrow> 'd ports \<Rightarrow> u8 \<Rightarrow> 'd shell \<Rightarrow> 'd shell result" where
  "shell_update L io c s =
     (if c = 10 then shell_execute L io s
      else if c = 8 then
        Running (if buffer_idx s > 0 then shdo (kprint_char c) (s\<lparr>buffer_idx := buffer_idx s - 1\<rparr>) else s)
      else if c = KEY_ARROW_UP then Running (history_up s)
      else if c = KEY_ARROW_DOWN then Running (history_down s)
      else if buffer_idx s < 255 then
        Running (shdo (kprint_char c)
          (s\<lparr>input_buffer := (input_buffer s)[buffer_idx s := c], buffer_idx := buffer_idx s + 1\<rparr>))
      else Running s)"

text \<open>\<open>shell_poll_ipc\<close>; its locals (\<open>buf\<close>, \<open>len\<close>, \<open>sender\<close>) lie on the kernel stack at \<open>locals\<close>.\<close>

definition shell_poll_ipc :: "u32 \<Rightarrow> 'd shell \<Rightarrow> 'd shell result" where
  "shell_poll_ipc locals s =
     (let len_at = locals + 128;
          sender_at = locals + 132;
          k = kern (mach s);
          (r, k) = ipc_recv locals len_at sender_at (k\<lparr>kmem := wr32 (wr32 (kmem k) len_at 0) sender_at (-1)\<rparr>)
      in if r \<noteq> 0 then
           let m = kmem k;
               m = (if rd32 m len_at \<ge> 128 then wr32 m len_at 127 else m);
               m = m(locals + rd32 m len_at := 0);
               s = on_kern (\<lambda>_. k\<lparr>kmem := m\<rparr>) s;
               s = shprint ([10] @ lit ''[IPC] Message de la tache '') s;
               s = shdo (kprint_dec (rd32 m sender_at)) s;
               s = shprint (lit '' : '') s
           in case kprint_ptr m locals (kscreen (kern (mach s))) of
                None \<Rightarrow> Stuck
              | Some scr \<Rightarrow> Running (shprint [10] (shdo (\<lambda>_. scr) s))
         else Running (on_kern (\<lambda>_. k) s))"

text \<open>The loop of \<open>shell_poll\<close>: \<open>q\<close> is the key queue, which no command looks at. A key that arrives while the loop
  runs is one more key in the queue.\<close>

lemma one_key_less: "r \<noteq> w \<Longrightarrow> unat (w - (r + 1)) < unat (w - r)" for r w :: u8
proof -
  assume "r \<noteq> w"
  then have "w - r \<noteq> 0" by simp
  then have "unat (w - r - 1) = unat (w - r) - 1" "0 < unat (w - r)" by (simp_all add: unat_minus_one unat_gt_0)
  then have "unat (w - r - 1) < unat (w - r)" by linarith
  then show ?thesis by (simp only: diff_diff_eq)
qed

function poll_keys :: "layout \<Rightarrow> 'd ports \<Rightarrow> kbd \<Rightarrow> 'd shell \<Rightarrow> 'd shell result" where
  "poll_keys L io q s =
     (case keyboard_read_char q of
        (None, q) \<Rightarrow> Running (s\<lparr>keys := q\<rparr>)
      | (Some c, q) \<Rightarrow>
          (case shell_update L io c s of
             Running s \<Rightarrow> poll_keys L io q s
           | Rebooted s \<Rightarrow> Rebooted (s\<lparr>keys := q\<rparr>)
           | Stuck \<Rightarrow> Stuck))"
  by pat_completeness auto
termination
  by (relation "measure (\<lambda>(L, io, q, s). kbd_count q)")
    (auto simp: keyboard_read_char_def kbd_count_def one_key_less split: if_splits)

declare poll_keys.simps [simp del]

definition shell_poll :: "layout \<Rightarrow> 'd ports \<Rightarrow> u32 \<Rightarrow> 'd shell \<Rightarrow> 'd shell result" where
  "shell_poll L io locals s =
     (case poll_keys L io (keys s) s of Running s \<Rightarrow> shell_poll_ipc locals s | r \<Rightarrow> r)"

end
