(* ===== verification/Shell_Line.thy ===== *)
theory Shell_Line
  imports Shell
begin

text \<open>
  Line editing and the command history: the arrays of the shell are never left, the history is the list
  of the last eight lines, and the arrow keys walk through it and back to the line being typed.
\<close>

subsection \<open>Printing leaves the statics of the shell alone\<close>

lemma shprint_simps [simp]:
  "input_buffer (shprint msg s) = input_buffer s" "buffer_idx (shprint msg s) = buffer_idx s"
  "history (shprint msg s) = history s" "history_len (shprint msg s) = history_len s"
  "history_count (shprint msg s) = history_count s" "history_nav (shprint msg s) = history_nav s"
  "saved_line (shprint msg s) = saved_line s" "saved_line_len (shprint msg s) = saved_line_len s"
  "fsys (mach (shprint msg s)) = fsys (mach s)"
  by (simp_all add: shprint_def mprint_def)

lemma shdo_simps [simp]:
  "input_buffer (shdo f s) = input_buffer s" "buffer_idx (shdo f s) = buffer_idx s"
  "history (shdo f s) = history s" "history_len (shdo f s) = history_len s"
  "history_count (shdo f s) = history_count s" "history_nav (shdo f s) = history_nav s"
  "saved_line (shdo f s) = saved_line s" "saved_line_len (shdo f s) = saved_line_len s"
  "fsys (mach (shdo f s)) = fsys (mach s)"
  by (simp_all add: shdo_def)

lemma redraw_simps [simp]:
  "input_buffer (redraw_input_line n s) = input_buffer s" "buffer_idx (redraw_input_line n s) = n"
  "history (redraw_input_line n s) = history s" "history_len (redraw_input_line n s) = history_len s"
  "history_count (redraw_input_line n s) = history_count s" "history_nav (redraw_input_line n s) = history_nav s"
  "saved_line (redraw_input_line n s) = saved_line s" "saved_line_len (redraw_input_line n s) = saved_line_len s"
  by (simp_all add: redraw_input_line_def)

lemma history_load_simps [simp]:
  "history (history_load n s) = history s" "history_len (history_load n s) = history_len s"
  "history_count (history_load n s) = history_count s" "history_nav (history_load n s) = history_nav s"
  "saved_line (history_load n s) = saved_line s" "saved_line_len (history_load n s) = saved_line_len s"
  by (simp_all add: history_load_def Let_def)

subsection \<open>The arrays\<close>

lemma length_overlay: "n \<le> length new \<Longrightarrow> n \<le> length old \<Longrightarrow> length (overlay n new old) = length old"
  by (simp add: overlay_def)

lemma take_overlay: "n \<le> length new \<Longrightarrow> take n (overlay n new old) = take n new"
  by (simp add: overlay_def)

text \<open>The sizes of the statics and the ranges of the indices.\<close>

definition shell_inv :: "'d shell \<Rightarrow> bool" where
  "shell_inv s \<longleftrightarrow> length (input_buffer s) = 256 \<and> buffer_idx s \<le> 255 \<and>
     length (history s) = HISTORY_SIZE \<and> (\<forall>h \<in> set (history s). length h = 256) \<and>
     length (history_len s) = HISTORY_SIZE \<and> (\<forall>n \<in> set (history_len s). n \<le> 255) \<and>
     length (saved_line s) = 256 \<and> saved_line_len s \<le> 255 \<and>
     (history_nav s = -1 \<or> 0 \<le> history_nav s \<and> history_nav s < int (max_steps s))"

lemma history_slot_less: "history_slot k s < 8"
  by (simp add: history_slot_def nat_less_iff)

lemma inv_slot:
  assumes "shell_inv s" "i < 8"
  shows "history_len s ! i \<le> 255" "length (history s ! i) = 256"
  using assms by (simp_all add: shell_inv_def)

lemma history_load_line:
  assumes "shell_inv s"
  shows "buffer_idx (history_load k s) = history_len s ! history_slot k s"
    and "take (buffer_idx (history_load k s)) (input_buffer (history_load k s)) =
      take (history_len s ! history_slot k s) (history s ! history_slot k s)"
    and "length (input_buffer (history_load k s)) = 256"
  using inv_slot [OF assms history_slot_less, of k s] assms
  by (simp_all add: history_load_def Let_def length_overlay take_overlay shell_inv_def)

lemma max_steps_simps [simp]:
  "max_steps (history_load k s) = max_steps s" "max_steps (redraw_input_line n s) = max_steps s"
  "max_steps (s\<lparr>history_nav := v\<rparr>) = max_steps s" "max_steps (s\<lparr>input_buffer := b\<rparr>) = max_steps s"
  "max_steps (s\<lparr>saved_line := b\<rparr>) = max_steps s" "max_steps (s\<lparr>saved_line_len := n\<rparr>) = max_steps s"
  "max_steps (s\<lparr>mach := M\<rparr>) = max_steps s" "max_steps (s\<lparr>buffer_idx := n\<rparr>) = max_steps s"
  "max_steps (s\<lparr>keys := q\<rparr>) = max_steps s" "max_steps (shdo f s) = max_steps s" "max_steps (shprint msg s) = max_steps s"
  by (simp_all add: max_steps_def)

lemma inv_with_line:
  assumes "shell_inv s" "length b = 256" "n \<le> 255"
  shows "shell_inv (s\<lparr>input_buffer := b, buffer_idx := n\<rparr>)"
  using assms by (simp add: shell_inv_def)

lemma history_load_inv: "shell_inv s \<Longrightarrow> shell_inv (history_load k s)"
  using history_load_line(1,3) [of s k] inv_slot [OF _ history_slot_less, of s k s]
  by (simp add: shell_inv_def)

lemma history_up_inv:
  assumes "shell_inv s"
  shows "shell_inv (history_up s)"
proof (cases "history_count s = 0")
  case False
  then have "0 < max_steps s" by (simp add: max_steps_def)
  then have "shell_inv (s\<lparr>saved_line_len := buffer_idx s, saved_line := overlay (buffer_idx s) (input_buffer s) (saved_line s),
      history_nav := 0\<rparr>)" using assms by (simp add: shell_inv_def length_overlay)
  moreover have "shell_inv (s\<lparr>history_nav := history_nav s + 1\<rparr>)" if "history_nav s \<noteq> -1" "history_nav s + 1 < int (max_steps s)"
    using assms that by (simp add: shell_inv_def)
  ultimately show ?thesis using False assms by (simp add: history_up_def Let_def history_load_inv)
qed (use assms in \<open>simp add: history_up_def\<close>)

lemma history_down_inv:
  assumes "shell_inv s"
  shows "shell_inv (history_down s)"
proof -
  have "shell_inv (s\<lparr>history_nav := history_nav s - 1\<rparr>)" if "history_nav s \<noteq> -1" "history_nav s \<noteq> 0"
    using assms that by (auto simp: shell_inv_def)
  moreover have "shell_inv (redraw_input_line (saved_line_len s)
      (s\<lparr>history_nav := -1, input_buffer := overlay (saved_line_len s) (saved_line s) (input_buffer s)\<rparr>))"
    using assms by (simp add: shell_inv_def length_overlay)
  ultimately show ?thesis using assms by (simp add: history_down_def Let_def history_load_inv)
qed

lemma ball_list_update: "\<forall>x \<in> set xs. P x \<Longrightarrow> P v \<Longrightarrow> \<forall>x \<in> set (xs[i := v]). P x"
  using set_update_subset_insert [of xs i v] by auto

lemma max_steps_push [simp]: "max_steps (history_push cmd len s) = min 8 (history_count s + 1)"
  by (simp add: max_steps_def history_push_def Let_def)

lemma history_push_inv:
  assumes "shell_inv s" "len \<le> length cmd"
  shows "shell_inv (history_push cmd len s)"
proof -
  let ?i = "history_count s mod 8" and ?n = "if len > 255 then 255 else len"
  have h: "length (history s ! ?i) = 256" using inv_slot(2) [OF assms(1), of ?i] by simp
  have "history_nav s = -1 \<or> 0 \<le> history_nav s \<and> history_nav s < int (max_steps (history_push cmd len s))"
    using assms(1) unfolding max_steps_push by (auto simp: shell_inv_def max_steps_def split: if_splits)
  moreover have "\<forall>x \<in> set ((history s)[?i := overlay ?n cmd (history s ! ?i)]). length x = 256"
    using assms h by (intro ball_list_update) (simp_all add: shell_inv_def length_overlay)
  moreover have "\<forall>x \<in> set ((history_len s)[?i := ?n]). x \<le> 255"
    using assms by (intro ball_list_update) (simp_all add: shell_inv_def)
  ultimately show ?thesis using assms(1)
    by (simp only: shell_inv_def) (simp add: history_push_def Let_def)
qed

subsection \<open>The history is the list of the last eight lines\<close>

definition history_lines :: "'d shell \<Rightarrow> u8 list list" where
  "history_lines s = ring_list (\<lambda>i. take (history_len s ! i) (history s ! i)) HISTORY_SIZE
     (history_count s - max_steps s) (max_steps s)"

definition last_lines :: "'a list \<Rightarrow> 'a list" where
  "last_lines xs = drop (length xs - HISTORY_SIZE) xs"

lemma length_history_lines [simp]: "length (history_lines s) = max_steps s"
  by (simp add: history_lines_def)

lemma history_lines_cong:
  "history s' = history s \<Longrightarrow> history_len s' = history_len s \<Longrightarrow> history_count s' = history_count s \<Longrightarrow>
    history_lines s' = history_lines s"
  by (simp add: history_lines_def max_steps_def)

lemma ring_list_head: "ring_list f cap (head mod cap) n = ring_list f cap head n"
  by (simp add: ring_list_def mod_add_left_eq)

lemma history_lines_push:
  assumes "shell_inv s" "len \<le> length cmd"
  shows "history_lines (history_push cmd len s) = last_lines (history_lines s @ [take (min len 255) cmd])"
proof -
  let ?s = "history_push cmd len s" and ?c = "history_count s" and ?n = "min len 255"
  define f where "f = (\<lambda>i. take (history_len s ! i) (history s ! i))"
  define g where "g = (\<lambda>i. take (history_len ?s ! i) (history ?s ! i))"
  have n: "(if len > 255 then 255 else len) = ?n" by simp
  have l: "?c mod 8 < length (history s)" "?c mod 8 < length (history_len s)" using assms(1) by (simp_all add: shell_inv_def)
  have new: "g (?c mod 8) = take ?n cmd"
    using l assms(2) by (simp add: g_def history_push_def Let_def n take_overlay)
  have old: "g i = f i" if "i \<noteq> ?c mod 8" for i
    using that by (simp add: g_def f_def history_push_def Let_def)
  have hl: "history_lines ?s = ring_list g 8 (?c + 1 - min 8 (?c + 1)) (min 8 (?c + 1))"
    by (simp add: history_lines_def g_def history_push_def Let_def max_steps_def)
  show ?thesis
  proof (cases "?c < 8")
    case True
    have ne: "j \<noteq> ?c mod 8" if "j < ?c" for j using that True by simp
    have "ring_list g 8 0 (Suc ?c) = ring_list f 8 0 ?c @ [take ?n cmd]"
      using True new by (intro ring_list_push) (simp_all add: old ne)
    then show ?thesis using True hl by (simp add: history_lines_def f_def last_lines_def max_steps_def)
  next
    case False
    have "(?c - 7 + j) mod 8 \<noteq> ?c mod 8" if "j < 7" for j
      using ring_slots_distinct [of j 7 8 "?c - 7"] that False by simp
    then have g: "ring_list g 8 (?c - 7) (Suc 7) = ring_list f 8 (?c - 7) 7 @ [take ?n cmd]"
      using new False by (intro ring_list_push) (simp_all add: old)
    have "ring_list f 8 (?c - 8) (Suc 7) = f ((?c - 8) mod 8) # ring_list f 8 (?c - 7) 7"
      using ring_list_pop [of f 8 "?c - 8" 7] ring_list_head [of f 8 "Suc (?c - 8)" 7] False
        Suc_diff_le [of 8 ?c] by (simp del: Suc_diff_le)
    then have "history_lines s = f ((?c - 8) mod 8) # ring_list f 8 (?c - 7) 7"
      using False by (simp add: history_lines_def f_def max_steps_def)
    moreover have "history_lines ?s = ring_list f 8 (?c - 7) 7 @ [take ?n cmd]" using hl g False by (simp add: min_def)
    ultimately show ?thesis by (simp add: last_lines_def)
  qed
qed

lemma history_slot_line:
  assumes "k < max_steps s"
  shows "take (history_len s ! history_slot (int k) s) (history s ! history_slot (int k) s) =
    history_lines s ! (max_steps s - 1 - k)"
proof -
  let ?c = "history_count s" and ?m = "max_steps s"
  have c: "?m \<le> ?c" by (simp add: max_steps_def)
  have x: "?c - 1 - k = ?c - ?m + (?m - 1 - k)" using assms c by arith
  have "int ?c - 1 - int k + 8 = int (?c - 1 - k) + 8" using assms c by arith
  then have "history_slot (int k) s = nat ((int (?c - 1 - k) + 8) mod 8)" by (simp only: history_slot_def of_nat_numeral)
  also have "\<dots> = nat (int ((?c - 1 - k) mod 8))" unfolding zmod_int by simp
  also have "\<dots> = (?c - ?m + (?m - 1 - k)) mod 8" unfolding x by (rule nat_int)
  finally have sl: "history_slot (int k) s = (?c - ?m + (?m - 1 - k)) mod 8" .
  have "?m - 1 - k < ?m" using assms by arith
  then show ?thesis unfolding sl history_lines_def ring_list_def by (simp only: nth_map length_upt nth_upt) simp
qed

subsection \<open>The arrow keys\<close>

definition cur_line :: "'d shell \<Rightarrow> u8 list" where
  "cur_line s = take (buffer_idx s) (input_buffer s)"

lemma cur_line_load:
  assumes "shell_inv s" "k < max_steps s"
  shows "cur_line (history_load (int k) s) = history_lines s ! (max_steps s - 1 - k)"
  using history_load_line(2) [OF assms(1)] history_slot_line [OF assms(2)] by (simp add: cur_line_def)

lemma history_up_keeps [simp]:
  "history (history_up s) = history s" "history_len (history_up s) = history_len s" "history_count (history_up s) = history_count s"
  "max_steps (history_up s) = max_steps s"
  by (simp_all add: history_up_def Let_def max_steps_def)

lemma history_up_first:
  assumes "shell_inv s" "history_nav s = -1" "history_count s \<noteq> 0"
  shows "history_nav (history_up s) = 0" "cur_line (history_up s) = history_lines s ! (max_steps s - 1)"
    "take (saved_line_len (history_up s)) (saved_line (history_up s)) = cur_line s"
proof -
  let ?s = "s\<lparr>saved_line_len := buffer_idx s, saved_line := overlay (buffer_idx s) (input_buffer s) (saved_line s), history_nav := 0\<rparr>"
  have up: "history_up s = history_load (int 0) ?s" using assms by (simp add: history_up_def Let_def)
  have pos: "0 < max_steps s" using assms(3) by (simp add: max_steps_def)
  then have "shell_inv ?s" using assms(1) by (simp add: shell_inv_def length_overlay)
  from cur_line_load [OF this, of 0] pos show "cur_line (history_up s) = history_lines s ! (max_steps s - 1)"
    by (simp add: up history_lines_cong [of ?s s])
  show "history_nav (history_up s) = 0" by (simp add: up)
  show "take (saved_line_len (history_up s)) (saved_line (history_up s)) = cur_line s"
    using assms(1) by (simp add: up take_overlay shell_inv_def cur_line_def)
qed

lemma history_up_next:
  assumes "shell_inv s" "history_nav s = int k"
  shows "history_nav (history_up s) = int (min (k + 1) (max_steps s - 1))"
    "cur_line (history_up s) = history_lines s ! (max_steps s - 1 - min (k + 1) (max_steps s - 1))"
    "saved_line (history_up s) = saved_line s" "saved_line_len (history_up s) = saved_line_len s"
proof -
  let ?k = "min (k + 1) (max_steps s - 1)" and ?s = "s\<lparr>history_nav := int (min (k + 1) (max_steps s - 1))\<rparr>"
  have k: "k < max_steps s" using assms by (simp add: shell_inv_def)
  then have "history_count s \<noteq> 0" by (cases "history_count s = 0") (simp_all add: max_steps_def)
  then have up: "history_up s = history_load (int ?k) ?s"
  proof (cases "k + 1 < max_steps s")
    case True
    then have "min (k + 1) (max_steps s - 1) = k + 1" by simp
    moreover have "int k + 1 = int (k + 1)" by simp
    ultimately show ?thesis using True assms(2) \<open>history_count s \<noteq> 0\<close> by (simp only: history_up_def Let_def) simp
  next
    case False
    then have "min (k + 1) (max_steps s - 1) = k" using k by simp
    moreover have "s\<lparr>history_nav := int k\<rparr> = s" using assms(2) by simp
    ultimately show ?thesis using False assms(2) \<open>history_count s \<noteq> 0\<close> by (simp only: history_up_def Let_def) simp
  qed
  have "shell_inv ?s" "?k < max_steps ?s" using assms k by (auto simp: shell_inv_def)
  from cur_line_load [OF this] show "cur_line (history_up s) = history_lines s ! (max_steps s - 1 - ?k)"
    by (simp add: up history_lines_def)
  show "history_nav (history_up s) = int ?k" by (simp add: up)
qed (use assms in \<open>auto simp: history_up_def Let_def shell_inv_def\<close>)


lemma history_lines_up [simp]: "history_lines (history_up s) = history_lines s"
  by (rule history_lines_cong) simp_all

lemma history_up_presses:
  assumes "shell_inv s" "history_nav s = -1" "history_count s \<noteq> 0" "u = (history_up ^^ Suc n) s"
  shows "shell_inv u \<and> history_nav u = int (min n (max_steps s - 1)) \<and>
    cur_line u = history_lines s ! (max_steps s - 1 - min n (max_steps s - 1)) \<and> history_lines u = history_lines s \<and>
    max_steps u = max_steps s \<and> take (saved_line_len u) (saved_line u) = cur_line s"
  using assms(4)
proof (induction n arbitrary: u)
  case 0
  then show ?case using history_up_first [OF assms(1-3)] history_up_inv [OF assms(1)] by simp
next
  case (Suc n)
  let ?v = "(history_up ^^ Suc n) s"
  note v = Suc.IH [OF refl]
  have u: "u = history_up ?v" using Suc.prems by simp
  from v have "min (min n (max_steps s - 1) + 1) (max_steps ?v - 1) = min (Suc n) (max_steps s - 1)" by simp
  then show ?case
    using v history_up_next [of ?v "min n (max_steps s - 1)"] history_up_inv [of ?v] unfolding u by simp
qed

lemma history_down_presses:
  "shell_inv u \<Longrightarrow> history_nav u = int k \<Longrightarrow> d = (history_down ^^ Suc k) u \<Longrightarrow>
    history_nav d = -1 \<and> cur_line d = take (saved_line_len u) (saved_line u)"
proof (induction k arbitrary: u)
  case 0
  then show ?case by (simp add: history_down_def cur_line_def take_overlay shell_inv_def)
next
  case (Suc k)
  let ?v = "history_down u"
  have v: "?v = history_load (int k) (u\<lparr>history_nav := int k\<rparr>)" using Suc.prems(2) by (simp add: history_down_def Let_def)
  have "d = (history_down ^^ Suc k) ?v" using Suc.prems(3) by (simp only: funpow_Suc_right o_apply)
  then show ?case using Suc.IH [OF history_down_inv [OF Suc.prems(1)]] by (simp add: v)
qed

text \<open>Remark. The arrow keys walk the history and come back: while a line is being typed, the
  \<open>n\<close>-th press of the up arrow shows the \<open>n\<close>-th most recent line of the history, staying on the oldest one, and as
  many presses of the down arrow lead back to the line that was being typed.\<close>

theorem shell_arrows:
  assumes "shell_inv s" "history_nav s = -1" "history_count s \<noteq> 0" "0 < n" "u = (history_up ^^ n) s"
    "d = (history_down ^^ min n (max_steps s)) u"
  shows "cur_line u = rev (history_lines s) ! (min n (max_steps s) - 1) \<and> cur_line d = cur_line s \<and> history_nav d = -1"
proof -
  obtain k where k: "n = Suc k" using assms(4) by (cases n) auto
  have pos: "0 < max_steps s" using assms(3) by (simp add: max_steps_def)
  note u = history_up_presses [OF assms(1-3) assms(5) [unfolded k]]
  have m: "min n (max_steps s) = Suc (min k (max_steps s - 1))" using k pos by simp
  have "cur_line u = rev (history_lines s) ! (min n (max_steps s) - 1)"
    using u pos by (simp add: m rev_nth)
  moreover have "history_nav d = -1 \<and> cur_line d = cur_line s"
    using history_down_presses [of u "min k (max_steps s - 1)" d] u assms(6) by (simp add: m)
  ultimately show ?thesis by simp
qed


lemma boot_shell_inv: "shell_inv (boot_shell M)"
  by (simp add: shell_inv_def boot_shell_def)

theorem shell_arrows_witness:
  "cur_line (history_up (history_push (lit ''ls'') 2 (boot_shell (tiny_machine (new_fs 3))))) = lit ''ls''"
proof -
  let ?b = "boot_shell (tiny_machine (new_fs 3))"
  let ?s = "history_push (lit ''ls'') 2 ?b"
  have l: "length (lit ''ls'') = 2" by (simp add: lit_def)
  have i: "shell_inv ?s" using history_push_inv [OF boot_shell_inv, of 2 "lit ''ls''"] l by simp
  have c: "history_nav ?s = -1" "history_count ?s \<noteq> 0" "max_steps ?s = 1"
    by (simp_all add: history_push_def boot_shell_def Let_def max_steps_def)
  have "history_lines ?b = []" by (simp add: history_lines_def boot_shell_def max_steps_def)
  then have h: "history_lines ?s = [lit ''ls'']"
    using history_lines_push [OF boot_shell_inv [of "tiny_machine (new_fs 3)"], of 2 "lit ''ls''"] l
    by (simp add: last_lines_def)
  show ?thesis using shell_arrows [OF i c(1,2), of 1 "history_up ?s"] c(3) h by simp
qed

end
