(* ===== verification/Shell_Parse.thy ===== *)
theory Shell_Parse
  imports Shell_Line
begin

text \<open>
  The string routines and the parsers of \<open>kernel/shell.c\<close> against reference definitions on lists: comparison
  of strings, the splitting of a command line into words, and decimal numbers.
\<close>

subsection \<open>Comparison\<close>

lemma shell_strcmp_eq: "shell_strcmp s1 s2 = 0 \<longleftrightarrow> cname s1 = cname s2"
proof (induction s1 s2 rule: shell_strcmp.induct)
  case (1 c s1 s2)
  then show ?case by (cases s2) (auto simp: unsigned_eq_0_iff dest: unsigned_word_eqI)
next
  case (2 s2)
  then show ?case by (cases s2) (auto simp: unsigned_eq_0_iff)
qed

lemma m_strncmp_eq:
  "0 \<notin> set p \<Longrightarrow> m_strncmp s p (length p) = 0 \<longleftrightarrow> (\<exists>rest. cname s = p @ rest)"
proof (induction p arbitrary: s)
  case (Cons c p)
  then show ?case by (cases s) (auto simp: unsigned_eq_0_iff dest: unsigned_word_eqI)
qed simp

subsection \<open>Words\<close>

text \<open>The words of a line: the maximal runs of bytes other than spaces.\<close>

function words :: "u8 list \<Rightarrow> u8 list list" where
  "words [] = []"
| "words (c # cs) = (if c = 32 then words cs else (c # takeWhile (\<lambda>c. c \<noteq> 32) cs) # words (dropWhile (\<lambda>c. c \<noteq> 32) cs))"
  by pat_completeness auto
termination
  by (relation "measure length") (auto simp: length_dropWhile_le less_Suc_eq_le)

lemma words_spaces: "words (dropWhile (\<lambda>c. c = 32) cs) = words cs"
  by (induction cs) auto

text \<open>What is left of the string from index \<open>p\<close> on.\<close>

abbreviation rest :: "u8 list \<Rightarrow> nat \<Rightarrow> u8 list" where
  "rest b p \<equiv> cname (drop p b)"

lemma rest_step: "cbyte b p \<noteq> 0 \<Longrightarrow> rest b p = cbyte b p # rest b (p + 1)"
proof -
  assume c: "cbyte b p \<noteq> 0"
  then have p: "p < length b" by (rule cbyte_inside)
  with c show ?thesis by (subst Cons_nth_drop_Suc [OF p, symmetric]) (simp add: cbyte_def)
qed

lemma rest_end: "cbyte b p = 0 \<Longrightarrow> rest b p = []"
proof (cases "p < length b")
  case True
  assume "cbyte b p = 0"
  then show ?thesis using True by (subst Cons_nth_drop_Suc [OF True, symmetric]) (simp add: cbyte_def)
qed simp

lemma skip_spaces_rest: "rest b (skip_spaces b p) = dropWhile (\<lambda>c. c = 32) (rest b p) \<and> p \<le> skip_spaces b p"
proof (induction b p rule: skip_spaces.induct)
  case (1 b p)
  show ?case
  proof (cases "cbyte b p = 32")
    case True
    then show ?thesis using 1 rest_step [of b p] by (simp add: skip_spaces.simps [of b p])
  next
    case False
    then show ?thesis using rest_step [of b p] rest_end [of b p]
      by (cases "cbyte b p = 0") (simp_all add: skip_spaces.simps [of b p])
  qed
qed

lemma skip_word_rest:
  "rest b (skip_word b p) = dropWhile (\<lambda>c. c \<noteq> 32) (rest b p) \<and> p \<le> skip_word b p \<and>
    take (skip_word b p - p) (drop p b) = takeWhile (\<lambda>c. c \<noteq> 32) (rest b p) \<and>
    (cbyte b (skip_word b p) = 0 \<or> cbyte b (skip_word b p) = 32)"
proof (induction b p rule: skip_word.induct)
  case (1 b p)
  show ?case
  proof (cases "cbyte b p \<noteq> 0 \<and> cbyte b p \<noteq> 32")
    case True
    then have p: "p < length b" by (blast intro: cbyte_inside)
    have q: "skip_word b p = skip_word b (p + 1)" using True by (simp add: skip_word.simps [of b p])
    note IH = 1 [OF True]
    then have "take (skip_word b p - p) (drop p b) = b ! p # take (skip_word b (p + 1) - (p + 1)) (drop (p + 1) b)"
      unfolding q by (subst Cons_nth_drop_Suc [OF p, symmetric]) (simp add: take_Cons')
    then show ?thesis using IH True rest_step [of b p] p by (simp add: q cbyte_def)
  next
    case False
    then show ?thesis using rest_step [of b p] rest_end [of b p]
      by (cases "cbyte b p = 0") (simp_all add: skip_word.simps [of b p])
  qed
qed

lemma words_first: "cs \<noteq> [] \<Longrightarrow> hd cs \<noteq> 32 \<Longrightarrow>
    words cs = takeWhile (\<lambda>c. c \<noteq> 32) cs # words (dropWhile (\<lambda>c. c \<noteq> 32) cs)"
  by (cases cs) simp_all

lemma skip_spaces_stop: "cbyte b (skip_spaces b p) \<noteq> 32"
  by (induction b p rule: skip_spaces.induct) (subst skip_spaces.simps, simp)

lemma cname_stop: "0 \<notin> set w \<Longrightarrow> cname (w @ 0 # v) = w"
  by (induction w) auto

lemma cname_no_zero: "0 \<notin> set (cname v)"
  by (induction v) auto

lemma tp: "take (q + 1) b' = take q b @ [v] \<Longrightarrow> p \<le> q \<Longrightarrow> q \<le> length b \<Longrightarrow> take p b' = take p b"
proof -
  assume a: "take (q + 1) b' = take q b @ [v]" "p \<le> q" "q \<le> length b"
  have "take p b' = take p (take (q + 1) b')" using a(2) by simp
  also have "\<dots> = take p (take q b @ [v])" by (simp only: a(1))
  also have "\<dots> = take p b" using a(2,3) by simp
  finally show ?thesis .
qed

text \<open>The loop of \<open>exec\<close>, from a place where a word starts or the line ends.\<close>

lemma exec_args_words:
  "exec_args b p argv = (b', argv') \<Longrightarrow> cbyte b p \<noteq> 32 \<Longrightarrow>
    \<exists>ps. argv' = argv @ ps \<and> map (rest b') ps = take (EXEC_MAX_ARGS - length argv) (words (rest b p)) \<and>
      take p b' = take p b \<and> length b' = length b"
proof (induction b p argv arbitrary: b' argv' rule: exec_args.induct)
  case (1 b p argv)
  show ?case
  proof (cases "cbyte b p \<noteq> 0 \<and> length argv < 8")
    case False
    then have "b' = b" "argv' = argv" using "1.prems"(1) by (auto simp: exec_args.simps [of b p argv])
    then show ?thesis using False rest_end [of b p] by (cases "cbyte b p = 0") auto
  next
    case True
    define q where "q = skip_word b p"
    note w = skip_word_rest [of b p, folded q_def]
    have r: "rest b p \<noteq> []" "hd (rest b p) \<noteq> 32" using True rest_step [of b p] "1.prems"(2) by simp_all
    note first = words_first [OF r]
    obtain n where n: "8 - length argv = Suc n" using True by (metis Suc_diff_Suc)
    then have n7: "7 - length argv = n" by simp
    show ?thesis
    proof (cases "cbyte b q = 32")
      case sp: True
      define b1 where "b1 = b[q := 0]"
      define p1 where "p1 = skip_spaces b1 (q + 1)"
      have len: "q < length b" using cbyte_inside [of b q] sp by simp
      have d: "drop (q + 1) b1 = drop (q + 1) b" by (simp add: b1_def)
      have s: "rest b1 p1 = dropWhile (\<lambda>c. c = 32) (rest b (q + 1))" "q + 1 \<le> p1"
        using skip_spaces_rest [of b1 "q + 1"] unfolding p1_def [symmetric] d by simp_all
      have ns: "cbyte b1 p1 \<noteq> 32" by (simp add: p1_def skip_spaces_stop)
      have ex: "exec_args b1 p1 (argv @ [p]) = (b', argv')"
        using "1.prems"(1) True sp by (simp add: exec_args.simps [of b p argv] Let_def q_def b1_def p1_def)
      from "1.IH"(1) [OF True refl q_def _ b1_def _ ns [unfolded p1_def]] ex sp
      obtain ps where ps: "argv' = argv @ p # ps" "map (rest b') ps = take n (words (rest b1 p1))"
        "take p1 b' = take p1 b1" "length b' = length b"
        using n7 by (auto simp: p1_def b1_def)
      have w2: "words (rest b q) = words (rest b1 p1)" using s(1) rest_step [of b q] sp by (simp add: words_spaces)
      have "take (q + 1) b' = take (q + 1) b1" using ps(3) s(2) by (metis min.absorb1 take_take)
      then have tq: "take (q + 1) b' = take q b @ [0]" using len by (simp add: b1_def take_Suc_conv_app_nth)
      then have "b' = take q b @ 0 # drop (q + 1) b'" by (metis append_take_drop_id append_assoc append_Cons append_Nil)
      then have "drop p b' = drop p (take q b) @ 0 # drop (q + 1) b'"
        using w len by (metis diff_is_0_eq drop0 drop_append length_take less_imp_le min.absorb2)
      moreover have "drop p (take q b) = takeWhile (\<lambda>c. c \<noteq> 32) (rest b p)" using w by (simp add: drop_take)
      ultimately have "rest b' p = takeWhile (\<lambda>c. c \<noteq> 32) (rest b p)"
        using cname_stop [of "takeWhile (\<lambda>c. c \<noteq> 32) (rest b p)"] set_takeWhileD by (metis cname_no_zero)
      moreover have "take p b' = take p b"
        using tq w len tp [of q b' b 0 p] by simp
      ultimately show ?thesis using ps first w w2 n by (intro exI [of _ "p # ps"]) simp
    next
      case False
      then have z: "cbyte b q = 0" using w by blast
      then have "exec_args b q (argv @ [p]) = (b, argv @ [p])" by (simp add: exec_args.simps [of b q])
      then have "b' = b" "argv' = argv @ [p]"
        using "1.prems"(1) True False by (simp_all add: exec_args.simps [of b p argv] Let_def q_def)
      moreover have dw: "dropWhile (\<lambda>c. c \<noteq> 32) (rest b p) = []" using rest_end [OF z] w by simp
      have "takeWhile (\<lambda>c. c \<noteq> 32) (rest b p) = rest b p"
        using dw takeWhile_dropWhile_id [of "\<lambda>c. c \<noteq> 32" "rest b p"] by (simp only: append_Nil2)
      with first have "words (rest b p) = [rest b p]" by (simp only: dw words.simps)
      ultimately show ?thesis using n by (intro exI [of _ "[p]"]) simp
    qed
  qed
qed

text \<open>C40. The in-place splitting of the line by the command \<open>exec\<close> computes the words of the
  line: the strings that the pointers designate afterwards are the first eight words behind the command, and
  the buffer keeps its size.\<close>

theorem shell_exec_words:
  "case exec_args b (skip_spaces b p) [] of (b', argv) \<Rightarrow>
     map (\<lambda>q. cname (drop q b')) argv = take 8 (words (cname (drop p b))) \<and> length b' = length b"
proof -
  obtain b' argv where e: "exec_args b (skip_spaces b p) [] = (b', argv)" by fastforce
  from exec_args_words [OF e skip_spaces_stop] skip_spaces_rest [of b p] show ?thesis by (auto simp: e words_spaces)
qed

subsection \<open>Numbers\<close>

lemma mod_digit: "((y mod m) * 10 + d) mod m = (y * 10 + d) mod m" for y m d :: int
  by (metis mod_add_left_eq mod_mult_left_eq)

lemma wrap_digit: "signed_take_bit 31 (signed_take_bit 31 x * 10 + d) = signed_take_bit 31 (x * 10 + d)" for x d :: int
proof -
  have "take_bit 32 (signed_take_bit 31 x * 10 + d) = take_bit 32 (take_bit 32 (signed_take_bit 31 x) * 10 + d)"
    by (simp only: take_bit_eq_mod mod_digit)
  also have "take_bit 32 (signed_take_bit 31 x) = take_bit 32 x"
    by (rule take_bit_signed_take_bit) simp
  also have "take_bit 32 (take_bit 32 x * 10 + d) = take_bit 32 (x * 10 + d)"
    by (simp only: take_bit_eq_mod mod_digit)
  finally show ?thesis by (simp add: signed_take_bit_eq_iff_take_bit_eq)
qed

abbreviation dec_step :: "int \<Rightarrow> u8 \<Rightarrow> int" where
  "dec_step n c \<equiv> n * 10 + (int (unat c) - 48)"

lemma wrap_digits: "signed_take_bit 31 (foldl dec_step (signed_take_bit 31 x) ds) = signed_take_bit 31 (foldl dec_step x ds)"
proof (induction ds arbitrary: x)
  case (Cons c ds)
  have "signed_take_bit 31 (foldl dec_step (dec_step (signed_take_bit 31 x) c) ds) =
      signed_take_bit 31 (foldl dec_step (signed_take_bit 31 (dec_step (signed_take_bit 31 x) c)) ds)" by (simp only: Cons)
  also have "\<dots> = signed_take_bit 31 (foldl dec_step (signed_take_bit 31 (dec_step x c)) ds)" by (simp only: wrap_digit)
  also have "\<dots> = signed_take_bit 31 (foldl dec_step (dec_step x c) ds)" by (simp only: Cons)
  finally show ?case by simp
qed simp

lemma read_num_rest:
  "signed_take_bit 31 v = v \<Longrightarrow> ds = takeWhile is_digit (rest b p) \<Longrightarrow>
    read_num b p v = (signed_take_bit 31 (foldl dec_step v ds), p + length ds)"
proof (induction b p v arbitrary: ds rule: read_num.induct)
  case (1 b p v)
  show ?case
  proof (cases "is_digit (cbyte b p)")
    case True
    then have "cbyte b p \<noteq> 0" by (auto simp: is_digit_def)
    then have ds: "ds = cbyte b p # takeWhile is_digit (rest b (p + 1))" using "1.prems"(2) rest_step [of b p] True by simp
    let ?v = "signed_take_bit 31 (dec_step v (cbyte b p))"
    have "read_num b p v = read_num b (p + 1) ?v" using True by (simp add: read_num.simps [of b p v])
    also have "\<dots> = (signed_take_bit 31 (foldl dec_step ?v (takeWhile is_digit (rest b (p + 1)))),
        p + 1 + length (takeWhile is_digit (rest b (p + 1))))" by (rule "1.IH" [OF True _ refl]) simp
    finally show ?thesis by (simp only: wrap_digits ds foldl_Cons) simp
  next
    case False
    then have "ds = []" using "1.prems"(2) rest_step [of b p] rest_end [of b p] by (cases "cbyte b p = 0") auto
    then show ?thesis using False "1.prems"(1) by (simp add: read_num.simps [of b p v])
  qed
qed

lemma dec_step_value:
  "\<forall>c \<in> set ds. is_digit c \<Longrightarrow> foldl dec_step (int n) ds = int (foldl (\<lambda>n c. n * 10 + (unat c - 48)) n ds)"
proof (induction ds arbitrary: n)
  case (Cons c ds)
  then have "48 \<le> unat c" by (simp add: is_digit_def word_le_nat_alt)
  then have "dec_step (int n) c = int (n * 10 + (unat c - 48))" by simp
  then show ?case using Cons.IH [of "n * 10 + (unat c - 48)"] Cons.prems by (simp only: foldl_Cons) simp
qed simp

text \<open>A number below 2\<open>^\<close>31 is read as its decimal value.\<close>

lemma read_num_dec:
  assumes "dec_value (takeWhile is_digit (rest b p)) < 2 ^ 31"
  shows "fst (read_num b p 0) = int (dec_value (takeWhile is_digit (rest b p)))"
proof -
  let ?ds = "takeWhile is_digit (rest b p)"
  have "foldl dec_step (int 0) ?ds = int (dec_value ?ds)"
    unfolding dec_value_def by (rule dec_step_value) (metis set_takeWhileD)
  then show ?thesis using read_num_rest [of 0 ?ds p b] assms by (simp add: signed_take_bit_int_eq_self)
qed

end
