(* ===== verification/Shell_History.thy ===== *)
theory Shell_History
  imports Shell_Parse
begin

text \<open>
  Persistence of the command history: the text that \<open>history_save\<close> writes, what \<open>history_load_from_disk\<close>
  makes of it, and the round trip through the disk and a restart.
\<close>

subsection \<open>The text of the history\<close>

definition history_text :: "u8 list list \<Rightarrow> u8 list" where
  "history_text ls = concat (map (\<lambda>l. l @ [10]) ls)"

lemma history_text_simps [simp]:
  "history_text [] = []" "history_text (l # ls) = l @ 10 # history_text ls"
  "history_text (ls @ ls') = history_text ls @ history_text ls'"
  by (simp_all add: history_text_def)

lemma take_take_append: "take n (take n xs @ ys) = take n (xs @ ys)"
  by (cases "n \<le> length xs") simp_all

lemma save_line:
  assumes "length buf \<le> 2047" "n \<le> length h"
  shows "(let b = buf @ take (min n (2047 - length buf)) h in if length b < 2047 then b @ [10] else b) =
    take 2047 (buf @ take n h @ [10])"
  using assms by (auto simp: Let_def min_def)

lemma save_loop_text:
  assumes "shell_inv s"
  shows "n \<le> max_steps s \<Longrightarrow> length buf \<le> 2047 \<Longrightarrow>
    save_loop s n buf = take 2047 (buf @ history_text (drop (max_steps s - n) (history_lines s)))"
proof (induction n arbitrary: buf)
  case (Suc n)
  let ?m = "max_steps s" and ?i = "history_slot (int n) s"
  let ?l = "take (history_len s ! ?i) (history s ! ?i)"
  have l: "?l = history_lines s ! (?m - 1 - n)" using Suc.prems by (intro history_slot_line) simp
  have "?m - Suc n < length (history_lines s)" using Suc.prems by simp
  from Cons_nth_drop_Suc [OF this] have d: "drop (?m - Suc n) (history_lines s) = ?l # drop (?m - n) (history_lines s)"
    using l Suc.prems by (simp add: Suc_diff_Suc)
  let ?b = "take 2047 (buf @ ?l @ [10])"
  have "save_loop s (Suc n) buf = save_loop s n ?b"
    using save_line [OF Suc.prems(2), of "history_len s ! ?i" "history s ! ?i"] inv_slot [OF assms history_slot_less, of "int n" s]
    by (simp add: Let_def)
  also have "\<dots> = take 2047 (?b @ history_text (drop (?m - n) (history_lines s)))" using Suc.prems by (intro Suc.IH) simp_all
  also have "\<dots> = take 2047 ((buf @ ?l @ [10]) @ history_text (drop (?m - n) (history_lines s)))" by (rule take_take_append)
  finally show ?case by (simp add: d)
qed (simp add: history_text_def)

subsection \<open>Reading the text back\<close>

lemma history_push_take: "history_push (take len cmd) len s = history_push cmd len s"
  by (simp add: history_push_def overlay_def Let_def min_def)

lemma line_loop_scan:
  "i \<le> e \<Longrightarrow> e \<le> n \<Longrightarrow> (\<And>j. i \<le> j \<Longrightarrow> j < e \<Longrightarrow> buf ! j \<noteq> 10) \<Longrightarrow> line_loop buf n start i s = line_loop buf n start e s"
proof (induction "e - i" arbitrary: i)
  case (Suc d)
  then have lt: "i < e" "i \<le> n" "i \<noteq> n" by simp_all
  then have "buf ! i \<noteq> 10" using Suc.prems(3) [of i] by simp
  with lt have "line_loop buf n start i s = line_loop buf n start (i + 1) s" by (subst line_loop.simps) simp
  also have "\<dots> = line_loop buf n start e s"
  proof (rule Suc.hyps(1))
    show "d = e - (i + 1)" using Suc.hyps(2) by simp
    show "buf ! j \<noteq> 10" if "i + 1 \<le> j" "j < e" for j using Suc.prems(3) [of j] that by simp
  qed (use lt Suc.prems in simp_all)
  finally show ?case .
qed simp

text \<open>From the start of a line to its end.\<close>

lemma line_loop_line:
  assumes "10 \<notin> set l" "buf = pre @ l @ z" "e = length pre + length l" "e = n \<or> e < n \<and> buf ! e = 10"
  shows "line_loop buf n (length pre) (length pre) s =
    line_loop buf n (e + 1) (e + 1) (if l \<noteq> [] then history_push l (length l) s else s)"
proof -
  have "buf ! j \<noteq> 10" if j: "length pre \<le> j" "j < e" for j
  proof -
    have "buf ! j = l ! (j - length pre)" "j - length pre < length l" using j assms(2,3) by (auto simp: nth_append)
    then show ?thesis using assms(1) nth_mem by metis
  qed
  then have "line_loop buf n (length pre) (length pre) s = line_loop buf n (length pre) e s"
    using assms by (intro line_loop_scan) auto
  also have "\<dots> = line_loop buf n (e + 1) (e + 1)
      (if e > length pre then history_push (drop (length pre) buf) (e - length pre) s else s)"
    using assms(4) by (subst line_loop.simps) auto
  also have "history_push (drop (length pre) buf) (e - length pre) s = history_push l (length l) s"
    using history_push_take [of "length l" "drop (length pre) buf" s] assms(2,3) by simp
  finally show ?thesis using assms(3) by auto
qed

definition push_line :: "u8 list \<Rightarrow> 'd shell \<Rightarrow> 'd shell" where
  "push_line l s = history_push l (length l) s"

lemma line_loop_text:
  "\<forall>l \<in> set ls. l \<noteq> [] \<and> 10 \<notin> set l \<Longrightarrow> 10 \<notin> set w \<Longrightarrow> buf = pre @ history_text ls @ w @ z \<Longrightarrow>
    n = length pre + length (history_text ls) + length w \<Longrightarrow>
    line_loop buf n (length pre) (length pre) s = fold push_line (ls @ (if w = [] then [] else [w])) s"
proof (induction ls arbitrary: pre s)
  case Nil
  let ?t = "if w \<noteq> [] then history_push w (length w) s else s"
  have "line_loop buf n (n + 1) (n + 1) ?t = ?t" by (subst line_loop.simps) simp
  then show ?case using line_loop_line [of w buf pre z n n s] Nil.prems by (simp add: push_line_def)
next
  case (Cons l ls)
  let ?pre = "pre @ l @ [10]"
  have "line_loop buf n (length pre) (length pre) s = line_loop buf n (length ?pre) (length ?pre) (push_line l s)"
    using line_loop_line [of l buf pre "10 # history_text ls @ w @ z" "length pre + length l" n s] Cons.prems
    by (simp add: push_line_def nth_append)
  also have "\<dots> = fold push_line (ls @ (if w = [] then [] else [w])) (push_line l s)"
    using Cons.prems by (intro Cons.IH) simp_all
  finally show ?case by simp
qed

lemma push_line_inv: "shell_inv s \<Longrightarrow> shell_inv (push_line l s)"
  by (simp add: push_line_def history_push_inv)

lemma last_lines_append: "last_lines (last_lines xs @ ys) = last_lines (xs @ ys)"
proof (cases "length xs \<le> 8")
  case False
  then have "length xs + length ys - 8 = length ys + (length xs - 8)" by simp
  then show ?thesis using False by (simp add: last_lines_def)
qed (simp add: last_lines_def)

lemma push_lines:
  "shell_inv s \<Longrightarrow> \<forall>l \<in> set ls. length l \<le> 255 \<Longrightarrow>
    shell_inv (fold push_line ls s) \<and> history_lines (fold push_line ls s) = last_lines (history_lines s @ ls)"
proof (induction ls arbitrary: s)
  case Nil
  have "max_steps s \<le> 8" by (simp add: max_steps_def)
  then show ?case using Nil by (simp add: last_lines_def)
next
  case (Cons l ls)
  have "history_lines (push_line l s) = last_lines (history_lines s @ [l])"
    using history_lines_push [OF Cons.prems(1), of "length l" l] Cons.prems(2) by (simp add: push_line_def)
  then show ?case using Cons.IH [OF push_line_inv [OF Cons.prems(1)]] Cons.prems(2) by (simp add: last_lines_append)
qed

subsection \<open>Through the disk\<close>

definition lines_ok :: "u8 list list \<Rightarrow> bool" where
  "lines_ok ls \<longleftrightarrow> length ls \<le> HISTORY_SIZE \<and> (\<forall>l \<in> set ls. l \<noteq> [] \<and> 0 \<notin> set l \<and> 10 \<notin> set l \<and> length l \<le> 255)"

lemma length_history_text: "\<forall>l \<in> set ls. length l \<le> 255 \<Longrightarrow> length (history_text ls) \<le> 256 * length ls"
  by (induction ls) auto

text \<open>Cutting the text at 2047 bytes loses at most the newline behind the last line.\<close>

lemma text_cut:
  assumes "lines_ok ls"
  obtains ls' w where "ls = ls' @ (if w = [] then [] else [w])" "take 2047 (history_text ls) = history_text ls' @ w" "10 \<notin> set w"
proof (cases "length (history_text ls) \<le> 2047")
  case True
  then show thesis using that [of ls "[]"] by simp
next
  case False
  then have "ls \<noteq> []" by auto
  then have ls: "ls = butlast ls @ [last ls]" by simp
  have t: "history_text ls = (history_text (butlast ls) @ last ls) @ [10]" by (subst ls) simp
  have "length (history_text ls) \<le> 2048"
    using length_history_text [of ls] assms by (fastforce simp: lines_ok_def)
  then have "length (history_text (butlast ls) @ last ls) = 2047" using False t by simp
  then have "take 2047 (history_text ls) = history_text (butlast ls) @ last ls" by (subst t) simp
  moreover have "last ls \<noteq> []" "10 \<notin> set (last ls)" using assms \<open>ls \<noteq> []\<close> by (simp_all add: lines_ok_def)
  ultimately show thesis using that [of "butlast ls" "last ls"] ls by simp
qed

lemma text_no_zero: "lines_ok ls \<Longrightarrow> 0 \<notin> set (take 2047 (history_text ls))"
  by (auto simp: lines_ok_def history_text_def dest!: in_set_takeD split: if_splits)

lemma trim_from_text:
  "0 \<notin> set t \<Longrightarrow> i \<le> length t \<Longrightarrow> length t \<le> i + m \<Longrightarrow> i + m \<le> length t + k \<Longrightarrow>
    trim_from (t @ replicate k 0) i m = length t"
proof (induction m arbitrary: i)
  case (Suc m)
  show ?case
  proof (cases "i = length t")
    case True
    then show ?thesis using Suc.prems(4) by (simp add: nth_append)
  next
    case False
    then have "(t @ replicate k 0) ! i \<noteq> 0" using Suc.prems by (auto simp: nth_append) (metis nth_mem le_neq_implies_less)
    then show ?thesis using Suc False by simp
  qed
qed simp

lemma fs_console [simp]:
  "fs_ok content rdy (f\<lparr>fcon := c\<rparr>) = fs_ok content rdy f" "file_map content (f\<lparr>fcon := c\<rparr>) = file_map content f"
  by (simp add: fs_ok_def on_disk_def) (rule file_map_cong, simp_all)

lemma load_static_text:
  assumes "fs_disk io content rdy" "fs_ok content rdy (fsys (mach s))" "nm \<noteq> []" "0 \<notin> set nm"
    "file_map content (fsys (mach s)) nm = Some (padded t)" "buf_at \<noteq> 0" "0 \<notin> set t"
    "length (padded t) \<le> cap" "cap < 2 ^ 32"
  shows "\<exists>M. load_static io nm buf_at cap s = (Some (t @ replicate (cap - length t) 0, length t), s\<lparr>mach := M\<rparr>)"
proof -
  let ?f = "(fsys (mach s))\<lparr>fcon := kscreen (kern (mach s))\<rparr>"
  have ok: "fs_ok content rdy ?f" "file_map content ?f nm = Some (padded t)"
    using assms(2,5) by simp_all
  have len: "length t \<le> length (padded t)" by (simp add: padded_def)
  have "length (padded t) \<le> unat (of_nat cap :: u32)" using assms(8,9) by (simp only: unat_u32)
  from fs_disk.load_result [OF assms(1) ok(1) conjI [OF assms(3,4)] ok(2) assms(6) this] obtain d where
    d: "fs_load_file io (Some nm) buf_at (of_nat cap) ?f = (Some (of_nat (length (padded t))), padded t, ?f\<lparr>disk := d\<rparr>)" by blast
  have u: "unat (of_nat (length (padded t)) :: u32) = length (padded t)" using assms(8,9) by (intro unat_u32) simp
  have b: "overlay (length (padded t)) (padded t) (replicate cap 0) = t @ replicate (cap - length t) 0"
    using assms(8) len by (simp add: overlay_def padded_def flip: replicate_add)
  have "trim_to_first_nul (t @ replicate (cap - length t) 0) (length (padded t)) = length t"
    unfolding trim_to_first_nul_def using assms(7,8) len by (intro trim_from_text) simp_all
  then show ?thesis using d b u by (auto simp: load_static_def shfs_def with_fs_def Let_def)
qed

lemma history_name: "HISTORY_FILE \<noteq> []" "0 \<notin> set HISTORY_FILE" "length HISTORY_FILE \<le> 23"
  by (simp_all add: HISTORY_FILE_def lit_def)

text \<open>What \<open>history_save\<close> leaves on the disk: the text of the history, or no history file when there is no room.\<close>

lemma history_save_result:
  assumes "fs_disk io content rdy" "fs_ok content rdy (fsys (mach s))" "shell_inv s" "history_count s \<noteq> 0"
    "lines_ok (history_lines s)" "t = take 2047 (history_text (history_lines s))"
  shows "\<exists>r M. history_save io s = s\<lparr>mach := M\<rparr> \<and> fs_ok content rdy (fsys M) \<and>
    file_map content (fsys M) = (file_map content (fsys (mach s)))(HISTORY_FILE := if r then Some (padded t) else None) \<and>
    (file_map content (fsys (mach s)) HISTORY_FILE = None \<longrightarrow>
      (r \<longleftrightarrow> (\<exists>k. free_at (bitmap (fsys (mach s))) (sectors_for (length t)) k) \<and>
        (\<exists>e \<in> set (files (root (fsys (mach s)))). \<not> used e)))"
proof -
  have t: "save_loop s (max_steps s) [] = t" using save_loop_text [OF assms(3), of "max_steps s" "[]"] assms(6) by simp
  have "history_lines s \<noteq> []" using assms(4) by (metis length_0_conv length_history_lines max_steps_def zero_neq_numeral)
  then have "history_text (history_lines s) \<noteq> []" by (cases "history_lines s") simp_all
  then have pos: "0 < length t" "length t \<le> 2047" using assms(6) by simp_all
  let ?f = "(fsys (mach s))\<lparr>fcon := kscreen (kern (mach s))\<rparr>" and ?n = "of_nat (length t) :: u32"
  have u: "unat ?n = length t" using pos by (intro unat_u32) simp
  have sz: "?n \<noteq> 0" "unat ?n + 511 < 2 ^ 32" "unat ?n \<le> length t" using u pos by (auto simp: word_unat_eq_iff)
  have "fs_ok content rdy ?f" using assms(2) by simp
  from fs_disk.delete_result [OF assms(1) this conjI [OF history_name(1,2)], of False] obtain b f1 where
    f1: "fs_delete_file_impl io (Some HISTORY_FILE) False ?f = (b, f1)" "fs_ok content rdy f1"
      "file_map content f1 = (file_map content (fsys (mach s)))(HISTORY_FILE := None)" by auto
  let ?g = "f1\<lparr>fcon := fcon f1\<rparr>"
  have g: "fs_ok content rdy ?g" using f1(2) by simp
  from fs_disk.write_result_fs [OF assms(1) g conjI [OF history_name(1,2)] history_name(3) sz, of False] obtain r f2 g1 where
    f2: "fs_write_file_impl io (Some HISTORY_FILE) (Some t) ?n False ?g = (r, f2)" "fs_ok content rdy f2"
      "file_map content f2 = (file_map content ?g)(HISTORY_FILE := if r then Some (padded (take (unat ?n) t)) else None)"
      "g1 = (if file_map content ?g HISTORY_FILE = None then ?g else snd (fs_delete_file_impl io (Some HISTORY_FILE) False ?g))"
      "r \<longleftrightarrow> (\<exists>k. free_at (bitmap g1) (sectors_for (unat ?n)) k) \<and> (\<exists>e \<in> set (files (root g1)). \<not> used e)" by blast
  have room: "r \<longleftrightarrow> (\<exists>k. free_at (bitmap (fsys (mach s))) (sectors_for (length t)) k) \<and>
        (\<exists>e \<in> set (files (root (fsys (mach s)))). \<not> used e)" if new: "file_map content (fsys (mach s)) HISTORY_FILE = None"
  proof -
    have "find_entry HISTORY_FILE 0 (files (root (fsys (mach s)))) = None"
      using fs_disk.file_map_None_iff [OF assms(1,2) history_name(2)] new by simp
    then have "fs_delete_file_impl io (Some HISTORY_FILE) False ?f = (False, ?f)"
      using no_name_iff(1) [of HISTORY_FILE] cname_id [OF history_name(2)] history_name(1)
      by (simp add: fs_delete_file_impl_def not_found_def)
    then have "f1 = ?f" using f1(1) by simp
    moreover have "file_map content ?g HISTORY_FILE = None" using f1(3) by simp
    ultimately show ?thesis using f2(4,5) unfolding u by simp
  qed
  have "history_save io s = s\<lparr>mach := (mach s)\<lparr>fsys := f2, kern := (kern (mach s))\<lparr>kscreen := fcon f2\<rparr>\<rparr>\<rparr>"
    using f1(1) f2(1) pos by (simp add: history_save_def t shfs_def with_fs_def fs_delete_file_silent_def fs_write_file_silent_def)
  then show ?thesis using f2(2,3) f1(3) u room by (intro exI [of _ r] exI conjI) auto
qed

text \<open>C38. The history survives a restart: when \<open>history_save\<close> has found room for the
  file, the disk is then mounted by a new session and \<open>history_load_from_disk\<close> runs on the fresh statics,
  the new session's history is the old one, line by line; also when eight full lines of 255 bytes do not
  leave room for the last newline.\<close>

theorem shell_history_persists:
  assumes "fs_disk io content rdy" "fs_ok content rdy (fsys (mach s))" "shell_inv s" "history_count s \<noteq> 0"
    "lines_ok (history_lines s)" "fs_file_exists (Some HISTORY_FILE) (fsys (mach (history_save io s)))"
    "disk f0 = disk (fsys (mach (history_save io s)))" "geometry f0" "fsys M0 = fs_init io f0" "history_buf_at L \<noteq> 0"
  shows "history_lines (history_load_from_disk L io (boot_shell M0)) = history_lines s"
proof -
  define t where "t = take 2047 (history_text (history_lines s))"
  from history_save_result [OF assms(1-5) t_def] obtain r M where sv: "history_save io s = s\<lparr>mach := M\<rparr>"
    "fs_ok content rdy (fsys M)"
    "file_map content (fsys M) = (file_map content (fsys (mach s)))(HISTORY_FILE := if r then Some (padded t) else None)" by blast
  note nm = conjI [OF history_name(1,2)]
  have "file_map content (fsys M) HISTORY_FILE = Some (padded t)"
    using fs_disk.exists_iff [OF assms(1) sv(2) nm] assms(6) sv(1,3) by (auto split: if_splits)
  moreover have "disk f0 = disk (fsys M)" using sv(1) assms(7) by simp
  note fs_mounted [OF assms(1) sv(2) this assms(8)]
  ultimately have M0: "fs_ok content rdy (fsys M0)" "file_map content (fsys M0) HISTORY_FILE = Some (padded t)"
    using assms(9) by simp_all
  let ?b = "boot_shell M0"
  have b: "mach ?b = M0" by (simp add: boot_shell_def)
  have z: "0 \<notin> set t" using text_no_zero [OF assms(5)] by (simp add: t_def)
  have "length t \<le> 2047" by (simp add: t_def)
  then have "length (padded t) \<le> 2048" unfolding length_padded by simp
  from load_static_text [OF assms(1) _ history_name(1,2) _ assms(10) z this, of ?b] M0 b obtain M1 where
    ld: "load_static io HISTORY_FILE (history_buf_at L) 2048 ?b = (Some (t @ replicate (2048 - length t) 0, length t), ?b\<lparr>mach := M1\<rparr>)"
    by auto
  have "fs_file_exists (Some HISTORY_FILE) (fsys M0)" using fs_disk.exists_iff [OF assms(1) M0(1) nm] M0(2) by simp
  then have hl: "history_load_from_disk L io ?b = line_loop (t @ replicate (2048 - length t) 0) (length t) 0 0 (?b\<lparr>mach := M1\<rparr>)"
    using ld b by (simp add: history_load_from_disk_def)
  from text_cut [OF assms(5)] obtain ls w where w: "history_lines s = ls @ (if w = [] then [] else [w])"
    "t = history_text ls @ w" "10 \<notin> set w" unfolding t_def by blast
  have all: "\<forall>l \<in> set (history_lines s). l \<noteq> [] \<and> 10 \<notin> set l" "\<forall>l \<in> set (history_lines s). length l \<le> 255"
    using assms(5) unfolding lines_ok_def by blast+
  have "set ls \<subseteq> set (history_lines s)" unfolding w(1) by simp
  then have "\<forall>l \<in> set ls. l \<noteq> [] \<and> 10 \<notin> set l" using all(1) by blast
  note short = all(2)
  have "t @ replicate (2048 - length t) 0 = [] @ history_text ls @ w @ replicate (2048 - length t) 0"
    "length t = length [] + length (history_text ls) + length w" unfolding w(2) by simp_all
  from line_loop_text [OF \<open>\<forall>l \<in> set ls. l \<noteq> [] \<and> 10 \<notin> set l\<close> w(3) this, of "?b\<lparr>mach := M1\<rparr>"]
  have "history_load_from_disk L io ?b = fold push_line (history_lines s) (?b\<lparr>mach := M1\<rparr>)"
    unfolding hl w(1) by (simp only: list.size)
  moreover have "?b\<lparr>mach := M1\<rparr> = boot_shell M1" by (simp add: boot_shell_def)
  moreover have "history_lines (boot_shell M1) = []" by (simp add: history_lines_def boot_shell_def max_steps_def)
  moreover have "last_lines (history_lines s) = history_lines s" using assms(5) by (simp add: last_lines_def lines_ok_def)
  ultimately show ?thesis using push_lines [OF boot_shell_inv [of M1] short] by simp
qed

lemma history_of_ls:
  fixes M :: "'d machine"
  defines "s \<equiv> history_push (lit ''ls'') 2 (boot_shell M)"
  shows "shell_inv s" "history_count s \<noteq> 0" "history_nav s = -1" "history_lines s = [lit ''ls'']" "mach s = M"
proof -
  have l: "length (lit ''ls'') = 2" by (simp add: lit_def)
  show "shell_inv s" using history_push_inv [OF boot_shell_inv, of 2 "lit ''ls''" M] l by (simp add: s_def)
  show "history_count s \<noteq> 0" "history_nav s = -1" "mach s = M"
    by (simp_all add: s_def history_push_def boot_shell_def Let_def)
  have "history_lines (boot_shell M) = []" by (simp add: history_lines_def boot_shell_def max_steps_def)
  then show "history_lines s = [lit ''ls'']"
    using history_lines_push [OF boot_shell_inv [of M], of 2 "lit ''ls''"] l by (simp add: s_def last_lines_def)
qed

theorem shell_history_persists_witness:
  "let s = history_push (lit ''ls'') 2 (boot_shell (tiny_machine (new_fs 3)));
       f0 = blank_fs\<lparr>disk := disk (fsys (mach (history_save (reference_drive 3) s)))\<rparr>;
       M0 = tiny_machine (fs_init (reference_drive 3) f0)
   in history_lines (history_load_from_disk example_layout (reference_drive 3) (boot_shell M0)) = [lit ''ls'']"
proof -
  let ?M = "tiny_machine (new_fs 3)"
  let ?s = "history_push (lit ''ls'') 2 (boot_shell ?M)"
  have f: "fsys ?M = new_fs 3" by (simp add: tiny_machine_def)
  note h = history_of_ls [of ?M]
  have ok: "fs_ok platter drive_healthy (fsys (mach ?s))" using new_fs_ok(1) [of 3] by (simp add: h(5) f)
  have lines: "lines_ok (history_lines ?s)" unfolding h(4) by (simp add: lines_ok_def lit_def)
  have t: "sectors_for (length (take 2047 (history_text (history_lines ?s)))) = 1" unfolding h(4) by (simp add: lit_def)
  define t where "t = take 2047 (history_text (history_lines ?s))"
  from history_save_result [OF ata_disk ok h(1,2) lines t_def, of 3] obtain r M where sv:
    "history_save (reference_drive 3) ?s = ?s\<lparr>mach := M\<rparr>" "fs_ok platter drive_healthy (fsys M)"
    "file_map platter (fsys M) = (file_map platter (new_fs 3))(HISTORY_FILE := if r then Some (padded t) else None)"
    "file_map platter (new_fs 3) HISTORY_FILE = None \<longrightarrow> (r \<longleftrightarrow> (\<exists>k. free_at (bitmap (new_fs 3)) 1 k) \<and>
        (\<exists>e \<in> set (files (root (new_fs 3))). \<not> used e))" unfolding t [folded t_def] h(5) f
    by (elim exE conjE) (rule that)
  have r: "r" using sv(4) new_fs_ok(2,4) [of 3] new_fs_room [of 3] by auto
  have ex: "fs_file_exists (Some HISTORY_FILE) (fsys (mach (history_save (reference_drive 3) ?s)))"
    using ata_fs.exists_iff [OF sv(2), of HISTORY_FILE] history_name sv(1,3) r by simp
  let ?f0 = "blank_fs\<lparr>disk := disk (fsys (mach (history_save (reference_drive 3) ?s)))\<rparr>"
  have "geometry ?f0" "history_buf_at example_layout \<noteq> 0" using blank_fs_geometry by (simp_all add: geometry_def example_layout_def)
  from shell_history_persists [OF ata_disk ok h(1,2) lines ex, of ?f0 "tiny_machine (fs_init (reference_drive 3) ?f0)" example_layout]
    this show ?thesis unfolding h(4) by (simp add: Let_def tiny_machine_def)
qed

end
