(* ===== verification/Shell_Spec.thy ===== *)
theory Shell_Spec
  imports Shell_History
begin

text \<open>
  The shell as a whole: its arrays are never left, whatever the disk holds and whatever is typed; typed
  keys are executed in order; and what the commands do to the tasks and files of the machine.
\<close>

subsection \<open>Commands change the machine and the input buffer only\<close>

definition statics where
  "statics s = (buffer_idx s, history s, history_len s, history_count s, history_nav s, saved_line s, saved_line_len s)"

definition kept :: "'d shell \<Rightarrow> 'd shell \<Rightarrow> bool" where
  "kept s s' \<longleftrightarrow> statics s' = statics s \<and> length (input_buffer s') = length (input_buffer s)"

lemma kept_refl [simp]: "kept s s"
  by (simp add: kept_def)

lemma kept_mach [simp]: "kept s (s'\<lparr>mach := M\<rparr>) = kept s s'" "kept s (shprint msg s') = kept s s'"
  "kept s (shdo f s') = kept s s'" "kept s (on_kern g s') = kept s s'"
  by (simp_all add: kept_def statics_def on_kern_def)

lemma kept_buffer [simp]: "kept s (s'\<lparr>input_buffer := b\<rparr>) \<longleftrightarrow> statics s' = statics s \<and> length b = length (input_buffer s)"
  by (simp add: kept_def statics_def)

lemma kept_fs [simp]: "kept s (snd (shfs f s')) = kept s s'"
  by (simp add: shfs_def split: prod.split)

lemma exec_args_length: "length (fst (exec_args b p argv)) = length b"
  by (induction b p argv rule: exec_args.induct) (subst exec_args.simps, simp add: Let_def)

lemma exec_args_bounds:
  "\<forall>q \<in> set argv. q < length b \<Longrightarrow> length argv \<le> 8 \<Longrightarrow>
    length (snd (exec_args b p argv)) \<le> 8 \<and> (\<forall>q \<in> set (snd (exec_args b p argv)). q < length b)"
proof (induction b p argv rule: exec_args.induct)
  case (1 b p argv)
  show ?case
  proof (cases "cbyte b p \<noteq> 0 \<and> length argv < EXEC_MAX_ARGS")
    case True
    then have "p < length b" by (simp add: cbyte_inside)
    then show ?thesis using 1 True by (subst (1 2) exec_args.simps) (simp add: Let_def)
  next
    case False
    then have "exec_args b p argv = (b, argv)" by (subst exec_args.simps) (rule if_not_P)
    then show ?thesis using 1(3,4) by simp
  qed
qed

lemma save_loop_bound: "length buf \<le> 2047 \<Longrightarrow> length (save_loop s n buf) \<le> 2047"
  by (induction s n buf rule: save_loop.induct) (simp_all add: Let_def)

lemma kept_inv: "kept s s' \<Longrightarrow> shell_inv s' = shell_inv s"
  by (simp add: kept_def statics_def shell_inv_def max_steps_def)

lemma kept_lines: "kept s s' \<Longrightarrow> history_lines s' = history_lines s"
  by (simp add: kept_def statics_def history_lines_def max_steps_def)

lemma cmd_exec_kept: "cmd_exec L io s = Running s' \<Longrightarrow> kept s s'"
  using exec_args_length [of "input_buffer s" "skip_spaces (input_buffer s) 5" "[]"]
  by (auto simp: cmd_exec_def Let_def statics_def split: prod.splits option.splits if_splits)

lemma cmd_kept:
  "kept s (cmd_kill s)" "kept s (cmd_priority s)" "kept s (cmd_write io s)" "kept s (cmd_uptime s)"
  by (simp_all add: cmd_kill_def cmd_priority_def cmd_write_def cmd_uptime_def Let_def split: prod.split)

lemma shell_command_kept: "shell_command L io s = Running s' \<Longrightarrow> kept s s'"
  unfolding shell_command_def
  by (auto simp: cmd_exec_kept cmd_kept cmd_ps_def cmd_mem_def cmd_reboot_def Let_def split: if_splits option.splits)

subsection \<open>One key\<close>

definition line_ok :: "u8 list \<Rightarrow> bool" where
  "line_ok l \<longleftrightarrow> 0 \<notin> set l \<and> 10 \<notin> set l"

text \<open>The line being typed, the saved line and the lines of the history hold no zero and no newline.\<close>

definition shell_text :: "'d shell \<Rightarrow> bool" where
  "shell_text s \<longleftrightarrow> line_ok (cur_line s) \<and> line_ok (take (saved_line_len s) (saved_line s)) \<and> lines_ok (history_lines s)"

lemma history_save_form:
  "history_save io s = (if save_loop s (max_steps s) [] = [] then s else
      snd (shfs (fs_write_file_silent io (Some HISTORY_FILE) (Some (save_loop s (max_steps s) []))
        (of_nat (length (save_loop s (max_steps s) [])))) (snd (shfs (fs_delete_file_silent io (Some HISTORY_FILE)) s))))"
  by (simp add: history_save_def Let_def split: prod.split)

lemma history_save_kept [simp]: "kept s (history_save io s') = kept s s'"
  by (simp add: history_save_form)

text \<open>The state in which \<open>shell_execute\<close> looks at the command.\<close>

definition committed :: "'d ports \<Rightarrow> 'd shell \<Rightarrow> 'd shell" where
  "committed io s =
     (let s = shprint [10] s;
          s = s\<lparr>input_buffer := (input_buffer s)[buffer_idx s := 0]\<rparr>;
          s = (if buffer_idx s > 0 then history_save io (history_push (input_buffer s) (buffer_idx s) s) else s)
      in s\<lparr>history_nav := -1\<rparr>)"

lemma shell_execute_committed:
  "shell_execute L io s = (case shell_command L io (committed io s) of
       Running s \<Rightarrow> Running ((shprint ([10] @ lit ''> '') s)\<lparr>buffer_idx := 0\<rparr>) | Rebooted s \<Rightarrow> Rebooted s | Stuck \<Rightarrow> Stuck)"
  by (simp add: shell_execute_def committed_def Let_def)

lemma committed_state:
  assumes "shell_inv s"
  defines "t \<equiv> (shprint [10] s)\<lparr>input_buffer := (input_buffer s)[buffer_idx s := 0]\<rparr>"
  shows "shell_inv (committed io s)"
    and "history_lines (committed io s) = (if cur_line s = [] then history_lines s else last_lines (history_lines s @ [cur_line s]))"
    and "saved_line (committed io s) = saved_line s" "saved_line_len (committed io s) = saved_line_len s"
proof -
  have b: "buffer_idx s < 256" "length (input_buffer s) = 256" using assms(1) by (simp_all add: shell_inv_def)
  have t: "shell_inv t" "history_lines t = history_lines s" "cur_line t = cur_line s" "buffer_idx t = buffer_idx s"
    using assms(1) b by (simp_all add: t_def shell_inv_def history_lines_def cur_line_def)
  let ?p = "history_push (input_buffer t) (buffer_idx t) t"
  have "buffer_idx t \<le> length (input_buffer t)" using t(1) by (simp add: shell_inv_def)
  note p = history_push_inv [OF t(1) this] history_lines_push [OF t(1) this]
  have cur: "take (min (buffer_idx t) 255) (input_buffer t) = cur_line s"
    using t(1,3) by (simp add: cur_line_def shell_inv_def)
  have e: "buffer_idx t > 0 \<longleftrightarrow> cur_line s \<noteq> []" using b t(3,4) by (auto simp: cur_line_def)
  let ?u = "if buffer_idx t > 0 then history_save io ?p else t"
  have c: "committed io s = ?u\<lparr>history_nav := -1\<rparr>" by (simp add: committed_def t_def Let_def)
  have k: "kept (if buffer_idx t > 0 then ?p else t) ?u" by simp
  have u: "shell_inv ?u" using kept_inv [OF k] p(1) t(1) by (simp split: if_splits)
  have "shell_inv (v\<lparr>history_nav := -1\<rparr>)" if "shell_inv v" for v :: "'a shell" using that by (simp add: shell_inv_def)
  then show "shell_inv (committed io s)" using u by (simp only: c)
  have hn: "history_lines (v\<lparr>history_nav := -1\<rparr>) = history_lines v" for v :: "'a shell" by (simp add: history_lines_def)
  show "history_lines (committed io s) = (if cur_line s = [] then history_lines s else last_lines (history_lines s @ [cur_line s]))"
    unfolding c hn using kept_lines [OF k] p(2) t(2) cur e by (auto split: if_splits)
  show "saved_line (committed io s) = saved_line s" "saved_line_len (committed io s) = saved_line_len s"
    using k unfolding c by (auto simp: kept_def statics_def history_push_def t_def Let_def split: if_splits)
qed

lemma executed:
  assumes "shell_inv s" "shell_execute L io s = Running s'"
  shows "shell_inv s'" "cur_line s' = []"
    "history_lines s' = (if cur_line s = [] then history_lines s else last_lines (history_lines s @ [cur_line s]))"
    "saved_line s' = saved_line s" "saved_line_len s' = saved_line_len s"
proof -
  from assms(2) obtain t where t: "shell_command L io (committed io s) = Running t"
    "s' = (shprint ([10] @ lit ''> '') t)\<lparr>buffer_idx := 0\<rparr>"
    by (auto simp: shell_execute_committed split: result.splits)
  note k = shell_command_kept [OF t(1)] and c = committed_state [OF assms(1), of io]
  have "shell_inv (shprint ([10] @ lit ''> '') t)" using kept_inv [OF k] c(1) by (simp add: shell_inv_def)
  then show "shell_inv s'" unfolding t(2) by (simp add: shell_inv_def)
  show "cur_line s' = []" by (simp add: t(2) cur_line_def)
  have "history_lines s' = history_lines t" by (simp add: t(2) history_lines_def)
  then show "history_lines s' = (if cur_line s = [] then history_lines s else last_lines (history_lines s @ [cur_line s]))"
    using kept_lines [OF k] c(2) by simp
  show "saved_line s' = saved_line s" "saved_line_len s' = saved_line_len s"
    using k c(3,4) by (simp_all add: t(2) kept_def statics_def)
qed

lemma lines_ok_last:
  assumes "lines_ok ls" "l \<noteq> []" "line_ok l" "length l \<le> 255"
  shows "lines_ok (last_lines (ls @ [l]))"
  using assms by (auto simp: lines_ok_def line_ok_def last_lines_def dest!: in_set_dropD)

lemma line_ok_history: "lines_ok ls \<Longrightarrow> i < length ls \<Longrightarrow> line_ok (ls ! i)"
  by (simp add: lines_ok_def line_ok_def)

lemma history_up_text:
  assumes "shell_inv s" "shell_text s"
  shows "shell_text (history_up s)"
proof (cases "history_count s = 0")
  case False
  then have pos: "0 < max_steps s" by (simp add: max_steps_def)
  show ?thesis
  proof (cases "history_nav s = -1")
    case True
    note u = history_up_first [OF assms(1) True False]
    show ?thesis using u assms(2) pos line_ok_history [of "history_lines s" "max_steps s - 1"] by (simp add: shell_text_def)
  next
    case nav: False
    then obtain k where k: "history_nav s = int k" using assms(1) by (auto simp: shell_inv_def dest: nonneg_int_cases)
    note u = history_up_next [OF assms(1) k]
    show ?thesis using u assms(2) pos line_ok_history [of "history_lines s" "max_steps s - 1 - min (k + 1) (max_steps s - 1)"]
      by (simp add: shell_text_def)
  qed
qed (use assms in \<open>simp add: history_up_def\<close>)

lemma history_down_text:
  assumes "shell_inv s" "shell_text s"
  shows "shell_text (history_down s)"
proof -
  consider "history_nav s = -1" | "history_nav s = 0" | k where "history_nav s = int (Suc k)" "Suc k < max_steps s"
  proof -
    assume a: "history_nav s = -1 \<Longrightarrow> thesis" "history_nav s = 0 \<Longrightarrow> thesis"
      "\<And>k. history_nav s = int (Suc k) \<Longrightarrow> Suc k < max_steps s \<Longrightarrow> thesis"
    show thesis
    proof (cases "history_nav s \<le> 0")
      case True
      then show thesis using a(1,2) assms(1) by (auto simp: shell_inv_def)
    next
      case False
      then have k: "history_nav s = int (Suc (nat (history_nav s - 1)))" by simp
      have "history_nav s < int (max_steps s)" using False assms(1) by (simp add: shell_inv_def)
      then have "Suc (nat (history_nav s - 1)) < max_steps s" using k by linarith
      with k show thesis by (rule a(3))
    qed
  qed
  then show ?thesis
  proof cases
    case 1
    then show ?thesis using assms(2) by (simp add: history_down_def)
  next
    case 2
    let ?d = "history_down s"
    have "cur_line ?d = take (saved_line_len s) (saved_line s)" "history_lines ?d = history_lines s"
      "saved_line ?d = saved_line s" "saved_line_len ?d = saved_line_len s"
      using 2 assms(1) by (simp_all add: history_down_def cur_line_def take_overlay shell_inv_def history_lines_def)
    then show ?thesis using assms(2) by (simp add: shell_text_def)
  next
    case (3 k)
    let ?t = "s\<lparr>history_nav := int k\<rparr>"
    have d: "history_down s = history_load (int k) ?t" using 3 by (simp add: history_down_def Let_def)
    have t: "shell_inv ?t" "k < max_steps ?t" "history_lines ?t = history_lines s"
      using assms(1) 3 by (simp_all add: shell_inv_def history_lines_def)
    have "line_ok (history_lines s ! (max_steps s - 1 - k))" using assms(2) 3 by (intro line_ok_history) (simp_all add: shell_text_def)
    moreover have "history_lines (history_load (int k) ?t) = history_lines s" using t(3) by (simp add: history_lines_def)
    ultimately show ?thesis using cur_line_load [OF t(1,2)] t(3) assms(2) by (simp add: d shell_text_def)
  qed
qed

lemma shell_update_keeps:
  assumes "shell_inv s" "shell_update L io c s = Running s'"
  shows "shell_inv s' \<and> (shell_text s \<and> c \<noteq> 0 \<longrightarrow> shell_text s')"
proof -
  have len: "length (input_buffer s) = 256" "buffer_idx s \<le> 255" "length (cur_line s) \<le> 255"
    using assms(1) by (simp_all add: shell_inv_def cur_line_def)
  consider "c = 10" | "c \<noteq> 10" "c = 8" | "c \<noteq> 10" "c \<noteq> 8" "c = KEY_ARROW_UP" | "c \<noteq> 10" "c \<noteq> 8" "c \<noteq> KEY_ARROW_UP" "c = KEY_ARROW_DOWN"
    | "c \<noteq> 10" "c \<noteq> 8" "c \<noteq> KEY_ARROW_UP" "c \<noteq> KEY_ARROW_DOWN" by blast
  then show ?thesis
  proof cases
    case 1
    then have "shell_execute L io s = Running s'" using assms(2) by (simp add: shell_update_def)
    note e = executed [OF assms(1) this]
    show ?thesis using e lines_ok_last [of "history_lines s" "cur_line s"] len(3)
      by (auto simp: shell_text_def line_ok_def)
  next
    case 2
    then have s': "s' = (if buffer_idx s > 0 then shdo (kprint_char c) (s\<lparr>buffer_idx := buffer_idx s - 1\<rparr>) else s)"
      using assms(2) by (auto simp: shell_update_def)
    have "line_ok (take (buffer_idx s - 1) (input_buffer s))" if "line_ok (take (buffer_idx s) (input_buffer s))"
      using that set_take_subset_set_take [of "buffer_idx s - 1" "buffer_idx s" "input_buffer s"] by (auto simp: line_ok_def)
    moreover have "buffer_idx s - 1 \<le> 255" using len(2) by simp
    ultimately show ?thesis using assms(1) by (simp add: s' shell_inv_def shell_text_def cur_line_def history_lines_def)
  next
    case 3
    then have "s' = history_up s" using assms(2) by (simp add: shell_update_def)
    then show ?thesis using history_up_inv [OF assms(1)] history_up_text [OF assms(1)] by simp
  next
    case 4
    then have "s' = history_down s" using assms(2) by (simp add: shell_update_def)
    then show ?thesis using history_down_inv [OF assms(1)] history_down_text [OF assms(1)] by simp
  next
    case 5
    show ?thesis
    proof (cases "buffer_idx s < 255")
      case True
      then have s': "s' = shdo (kprint_char c) (s\<lparr>input_buffer := (input_buffer s)[buffer_idx s := c], buffer_idx := buffer_idx s + 1\<rparr>)"
        using 5 assms(2) by (simp add: shell_update_def)
      have "cur_line s' = cur_line s @ [c]" using True len by (simp add: s' cur_line_def take_Suc_conv_app_nth)
      moreover have "history_lines s' = history_lines s" "shell_inv s'"
        using True assms(1) by (simp_all add: s' history_lines_def shell_inv_def)
      ultimately show ?thesis using 5(1) by (auto simp: shell_text_def line_ok_def s')
    next
      case False
      then have "s' = s" using 5 assms(2) by (simp add: shell_update_def)
      then show ?thesis using assms(1) by simp
    qed
  qed
qed

subsection \<open>A session\<close>

fun run_keys :: "layout \<Rightarrow> 'd ports \<Rightarrow> u8 list \<Rightarrow> 'd shell \<Rightarrow> 'd shell result" where
  "run_keys L io [] s = Running s"
| "run_keys L io (c # cs) s = (case shell_update L io c s of Running s \<Rightarrow> run_keys L io cs s | r \<Rightarrow> r)"

lemma run_keys_inv:
  "shell_inv s \<Longrightarrow> run_keys L io cs s = Running s' \<Longrightarrow> shell_inv s' \<and> (shell_text s \<and> 0 \<notin> set cs \<longrightarrow> shell_text s')"
proof (induction cs arbitrary: s)
  case (Cons c cs)
  then obtain t where t: "shell_update L io c s = Running t" "run_keys L io cs t = Running s'"
    by (auto split: result.splits)
  note k = shell_update_keeps [OF Cons.prems(1) t(1)]
  show ?case using Cons.IH [OF _ t(2)] k by auto
qed simp

lemma trim_from_le: "trim_from buf i n \<le> i + n"
proof (induction buf i n rule: trim_from.induct)
  case (2 buf i n)
  then show ?case by (cases "buf ! i = 0") auto
qed simp

lemma load_static_kept: "kept s (snd (load_static io nm buf_at cap s))"
proof -
  let ?F = "\<lambda>f. case fs_load_file io (Some nm) buf_at (of_nat cap) f of (r, out, f) \<Rightarrow> ((r, out), f)"
  have "snd (load_static io nm buf_at cap s) = snd (shfs ?F s)"
    by (simp add: load_static_def Let_def split: prod.split option.split)
  then show ?thesis by simp
qed

lemma load_static_size:
  assumes "load_static io nm buf_at cap s = (Some (buf, n), s')" "cap < 2 ^ 32"
  shows "n \<le> length buf" "n \<le> cap" "kept s s'"
proof -
  let ?f = "(fsys (mach s))\<lparr>fcon := kscreen (kern (mach s))\<rparr>"
  obtain r out f where f: "fs_load_file io (Some nm) buf_at (of_nat cap) ?f = (r, out, f)" by (metis prod_cases3)
  with assms(1) obtain v where v: "r = Some v" "buf = overlay (length out) out (replicate cap 0)" "n = trim_to_first_nul buf (unat v)"
    "s' = s\<lparr>mach := (mach s)\<lparr>fsys := f, kern := (kern (mach s))\<lparr>kscreen := fcon f\<rparr>\<rparr>\<rparr>"
    by (auto simp: load_static_def shfs_def with_fs_def Let_def split: option.splits)
  have "v \<le> of_nat cap" using f v(1)
    by (auto simp: fs_load_file_def Let_def split: if_splits option.splits prod.splits)
  then have "unat v \<le> cap" using assms(2) by (simp add: word_le_nat_alt unat_u32)
  moreover have "cap \<le> length buf" by (simp add: v(2) overlay_def)
  ultimately show "n \<le> length buf" "n \<le> cap" using trim_from_le [of buf 0 "unat v"] by (simp_all add: v(3) trim_to_first_nul_def)
  show "kept s s'" by (simp add: v(4))
qed

lemma line_loop_inv:
  "shell_inv s \<Longrightarrow> n \<le> length buf \<Longrightarrow> start \<le> i \<Longrightarrow> shell_inv (line_loop buf n start i s)"
proof (induction buf n start i s rule: line_loop.induct)
  case (1 buf n start i s)
  show ?case
  proof (cases "i \<le> n")
    case True
    then have "shell_inv (history_push (drop start buf) (i - start) s)" using "1.prems" by (intro history_push_inv) simp_all
    then show ?thesis using 1 True by (subst line_loop.simps) (simp add: Let_def)
  next
    case False
    then show ?thesis using "1.prems"(1) by (subst line_loop.simps) simp
  qed
qed

lemma history_load_from_disk_inv:
  assumes "shell_inv s"
  shows "shell_inv (history_load_from_disk L io s)"
proof -
  obtain r t where l: "load_static io HISTORY_FILE (history_buf_at L) 2048 s = (r, t)" by fastforce
  then have t: "shell_inv t" using load_static_kept [of s io HISTORY_FILE "history_buf_at L" 2048] kept_inv assms by fastforce
  have "shell_inv (line_loop b n 0 0 t)" if "r = Some (b, n)" for b n
    using load_static_size(1) [OF l [unfolded that]] t by (intro line_loop_inv) simp_all
  then show ?thesis using assms t l by (auto simp: history_load_from_disk_def split: option.split)
qed

lemma shell_show_motd_kept: "kept s (shell_show_motd L io s)"
proof -
  obtain r t where l: "load_static io MOTD_FILE (motd_buf_at L) 512 s = (r, t)" by fastforce
  then have "kept s t" using load_static_kept [of s io MOTD_FILE "motd_buf_at L" 512] by simp
  then show ?thesis using l by (auto simp: shell_show_motd_def Let_def split: option.split)
qed

lemma shell_init_inv:
  assumes "shell_inv s"
  shows "shell_inv (shell_init L io s)"
proof -
  let ?s = "shprint ([10] @ lit ''MxOS Shell v1.0'' @ [10] @ lit ''Tapez 'help' pour la liste des commandes.'' @ [10]) s"
  define m where "m = shprint (lit ''> '') (shell_show_motd L io (history_load_from_disk L io ?s))"
  have "kept s ?s" by simp
  then have "shell_inv ?s" using kept_inv assms by blast
  moreover have "kept (history_load_from_disk L io ?s) m" by (simp add: m_def shell_show_motd_kept)
  ultimately have "shell_inv m" using kept_inv history_load_from_disk_inv by blast
  moreover have "shell_init L io s = m\<lparr>buffer_idx := 0\<rparr>" by (simp add: shell_init_def m_def Let_def)
  ultimately show ?thesis by (simp add: shell_inv_def)
qed

text \<open>The counter of the history: each command adds at most one, the history file at most one per byte.\<close>

lemma kept_count: "kept s s' \<Longrightarrow> history_count s' = history_count s"
  by (simp add: kept_def statics_def)

lemma committed_count: "history_count (committed io s) \<le> history_count s + 1"
proof -
  have "history_count (history_save io t) = history_count t" for t :: "'a shell" by (rule kept_count) simp
  then show ?thesis by (simp add: committed_def history_push_def Let_def)
qed

lemma shell_update_count:
  assumes "shell_update L io c s = Running s'"
  shows "history_count s' \<le> history_count s + 1"
proof (cases "c = 10")
  case True
  then obtain t where t: "shell_command L io (committed io s) = Running t" "s' = (shprint ([10] @ lit ''> '') t)\<lparr>buffer_idx := 0\<rparr>"
    using assms by (auto simp: shell_update_def shell_execute_committed split: result.splits)
  then show ?thesis using kept_count [OF shell_command_kept [OF t(1)]] committed_count [of io s] by simp
next
  case False
  have "history_count (history_load k t) = history_count t" for k and t :: "'a shell"
    by (simp add: history_load_def redraw_input_line_def shdo_def Let_def)
  then have "history_count (history_up s) = history_count s" "history_count (history_down s) = history_count s"
    by (simp_all add: history_up_def history_down_def redraw_input_line_def shdo_def Let_def)
  then show ?thesis using assms False by (auto simp: shell_update_def split: if_splits)
qed

lemma run_keys_count: "run_keys L io cs s = Running s' \<Longrightarrow> history_count s' \<le> history_count s + length cs"
proof (induction cs arbitrary: s)
  case (Cons c cs)
  then obtain t where t: "shell_update L io c s = Running t" "run_keys L io cs t = Running s'" by (auto split: result.splits)
  show ?case using Cons.IH [OF t(2)] shell_update_count [OF t(1)] by simp
qed simp

lemma line_loop_count: "history_count (line_loop buf n start i s) \<le> history_count s + (Suc n - i)"
proof (induction buf n start i s rule: line_loop.induct)
  case (1 buf n start i s)
  show ?case
  proof (cases "i \<le> n")
    case True
    have "history_count (history_push b l s) = history_count s + 1" for b l by (simp add: history_push_def Let_def)
    then show ?thesis using 1 True by (subst line_loop.simps) (auto simp: Let_def)
  next
    case False
    then show ?thesis by (subst line_loop.simps) simp
  qed
qed

lemma history_load_count: "history_count (history_load_from_disk L io s) \<le> history_count s + 2049"
proof -
  obtain r t where l: "load_static io HISTORY_FILE (history_buf_at L) 2048 s = (r, t)" by fastforce
  then have t: "history_count t = history_count s" using load_static_kept [of s io HISTORY_FILE "history_buf_at L" 2048] kept_count by fastforce
  have "history_count (line_loop b n 0 0 t) \<le> history_count t + 2049" if "r = Some (b, n)" for b n
    using load_static_size(2) [OF l [unfolded that]] line_loop_count [of b n 0 0 t] by simp
  then show ?thesis using t l by (auto simp: history_load_from_disk_def split: option.split)
qed

lemma shell_init_count: "history_count (shell_init L io s) \<le> history_count s + 2049"
proof -
  let ?s = "shprint ([10] @ lit ''MxOS Shell v1.0'' @ [10] @ lit ''Tapez 'help' pour la liste des commandes.'' @ [10]) s"
  have "history_count (shell_init L io s) = history_count (shell_show_motd L io (history_load_from_disk L io ?s))"
    by (simp add: shell_init_def Let_def)
  also have "\<dots> = history_count (history_load_from_disk L io ?s)" by (rule kept_count) (rule shell_show_motd_kept)
  also have "\<dots> \<le> history_count ?s + 2049" by (rule history_load_count)
  finally show ?thesis by simp
qed

text \<open>C36. Whatever the disk holds or refuses, and whatever keys are typed after \<open>shell_init\<close>, the
  shell stays within its arrays: the buffers keep their sizes, the line and every line of the history have
  at most 255 bytes, and the history position is in range; \<open>exec\<close> stores at most eight arguments in \<open>argv[8]\<close>, each of them inside the buffer, and the history takes at
  most 2047 of the 2048 bytes of the save buffer. The counter of commands, in the code an \<open>int\<close> that is also the ring index, stays below
  2\<open>^\<close>31 (so that the unbounded counter of the model is that of the code) as long as fewer than 2\<open>^\<close>31 - 2049 keys are typed; beyond it the code overflows.
  If the lines start without them, no zero byte and
  no newline enters a line, so the history file can always be read back.\<close>

theorem shell_bounds:
  assumes "run_keys L io cs (shell_init L io (boot_shell M)) = Running s"
  shows "shell_inv s \<and> (length cs + 2049 < 2 ^ 31 \<longrightarrow> history_count s < 2 ^ 31) \<and>
    length (snd (exec_args (input_buffer s) p [])) \<le> 8 \<and> (\<forall>q \<in> set (snd (exec_args (input_buffer s) p [])). q < 256) \<and>
    length (save_loop s (max_steps s) []) \<le> 2047 \<and>
    (shell_text (shell_init L io (boot_shell M)) \<and> 0 \<notin> set cs \<longrightarrow> shell_text s)"
proof -
  note inv = run_keys_inv [OF shell_init_inv [OF boot_shell_inv] assms]
  have "history_count s \<le> length cs + 2049"
    using run_keys_count [OF assms] shell_init_count [of L io "boot_shell M"] by (simp add: boot_shell_def)
  moreover have "length (input_buffer s) = 256" using inv by (simp add: shell_inv_def)
  ultimately show ?thesis using inv exec_args_bounds [of "[]" "input_buffer s" p] save_loop_bound [of "[]" s "max_steps s"] by simp
qed

theorem shell_bounds_witness:
  "\<exists>s. run_keys example_layout (reference_drive 3) [104, 8] (shell_init example_layout (reference_drive 3)
    (boot_shell (tiny_machine (new_fs 3)))) = Running s \<and> shell_inv s \<and> history_count s < 2 ^ 31"
proof -
  let ?i = "shell_init example_layout (reference_drive 3) (boot_shell (tiny_machine (new_fs 3)))"
  have "buffer_idx ?i = 0" by (simp add: shell_init_def Let_def)
  then have "\<exists>s. run_keys example_layout (reference_drive 3) [104, 8] ?i = Running s"
    by (simp add: shell_update_def)
  then obtain s where "run_keys example_layout (reference_drive 3) [104, 8] ?i = Running s" by blast
  from this shell_bounds [OF this] show ?thesis by (intro exI [of _ s]) simp
qed

subsection \<open>From the keyboard to the command\<close>

fun on_running :: "('s \<Rightarrow> 't) \<Rightarrow> 's result \<Rightarrow> 't result" where
  "on_running f (Running s) = Running (f s)"
| "on_running f (Rebooted s) = Rebooted (f s)"
| "on_running f Stuck = Stuck"

text \<open>The loop of \<open>shell_poll\<close> hands every queued key to the shell, in order.\<close>

lemma poll_keys_run:
  "kbd_inv q \<Longrightarrow> \<exists>q'. poll_keys L io q s = on_running (\<lambda>s. s\<lparr>keys := q'\<rparr>) (run_keys L io (kbd_items q) s) \<and> kbd_inv q' \<and>
    ((\<exists>s'. run_keys L io (kbd_items q) s = Running s') \<longrightarrow> kbd_items q' = [])"
proof (induction L io q s rule: poll_keys.induct)
  case (1 L io q s)
  obtain r q1 where g: "keyboard_read_char q = (r, q1)" by fastforce
  note c = kq.get_cases [OF "1.prems" g] and inv = kq.get_inv [OF "1.prems" g]
  show ?case
  proof (cases r)
    case None
    then show ?thesis using g c inv by (subst poll_keys.simps) auto
  next
    case (Some x)
    then have i: "kbd_items q = x # kbd_items q1" using c by simp
    show ?thesis
    proof (cases "shell_update L io x s")
      case (Running t)
      have "poll_keys L io q s = poll_keys L io q1 t" using g Some Running by (subst poll_keys.simps) simp
      then show ?thesis using "1.IH" [OF g [symmetric] Some Running inv] g Some Running i by simp
    next
      case (Rebooted t)
      then have "poll_keys L io q s = Rebooted (t\<lparr>keys := q1\<rparr>)" using g Some by (subst poll_keys.simps) simp
      then show ?thesis using Rebooted i inv by auto
    next
      case Stuck
      then have "poll_keys L io q s = Stuck" using g Some by (subst poll_keys.simps) simp
      then show ?thesis using Stuck i inv by auto
    qed
  qed
qed

lemma shell_update_char:
  assumes "shell_inv s" "buffer_idx s < 255" "c \<noteq> 10" "c \<noteq> 8" "c \<noteq> KEY_ARROW_UP" "c \<noteq> KEY_ARROW_DOWN"
  shows "\<exists>s'. shell_update L io c s = Running s' \<and> cur_line s' = cur_line s @ [c] \<and> buffer_idx s' = buffer_idx s + 1"
proof -
  have "length (input_buffer s) = 256" using assms(1) by (simp add: shell_inv_def)
  then show ?thesis using assms by (simp add: shell_update_def cur_line_def take_Suc_conv_app_nth)
qed

text \<open>C39. From the keyboard to the shell: key strokes that arrive in an empty queue, at most 255 of
  them, are what the next \<open>shell_poll\<close> executes, as the characters of the unshifted or shifted table, in
  typing order and none twice; when all have been executed the queue is empty.\<close>

theorem shell_types:
  assumes "kbd_inv q" "kbd_items q = []" "\<not> extended_prefix q" "list_all char_key ks" "length ks \<le> 255"
    "cs = map (key_char (shift_pressed q)) ks"
  shows "\<exists>q'. poll_keys L io (feed (concat (map stroke ks)) q) s = on_running (\<lambda>s. s\<lparr>keys := q'\<rparr>) (run_keys L io cs s) \<and>
    ((\<exists>s'. run_keys L io cs s = Running s') \<longrightarrow> kbd_items q' = [])"
proof -
  have "kbd_items (feed (concat (map stroke ks)) q) = cs"
    using keyboard_types [OF assms(1,3,4)] assms(2,5,6) by simp
  moreover have "kbd_inv (feed scs q)" for scs using feed_inv [OF assms(1)] .
  ultimately show ?thesis using poll_keys_run [of "feed (concat (map stroke ks)) q" L io s] by auto
qed

theorem shell_types_witness:
  "\<exists>s'. poll_keys example_layout (reference_drive 3) (feed (concat (map stroke [0x23, 0x17])) kbd_init)
      (boot_shell (tiny_machine (new_fs 3))) = Running s' \<and> cur_line s' = ascii ''hi'' \<and> kbd_items (keys s') = []"
proof -
  let ?b = "boot_shell (tiny_machine (new_fs 3))"
  have cs: "map (key_char (shift_pressed kbd_init)) [0x23, 0x17] = [104, 105]" "ascii ''hi'' = [104, 105]"
    by (simp_all add: key_char_def kbd_init_def kbd_table_def ascii_def)
  have k: "kbd_inv kbd_init" "kbd_items kbd_init = []" "\<not> extended_prefix kbd_init" "list_all char_key [0x23, 0x17]"
    by (simp_all add: kbd_inv_def kbd_init_def kbd_items_def kbd_count_def char_key_def kbd_table_def ascii_def)
  have b: "shell_inv ?b" "buffer_idx ?b = 0" "cur_line ?b = []" using boot_shell_inv by (simp_all add: boot_shell_def cur_line_def)
  from shell_update_char [OF b(1), of 104 example_layout "reference_drive 3"] b obtain s1 where
    s1: "shell_update example_layout (reference_drive 3) 104 ?b = Running s1" "cur_line s1 = [104]" "buffer_idx s1 = 1"
    by (auto simp: KEY_ARROW_UP_def KEY_ARROW_DOWN_def)
  have "shell_inv s1" using shell_update_keeps [OF b(1) s1(1)] by simp
  from shell_update_char [OF this, of 105 example_layout "reference_drive 3"] s1 obtain s2 where
    s2: "shell_update example_layout (reference_drive 3) 105 s1 = Running s2" "cur_line s2 = [104, 105]"
    by (auto simp: KEY_ARROW_UP_def KEY_ARROW_DOWN_def)
  then have r: "run_keys example_layout (reference_drive 3) [104, 105] ?b = Running s2" using s1(1) by simp
  from shell_types [OF k _ cs(1) [symmetric], of example_layout "reference_drive 3" ?b] r obtain q' where
    "poll_keys example_layout (reference_drive 3) (feed (concat (map stroke [0x23, 0x17])) kbd_init) ?b = Running (s2\<lparr>keys := q'\<rparr>)"
    "kbd_items q' = []" by auto
  then show ?thesis unfolding cs(2) using s2(2) by (auto simp: cur_line_def)
qed

end
