(* ===== verification/Shell_Run.thy ===== *)
theory Shell_Run
  imports Shell_Spec
begin

text \<open>
  Commands end to end: from the typed line to what happens to the tasks of the machine, and the display of
  messages that other tasks send to the shell.
\<close>

subsection \<open>The kernel behind the screen\<close>

text \<open>The kernel state apart from what is on the screen.\<close>

definition quiet :: "kernel \<Rightarrow> kernel" where
  "quiet k = k\<lparr>kscreen := boot_screen\<rparr>"

abbreviation bare :: "'d shell \<Rightarrow> kernel" where
  "bare s \<equiv> quiet (kern (mach s))"

lemma bare_simps [simp]:
  "bare (shprint msg s) = bare s" "bare (shdo f s) = bare s" "bare (s\<lparr>input_buffer := b\<rparr>) = bare s"
  "bare (s\<lparr>buffer_idx := n\<rparr>) = bare s" "bare (s\<lparr>history_nav := v\<rparr>) = bare s" "bare (history_push cmd n s) = bare s"
  "bare (on_kern g s) = quiet (g (kern (mach s)))"
  by (simp_all add: quiet_def shprint_def mprint_def shdo_def history_push_def on_kern_def Let_def)

lemma bare_fs [simp]: "bare (snd (shfs f s)) = bare s"
  by (simp add: quiet_def shfs_def with_fs_def split: prod.split)

lemma bare_save [simp]: "bare (history_save io s) = bare s"
  by (simp add: history_save_form)

lemma buffer_save [simp]: "input_buffer (history_save io s) = input_buffer s"
  by (simp add: history_save_form shfs_def split: prod.split)

lemma committed_bare: "bare (committed io s) = bare s"
  by (simp add: committed_def Let_def)

lemma cname_set_zero: "i < length b \<Longrightarrow> 0 \<notin> set (take i b) \<Longrightarrow> cname (b[i := 0]) = take i b"
  using cname_stop [of "take i b" "drop (Suc i) b"] by (simp add: upd_conv_take_nth_drop)

lemma committed_buffer:
  assumes "shell_inv s" "0 \<notin> set (cur_line s)"
  shows "cname (input_buffer (committed io s)) = cur_line s"
proof -
  have "input_buffer (committed io s) = (input_buffer s)[buffer_idx s := 0]"
    by (simp add: committed_def Let_def history_push_def)
  then show ?thesis using assms cname_set_zero [of "buffer_idx s" "input_buffer s"] by (simp add: shell_inv_def cur_line_def)
qed

subsection \<open>Which command is run\<close>

lemma is_cmd_iff: "is_cmd s x \<longleftrightarrow> cname (input_buffer s) = cname (lit x)"
  by (simp add: is_cmd_def shell_strcmp_eq)

lemma is_prefix_iff: "0 \<notin> set (lit x) \<Longrightarrow> is_prefix s x \<longleftrightarrow> (\<exists>r. cname (input_buffer s) = lit x @ r)"
  using m_strncmp_eq [of "lit x"] by (simp add: is_prefix_def lit_def)

subsection \<open>The command \<open>kill\<close>\<close>

lemma quiet_fields [simp]:
  "tasks (quiet k) = tasks k" "task_count (quiet k) = task_count k" "kmem (quiet k) = kmem k" "kpaging (quiet k) = kpaging k"
  "current_task (quiet k) = current_task k" "heap_start (quiet k) = heap_start k"
  by (simp_all add: quiet_def)

lemma quiet_updates:
  "quiet (upd_task i f k) = upd_task i f (quiet k)" "quiet (k\<lparr>task_count := n\<rparr>) = (quiet k)\<lparr>task_count := n\<rparr>"
  "quiet (k\<lparr>kmem := m\<rparr>) = (quiet k)\<lparr>kmem := m\<rparr>" "quiet (k\<lparr>kpaging := p\<rparr>) = (quiet k)\<lparr>kpaging := p\<rparr>"
  by (simp_all add: quiet_def upd_task_def)

lemma quiet_end_task: "quiet (end_task i k) = end_task i (quiet k)"
proof -
  define f2 where "f2 = (\<lambda>k :: kernel. if task_count k > 0 then k\<lparr>task_count := task_count k - 1\<rparr> else k)"
  define f3 where "f3 = (\<lambda>k. if stack_base (tasks k i) \<noteq> 0
    then upd_task i (\<lambda>t. t\<lparr>stack_base := 0\<rparr>) (k\<lparr>kmem := kfree (stack_base (tasks k i)) (kmem k)\<rparr>) else k)"
  define f4 where "f4 = (\<lambda>k. if addr_space (tasks k i) \<ge> 0
    then upd_task i (\<lambda>t. t\<lparr>addr_space := -1\<rparr>)
      (k\<lparr>kpaging := paging_free_task_directory (addr_space (tasks k i)) (kpaging k)\<rparr>) else k)"
  have e: "end_task i k = f4 (f3 (f2 (upd_task i (\<lambda>t. t\<lparr>active := False, sleeping := False\<rparr>) k)))" for k
    by (simp only: end_task_def f2_def f3_def f4_def Let_def)
  have "quiet (f2 k) = f2 (quiet k)" "quiet (f3 k) = f3 (quiet k)" "quiet (f4 k) = f4 (quiet k)" for k
    by (simp_all add: f2_def f3_def f4_def quiet_updates)
  then show ?thesis by (simp only: e quiet_updates)
qed

lemma quiet_kill: "task_kill pid (quiet k) = (fst (task_kill pid k), quiet (snd (task_kill pid k)))"
  by (simp add: task_kill_def quiet_end_task quiet_updates valid_pid_def)

lemma cname_drop: "cname b = u @ v \<Longrightarrow> cname (drop (length u) b) = v"
proof (induction u arbitrary: b)
  case (Cons c u)
  then show ?case by (cases b) (auto split: if_splits)
qed simp

lemma cmd_kill_effect:
  assumes "cname (input_buffer s) = lit ''kill '' @ ds" "ds \<noteq> []" "\<forall>c \<in> set ds. is_digit c" "dec_value ds < 2 ^ 31"
  shows "bare (cmd_kill s) = quiet (snd (task_kill (int (dec_value ds)) (kern (mach s))))"
proof -
  let ?b = "input_buffer s"
  have l: "length (lit ''kill '') = 5" by (simp add: lit_def)
  have r: "rest ?b 5 = ds" using cname_drop [OF assms(1)] l by simp
  obtain c cs where d: "ds = c # cs" using assms(2) by (cases ds) auto
  have c: "cbyte ?b 5 = c" using r d rest_step [of ?b 5] rest_end [of ?b 5] by (cases "cbyte ?b 5 = 0") auto
  then have dg: "is_digit (cbyte ?b 5)" using assms(3) d by simp
  then have sk: "skip_spaces ?b 5 = 5" by (subst skip_spaces.simps) (auto simp: is_digit_def)
  have "takeWhile is_digit (rest ?b 5) = ds" using assms(3) unfolding r by (simp add: takeWhile_eq_all_conv)
  then have n: "fst (read_num ?b 5 0) = int (dec_value ds)" using read_num_dec [of 5 ?b] assms(4) by simp
  obtain v p where v: "read_num ?b 5 0 = (v, p)" by fastforce
  obtain ok k where k: "task_kill v (kern (mach s)) = (ok, k)" by fastforce
  have "bare (cmd_kill s) = quiet k" using dg by (simp add: cmd_kill_def Let_def sk v k)
  then show ?thesis using n v k by simp
qed

lemma kill_staging: "staging (mach (committed io s)) = staging (mach s)" "staging (mach (cmd_kill s)) = staging (mach s)"
  by (simp_all add: committed_def history_save_form history_push_def shfs_def with_fs_def shprint_def mprint_def cmd_kill_def
      shdo_def on_kern_def Let_def split: prod.split)

lemma kill_line:
  assumes "shell_inv s" "cur_line s = lit ''kill '' @ ds" "ds \<noteq> []" "\<forall>c \<in> set ds. is_digit c" "dec_value ds < 2 ^ 31"
  shows "\<exists>s'. shell_execute L io s = Running s' \<and> cur_line s' = [] \<and> staging (mach s') = staging (mach s) \<and>
    quiet (kern (mach s')) = quiet (snd (task_kill (int (dec_value ds)) (kern (mach s))))"
proof -
  let ?c = "committed io s"
  have "0 \<notin> set (cur_line s)" using assms(2,4) by (auto simp: lit_def is_digit_def)
  then have b: "cname (input_buffer ?c) = lit ''kill '' @ ds" using committed_buffer [OF assms(1)] assms(2) by simp
  then have "shell_command L io ?c = Running (cmd_kill ?c)"
    by (simp add: shell_command_def is_cmd_iff is_prefix_iff lit_def)
  moreover have "bare (cmd_kill ?c) = quiet (snd (task_kill (int (dec_value ds)) (kern (mach s))))"
    using cmd_kill_effect [OF b assms(3-5)] quiet_kill [of "int (dec_value ds)"] committed_bare [of io s] by (metis snd_conv)
  moreover have "staging (mach (shprint msg (cmd_kill ?c))) = staging (mach s)" for msg
    by (simp add: shprint_def mprint_def kill_staging)
  ultimately show ?thesis by (simp add: shell_execute_committed cur_line_def)
qed

text \<open>C37. The command line \<open>kill n\<close>, with \<open>n\<close> below 2\<open>^\<close>31, always returns to the prompt, and what
  it does to the kernel, apart from the screen, is exactly \<open>task_kill n\<close>.\<close>

theorem shell_kill:
  assumes "shell_inv s" "cur_line s = lit ''kill '' @ ds" "ds \<noteq> []" "\<forall>c \<in> set ds. is_digit c" "dec_value ds < 2 ^ 31"
  shows "\<exists>s'. shell_execute L io s = Running s' \<and> cur_line s' = [] \<and>
    quiet (kern (mach s')) = quiet (snd (task_kill (int (dec_value ds)) (kern (mach s))))"
  using kill_line [OF assms] by blast

lemma shell_kill_line:
  assumes "length l \<le> 255"
  shows "shell_inv ((boot_shell M)\<lparr>input_buffer := overlay (length l) l (replicate 256 0), buffer_idx := length l\<rparr>)"
    "cur_line ((boot_shell M)\<lparr>input_buffer := overlay (length l) l (replicate 256 0), buffer_idx := length l\<rparr>) = l"
  using inv_with_line [OF boot_shell_inv, of "overlay (length l) l (replicate 256 0)" "length l" M] assms
  by (simp_all add: length_overlay take_overlay cur_line_def)

theorem shell_kill_witness:
  "let s = (boot_shell (tiny_machine (new_fs 3)))\<lparr>input_buffer := overlay 6 (lit ''kill 1'') (replicate 256 0), buffer_idx := 6\<rparr>
   in \<exists>s'. shell_execute example_layout (reference_drive 3) s = Running s' \<and>
     quiet (kern (mach s')) = quiet (snd (task_kill 1 (boot_kernel example_layout (\<lambda>_. 0))))"
proof -
  have l: "length (lit ''kill 1'') = 6" "lit ''kill 1'' = lit ''kill '' @ [49]" by (simp_all add: lit_def)
  note s = shell_kill_line [of "lit ''kill 1''" "tiny_machine (new_fs 3)", unfolded l(1)]
  have "dec_value [49] = 1" "\<forall>c \<in> set [49]. is_digit c" by (simp_all add: dec_value_def is_digit_def)
  then show ?thesis using shell_kill [OF s(1), of "[49]" example_layout "reference_drive 3"] s(2) l
    by (auto simp: Let_def boot_shell_def tiny_machine_def)
qed

subsection \<open>Messages from other tasks\<close>

abbreviation con :: "'d shell \<Rightarrow> u8 list" where
  "con s \<equiv> serial_text (kscreen (kern (mach s)))"

lemma con_simps [simp]:
  "con (shprint msg s) = con s @ cname msg" "con (shdo f s) = serial_text (f (kscreen (kern (mach s))))"
  by (simp_all add: shprint_def mprint_def shdo_def kprint_serial cname_def)

text \<open>A string in memory that ends within \<open>n\<close> bytes.\<close>

lemma cstring_at_read:
  "0 \<in> set (mem_read m p n) \<Longrightarrow> cstring_at m p acc = Some (rev acc @ cname (mem_read m p n))"
proof (induction n arbitrary: p acc)
  case (Suc n)
  have r: "mem_read m p (Suc n) = m p # mem_read m (p + 1) n"
    by (simp add: mem_read_def upt_conv_Cons add.assoc flip: map_Suc_upt del: upt_Suc)
  show ?case
  proof (cases "m p = 0")
    case True
    then show ?thesis by (subst cstring_at.simps) (simp add: r)
  next
    case False
    then show ?thesis using Suc by (subst cstring_at.simps) (simp add: r)
  qed
qed (simp add: mem_read_def)

text \<open>The frame of \<open>shell_poll_ipc\<close> after the message has been received and terminated.\<close>

lemma received_frame:
  fixes base len snd_pid :: u32 and m :: mem
  assumes "length bytes = unat len" "unat len \<le> 128"
  defines "m4 \<equiv> wr32 (wr32 (mem_write m base bytes) (base + 128) len) (base + 132) snd_pid"
  defines "m5 \<equiv> (if rd32 m4 (base + 128) \<ge> 128 then wr32 m4 (base + 128) 127 else m4)"
  defines "m6 \<equiv> m5(base + rd32 m5 (base + 128) := 0)"
  shows "cstring_at m6 base [] = Some (cname (take 127 bytes))" "rd32 m6 (base + 132) = snd_pid"
proof -
  let ?n = "min 127 (unat len)"
  have a: "base + 128 = base + of_nat 128" "base + 132 = base + of_nat 132" by simp_all
  have w132: "wr32 f (base + 132) v x = f x" if "unat (x - base) < 132" for f v x using area_wr32 [of 132 x base f v] that by simp
  have w128: "wr32 f (base + 128) v x = f x" if "unat (x - base) < 128" for f v x using area_wr32 [of 128 x base f v] that by simp
  have "rd32 m4 (base + of_nat 128) = rd32 (wr32 (mem_write m base bytes) (base + 128) len) (base + of_nat 128)"
    by (rule area_rd32_cong) (simp_all add: m4_def w132)
  then have r4: "rd32 m4 (base + 128) = len" by simp
  have low5: "m5 x = m4 x" if "unat (x - base) < 128 \<or> 132 \<le> unat (x - base)" for x
    using area_wr32 [of 128 x base m4 127] that by (auto simp: m5_def)
  have r5: "rd32 m5 (base + 128) = of_nat ?n"
    using r4 by (auto simp: m5_def word_le_nat_alt min_def word_unat_eq_iff)
  have low4: "m4 x = bytes ! unat (x - base)" if "unat (x - base) < unat len" for x
  proof -
    have "m4 x = mem_write m base bytes x"
      using that assms(2) by (simp add: m4_def w132 w128)
    then show ?thesis using that assms(1,2) by (simp add: mem_write_apply)
  qed
  have six: "m6 x = (if unat (x - base) = ?n then 0 else m5 x)" for x
  proof -
    have "x = base + of_nat ?n \<longleftrightarrow> unat (x - base) = ?n"
    proof
      assume "unat (x - base) = ?n"
      moreover have "(of_nat (unat (x - base)) :: u32) = x - base" by simp
      ultimately have "of_nat ?n = x - base" by (simp only:)
      then show "x = base + of_nat ?n" by (metis diff_add_cancel add.commute)
    qed (use unat_u32 [of ?n] in simp)
    then show ?thesis by (simp add: m6_def r5)
  qed
  have "mem_read m6 base (Suc ?n) = take ?n bytes @ [0]"
  proof (rule nth_equalityI)
    fix j assume "j < length (mem_read m6 base (Suc ?n))"
    then have "j < Suc ?n" by (simp only: length_mem_read)
    then have j: "j \<le> ?n" by (simp only: less_Suc_eq_le)
    then have u: "unat (base + of_nat j - base) = j" by (intro area_index) simp
    show "mem_read m6 base (Suc ?n) ! j = (take ?n bytes @ [0]) ! j"
    proof (cases "j = ?n")
      case True
      then show ?thesis using six [of "base + of_nat j"] u assms(1,2) by (simp add: nth_append min_def)
    next
      case False
      then have "j < unat len" using j by (simp add: min_def split: if_splits)
      then have "m6 (base + of_nat j) = bytes ! j"
        using six [of "base + of_nat j"] low5 [of "base + of_nat j"] low4 [of "base + of_nat j"] u j False by simp
      moreover have "j < ?n" using j False by linarith
      moreover from this have "mem_read m6 base (Suc ?n) ! j = m6 (base + of_nat j)" by (intro nth_mem_read less_SucI)
      ultimately show ?thesis using assms(1) by (simp add: nth_append)
    qed
  qed (use assms(1,2) in simp)
  then have "cstring_at m6 base [] = Some (cname (take ?n bytes @ [0]))"
    using cstring_at_read [of m6 base "Suc ?n" "[]"] by simp
  moreover have "take ?n bytes = take 127 bytes" using assms(1) by (simp add: min_def)
  moreover have "cname (v @ [0]) = cname v" for v by (induction v) auto
  ultimately show "cstring_at m6 base [] = Some (cname (take 127 bytes))" by simp
  have "rd32 m6 (base + 132) = rd32 m4 (base + 132)"
    unfolding a by (rule area_rd32_cong) (use six low5 in auto)
  then show "rd32 m6 (base + 132) = snd_pid" by (simp add: m4_def)
qed

lemma poll_shows:
  assumes "mbox_ok (cur (kern (mach s)))" "unat locals + 136 < 2 ^ 32"
  shows "\<exists>s'. shell_poll_ipc locals s = Running s' \<and>
    (case mbox_items (cur (kern (mach s))) of
       [] \<Rightarrow> con s' = con s
     | (bytes, n, sender) # ms \<Rightarrow> mbox_items (cur (kern (mach s'))) = ms \<and>
         (\<exists>ds. dec_value ds = unat (word_of_int sender :: u32) \<and>
           con s' = con s @ [10] @ lit ''[IPC] Message de la tache '' @ ds @ lit '' : '' @ cname (take 127 bytes) @ [10]))"
proof -
  let ?k = "kern (mach s)"
  let ?m = "wr32 (wr32 (kmem ?k) (locals + 128) 0) (locals + 132) (-1)"
  obtain v t where g: "mailbox_get (cur ?k) = (v, t)" by fastforce
  have nz: "locals + 128 \<noteq> 0" "locals + 132 \<noteq> 0"
    using assms(2) unat_plus_numeral [of locals "num.Bit0 (num.Bit0 (num.Bit0 (num.Bit0 (num.Bit0 (num.Bit0 (num.Bit0 num.One))))))"]
      unat_plus_numeral [of locals "num.Bit0 (num.Bit0 (num.Bit1 (num.Bit0 (num.Bit0 (num.Bit0 (num.Bit0 num.One))))))"]
    by (auto simp: word_unat_eq_iff)
  show ?thesis
  proof (cases "mbox_items (cur ?k)")
    case Nil
    then have "v = None" using mq.get_empty [OF assms(1)] g by simp
    then show ?thesis using Nil g by (simp add: shell_poll_ipc_def ipc_recv_def ipc_recv_msg_def Let_def on_kern_def)
  next
    case (Cons msg ms)
    obtain bytes len sender where msg: "msg = (bytes, len, sender)" by (cases msg)
    have v: "v = Some (bytes, len, sender)" "mbox_items t = ms" using mq.get_item [OF assms(1) Cons g] msg by simp_all
    have len: "length bytes = unat len" "unat len \<le> 128" 
      using g v(1) assms(1) by (auto simp: mailbox_get_def Let_def mbox_ok_def word_le_nat_alt split: if_splits dest: spec [of _ "mailbox_head (cur ?k)"])
    define m4 where "m4 = wr32 (wr32 (mem_write ?m locals bytes) (locals + 128) len) (locals + 132) (word_of_int sender)"
    define m5 where "m5 = (if rd32 m4 (locals + 128) \<ge> 128 then wr32 m4 (locals + 128) 127 else m4)"
    define m6 where "m6 = m5(locals + rd32 m5 (locals + 128) := 0)"
    note fr = received_frame [OF len, of ?m locals "word_of_int sender", folded m4_def, folded m5_def, folded m6_def]
    define k1 where "k1 = upd_task (current_task ?k) (\<lambda>_. t) (?k\<lparr>kmem := m4\<rparr>)"
    have r: "ipc_recv locals (locals + 128) (locals + 132) (?k\<lparr>kmem := ?m\<rparr>) = (1, k1)"
      using g v(1) nz by (simp add: ipc_recv_def ipc_recv_msg_def Let_def k1_def m4_def upd_task_def)
    have km: "kmem k1 = m4" by (simp add: k1_def upd_task_def)
    define s2 where "s2 = shprint (lit '' : '') (shdo (kprint_dec (rd32 m6 (locals + 132)))
      (shprint ([10] @ lit ''[IPC] Message de la tache '') (on_kern (\<lambda>_. k1\<lparr>kmem := m6\<rparr>) s)))"
    from kprint_ptr_serial [OF fr(1), of "kscreen (kern (mach s2))"] obtain scr where scr:
      "kprint_ptr m6 locals (kscreen (kern (mach s2))) = Some scr"
      "serial_text scr = serial_text (kscreen (kern (mach s2))) @ cname (take 127 bytes)" by blast
    have p: "shell_poll_ipc locals s = Running (shprint [10] (shdo (\<lambda>_. scr) s2))"
      unfolding shell_poll_ipc_def Let_def r prod.case km m5_def [symmetric] m6_def [symmetric] s2_def [symmetric]
      by (simp add: scr(1))
    let ?s1 = "shprint ([10] @ lit ''[IPC] Message de la tache '') (on_kern (\<lambda>_. k1\<lparr>kmem := m6\<rparr>) s)"
    from kprint_dec_text [of "rd32 m6 (locals + 132)" "kscreen (kern (mach ?s1))"] fr(2) obtain ds where
      ds: "serial_text (kprint_dec (rd32 m6 (locals + 132)) (kscreen (kern (mach ?s1)))) = con ?s1 @ ds"
      "dec_value ds = unat (word_of_int sender :: u32)" by auto
    have c0: "con (on_kern (\<lambda>_. k1\<lparr>kmem := m6\<rparr>) s) = con s" by (simp add: on_kern_def k1_def upd_task_def)
    have c1: "con ?s1 = con s @ [10] @ lit ''[IPC] Message de la tache ''" by (simp add: c0 lit_def)
    have "con s2 = con ?s1 @ ds @ lit '' : ''" unfolding s2_def by (simp only: con_simps ds(1)) (simp add: lit_def)
    then have "con (shprint [10] (shdo (\<lambda>_. scr) s2)) =
        con s @ [10] @ lit ''[IPC] Message de la tache '' @ ds @ lit '' : '' @ cname (take 127 bytes) @ [10]"
      using scr(2) c1 by simp
    moreover have "mbox_items (cur (kern (mach (shprint [10] (shdo (\<lambda>_. scr) s2))))) = ms"
      using v(2) by (simp add: s2_def shprint_def mprint_def shdo_def on_kern_def k1_def upd_task_def)
    ultimately show ?thesis using p ds(2) Cons msg by auto
  qed
qed

text \<open>Remark. Polling the mailbox always returns. A message that waits for the current task is
  removed and shown with its sender: its first 127 bytes, up to the first zero byte; with an empty mailbox
  nothing is printed.\<close>

theorem shell_shows_message:
  assumes "mbox_ok (cur (kern (mach s)))" "unat locals + 136 < 2 ^ 32"
  shows "\<exists>s'. shell_poll_ipc locals s = Running s' \<and>
    (case mbox_items (cur (kern (mach s))) of
       [] \<Rightarrow> con s' = con s
     | (bytes, n, sender) # ms \<Rightarrow> mbox_items (cur (kern (mach s'))) = ms \<and>
         (\<exists>ds. dec_value ds = unat (word_of_int sender :: u32) \<and>
           con s' = con s @ [10] @ lit ''[IPC] Message de la tache '' @ ds @ lit '' : '' @ cname (take 127 bytes) @ [10]))"
  by (rule poll_shows [OF assms])

theorem shell_shows_message_witness:
  "\<exists>k s' ds. ipc_send 0 0x5000 2 (boot_kernel example_layout (\<lambda>x. if x = 0x5000 then 72 else 0)) = (1, k) \<and>
    shell_poll_ipc 0x7000 (boot_shell ((tiny_machine (new_fs 3))\<lparr>kern := k\<rparr>)) = Running s' \<and> dec_value ds = 0 \<and>
    con s' = serial_text (kscreen k) @ [10] @ lit ''[IPC] Message de la tache '' @ ds @ lit '' : '' @ [72] @ [10]"
proof -
  let ?bk = "boot_kernel example_layout (\<lambda>x. if x = 0x5000 then 72 else 0)"
  let ?t = "tasks ?bk 0" and ?req = "(kmem ?bk, 0x5000, 2, 0) :: request"
  have "sched_inv ?bk" by (rule boot_inv)
  then have "\<forall>i<16. mbox_ok (tasks ?bk i)" unfolding sched_inv_def table_inv_def by blast
  then have "mbox_ok ?t" by simp
  moreover have "mbox_items ?t = []" "active ?t" "current_task ?bk = 0"
    by (simp_all add: boot_kernel_tasks mbox_items_def init_task_def mailbox_reset_def)
  ultimately have t0: "mbox_ok ?t" "mbox_items ?t = []" "active ?t" "current_task ?bk = 0" by simp_all
  obtain ok t where p: "put_request ?req ?t = (ok, t)" by fastforce
  have t: "ok" "mbox_items t = [delivered ?req]" "mbox_ok t" using mq.put_cases [OF t0(1) p] mq.put_inv [OF t0(1) p] t0(2) by simp_all
  let ?k = "upd_task 0 (\<lambda>_. t) ?bk"
  have s: "ipc_send 0 0x5000 2 ?bk = (1, ?k)"
    using p t(1) t0(3,4) by (simp add: ipc_send_def valid_pid_def put_request_def)
  have "kmem ?bk 0x5000 = 72" "kmem ?bk 0x5001 = 0"
    by (simp_all add: boot_heap_def heap_init_def store_header_def wr32_outside region_iff Let_def)
  then have d: "delivered ?req = ([72, 0], 2, 0)" by (simp add: delivered_def mem_read_def upt_rec)
  let ?s = "boot_shell ((tiny_machine (new_fs 3))\<lparr>kern := ?k\<rparr>)"
  have c: "cur (kern (mach ?s)) = t" "kern (mach ?s) = ?k" using t0(4) by (simp_all add: boot_shell_def upd_task_def)
  from shell_shows_message [of ?s "0x7000"] t(2,3) c obtain s' ds where
    "shell_poll_ipc 0x7000 ?s = Running s'" "dec_value ds = unat (word_of_int 0 :: u32)"
    "con s' = con ?s @ [10] @ lit ''[IPC] Message de la tache '' @ ds @ lit '' : '' @ cname (take 127 [72, 0]) @ [10]"
    unfolding d by auto
  then show ?thesis using s c(2) by (intro exI [of _ ?k] exI [of _ s'] exI [of _ ds]) simp
qed

end
