(* ===== verification/User.thy ===== *)
theory User
  imports Trap Shell_Run
begin

text \<open>
  The ring-3 side: the user library \<open>userprogs/libc.c\<close>, the programs \<open>userprogs/echo_user.c\<close> and
  \<open>userprogs/hello_user.c\<close>, and the demonstration task of \<open>kernel/usermode.c\<close>.

  A program is what it does between its system calls: the next call together with the memory at that moment,
  and how it goes on from the value in EAX and the memory after the call. \<open>Spin\<close> is a loop without calls that
  never ends. The addresses of string constants and statics are chosen by the linker: parameters.
\<close>

subsection \<open>The system calls of \<open>libc.c\<close>\<close>

datatype scall = Print u32 | Exit | Sleep u32 | Send u32 u32 u32 | Recv u32 u32 u32

datatype uprog = Spin | Call scall mem "u32 \<Rightarrow> mem \<Rightarrow> uprog"

text \<open>The registers at \<open>int 0x80\<close>.\<close>

fun int80 :: "scall \<Rightarrow> cpu \<Rightarrow> cpu" where
  "int80 (Print msg) c = c\<lparr>r_eax := SYS_PRINT, r_ebx := msg\<rparr>"
| "int80 Exit c = c\<lparr>r_eax := SYS_EXIT\<rparr>"
| "int80 (Sleep n) c = c\<lparr>r_eax := SYS_SLEEP, r_ebx := n\<rparr>"
| "int80 (Send pid msg len) c = c\<lparr>r_eax := SYS_SEND, r_ebx := pid, r_ecx := msg, r_edx := len\<rparr>"
| "int80 (Recv buf out_len out_sender) c =
     c\<lparr>r_eax := SYS_RECV, r_ebx := buf, r_ecx := out_len, r_edx := out_sender\<rparr>"

definition sys_print :: "u32 \<Rightarrow> mem \<Rightarrow> (mem \<Rightarrow> uprog) \<Rightarrow> uprog" where
  "sys_print msg m next = Call (Print msg) m (\<lambda>_. next)"

definition sys_exit :: "mem \<Rightarrow> uprog" where
  "sys_exit m = Call Exit m (\<lambda>_ _. Spin)"

definition sys_sleep :: "u32 \<Rightarrow> mem \<Rightarrow> (mem \<Rightarrow> uprog) \<Rightarrow> uprog" where
  "sys_sleep n m next = Call (Sleep n) m (\<lambda>_. next)"

definition sys_send :: "int \<Rightarrow> u32 \<Rightarrow> u32 \<Rightarrow> mem \<Rightarrow> (u32 \<Rightarrow> mem \<Rightarrow> uprog) \<Rightarrow> uprog" where
  "sys_send pid msg len m next = Call (Send (word_of_int pid) msg len) m next"

definition libc_sys_recv :: "u32 \<Rightarrow> u32 \<Rightarrow> u32 \<Rightarrow> mem \<Rightarrow> (int \<Rightarrow> mem \<Rightarrow> uprog) \<Rightarrow> uprog" where
  "libc_sys_recv buf out_len out_sender m next = Call (Recv buf out_len out_sender) m (\<lambda>r. next (sint r))"

subsection \<open>The strings of \<open>libc.c\<close>\<close>

text \<open>\<open>None\<close>: the loop finds no zero byte and runs forever.\<close>

partial_function (option) strlen_loop :: "mem \<Rightarrow> u32 \<Rightarrow> u32 \<Rightarrow> u32 option" where
  "strlen_loop m s n = (if m (s + n) \<noteq> 0 then strlen_loop m s (n + 1) else Some n)"

definition u_strlen :: "mem \<Rightarrow> u32 \<Rightarrow> u32 option" where
  "u_strlen m s = strlen_loop m s 0"

partial_function (option) u_strcmp :: "mem \<Rightarrow> u32 \<Rightarrow> u32 \<Rightarrow> int option" where
  "u_strcmp m a b =
     (if m a \<noteq> 0 \<and> m a = m b then u_strcmp m (a + 1) (b + 1) else Some (uint (m a) - uint (m b)))"

partial_function (option) strcpy_loop :: "u32 \<Rightarrow> u32 \<Rightarrow> mem \<Rightarrow> mem option" where
  "strcpy_loop d src m =
     (if m src \<noteq> 0 then strcpy_loop (d + 1) (src + 1) (m(d := m src)) else Some (m(d := m src)))"

definition u_strcpy :: "u32 \<Rightarrow> u32 \<Rightarrow> mem \<Rightarrow> (u32 \<times> mem) option" where
  "u_strcpy dst src m = map_option (Pair dst) (strcpy_loop dst src m)"

subsection \<open>\<open>echo_user.c\<close>\<close>

lemma u32_next: "i < n \<Longrightarrow> unat (i + 1) = Suc (unat i)" for i n :: u32
proof -
  assume "i < n"
  then have "unat i + 1 < 2 ^ 32" using unsigned_less [of n, where 'a = nat] by (simp add: word_less_nat_alt)
  then show ?thesis using unat_plus_no_wrap [of i 1] by simp
qed

lemma u32_count: "i < n \<Longrightarrow> unat n - unat (i + 1) < unat n - unat i" for i n :: u32
  by (simp add: u32_next word_less_nat_alt)

abbreviation SHELL_PID :: int where "SHELL_PID \<equiv> 0"
abbreviation LINE_MAX :: u32 where "LINE_MAX \<equiv> 128"

record echo_image =
  line_at :: u32
  echo_str :: u32
  newline_str :: u32

function copy_arg :: "u32 \<Rightarrow> u32 \<Rightarrow> u32 \<Rightarrow> u32 \<Rightarrow> u32 \<Rightarrow> u32 \<Rightarrow> mem \<Rightarrow> u32 \<times> mem" where
  "copy_arg ln argv i alen j len m =
     (if j < alen \<and> len < LINE_MAX - 2
      then copy_arg ln argv i alen (j + 1) (len + 1) (m(ln + len := m (rd32 m (argv + 4 * i) + j)))
      else (len, m))"
  by pat_completeness auto
termination
  by (relation "measure (\<lambda>(ln, argv, i, alen, j, len, m). unat (LINE_MAX - 2) - unat len)")
    (use u32_count [of _ 126] in auto)

declare copy_arg.simps [simp del]

function echo_args :: "u32 \<Rightarrow> u32 \<Rightarrow> u32 \<Rightarrow> u32 \<Rightarrow> u32 \<Rightarrow> mem \<Rightarrow> (u32 \<times> mem) option" where
  "echo_args ln argc argv i len m =
     (if i < argc \<and> len < LINE_MAX - 2
      then case u_strlen m (rd32 m (argv + 4 * i)) of
             None \<Rightarrow> None
           | Some alen \<Rightarrow>
               (let (len, m) = copy_arg ln argv i alen 0 len m;
                    (len, m) = (if i + 1 < argc \<and> len < LINE_MAX - 2 then (len + 1, m(ln + len := 32)) else (len, m))
                in echo_args ln argc argv (i + 1) len m)
      else Some (len, m))"
  by pat_completeness auto
termination
  by (relation "measure (\<lambda>(ln, argc, argv, i, len, m). unat argc - unat i)") (auto simp: u32_count)

declare echo_args.simps [simp del]

text \<open>The attempts to send; the first argument is the number that is left.\<close>

fun echo_attempts :: "nat \<Rightarrow> u32 \<Rightarrow> u32 \<Rightarrow> mem \<Rightarrow> uprog" where
  "echo_attempts 0 ln len m = sys_exit m"
| "echo_attempts (Suc n) ln len m =
     sys_send SHELL_PID ln len m
       (\<lambda>r m. if r \<noteq> 0 then sys_exit m else sys_sleep 1 m (echo_attempts n ln len))"

text \<open>\<open>user_main\<close>, entered with the registers \<open>c\<close>.\<close>

definition echo_main :: "echo_image \<Rightarrow> cpu \<Rightarrow> mem \<Rightarrow> uprog" where
  "echo_main E c m =
     (let argc = r_ebx c; argv = r_ecx c in
      sys_print (echo_str E) m (\<lambda>m.
        case echo_args (line_at E) argc argv 0 0 m of
          None \<Rightarrow> Spin
        | Some (len, m) \<Rightarrow>
            (let m = m(line_at E + len := 0) in
             sys_print (line_at E) m (\<lambda>m.
               sys_print (newline_str E) m (echo_attempts 4 (line_at E) len)))))"

subsection \<open>\<open>hello_user.c\<close>\<close>

record hello_image =
  hello_str :: u32
  args_str :: u32
  space_str :: u32
  nl_str :: u32

function hello_args :: "hello_image \<Rightarrow> u32 \<Rightarrow> u32 \<Rightarrow> u32 \<Rightarrow> mem \<Rightarrow> uprog" where
  "hello_args H argc argv i m =
     (if i < argc
      then sys_print (rd32 m (argv + 4 * i)) m (\<lambda>m. sys_print (space_str H) m (hello_args H argc argv (i + 1)))
      else sys_print (nl_str H) m sys_exit)"
  by pat_completeness auto
termination
  by (relation "measure (\<lambda>(H, argc, argv, i, m). unat argc - unat i)") (auto simp: u32_count)

declare hello_args.simps [simp del]

definition hello_main :: "hello_image \<Rightarrow> cpu \<Rightarrow> mem \<Rightarrow> uprog" where
  "hello_main H c m =
     (let argc = r_ebx c; argv = r_ecx c in
      sys_print (hello_str H) m (\<lambda>m.
        if argc > 0 then sys_print (args_str H) m (hello_args H argc argv 0) else sys_exit m))"

subsection \<open>\<open>usermode.c\<close>\<close>

definition user_demo_stack_top :: "layout \<Rightarrow> u32" where
  "user_demo_stack_top L = user_demo_stack_at L + 4096"

definition user_demo_stack_size :: u32 where
  "user_demo_stack_size = 4096"

definition demo_sys_print :: "u32 \<Rightarrow> mem \<Rightarrow> (mem \<Rightarrow> uprog) \<Rightarrow> uprog" where
  "demo_sys_print msg m next = Call (Print msg) m (\<lambda>_. next)"

definition demo_sys_exit :: "mem \<Rightarrow> (mem \<Rightarrow> uprog) \<Rightarrow> uprog" where
  "demo_sys_exit m next = Call Exit m (\<lambda>_. next)"

definition demo_sys_send :: "int \<Rightarrow> u32 \<Rightarrow> u32 \<Rightarrow> mem \<Rightarrow> (mem \<Rightarrow> uprog) \<Rightarrow> uprog" where
  "demo_sys_send target_pid msg len m next = Call (Send (word_of_int target_pid) msg len) m (\<lambda>_. next)"

record demo_image =
  demo_str :: u32
  demo_msg :: u32

partial_function (option) demo_len :: "mem \<Rightarrow> u32 \<Rightarrow> int \<Rightarrow> int option" where
  "demo_len m msg len = (if m (msg + word_of_int len) \<noteq> 0 then demo_len m msg (len + 1) else Some len)"

definition user_task_demo :: "demo_image \<Rightarrow> mem \<Rightarrow> uprog" where
  "user_task_demo D m =
     demo_sys_print (demo_str D) m (\<lambda>m.
       case demo_len m (demo_msg D) 0 of
         None \<Rightarrow> Spin
       | Some len \<Rightarrow>
           demo_sys_send 0 (demo_msg D) (word_of_int (len + 1)) m (\<lambda>m. demo_sys_exit m (\<lambda>_. Spin)))"

subsection \<open>C strings\<close>

definition str_in :: "mem \<Rightarrow> u32 \<Rightarrow> u8 list \<Rightarrow> bool" where
  "str_in m p w \<longleftrightarrow> mem_read m p (length w + 1) = w @ [0] \<and> 0 \<notin> set w"

lemma mem_read_Suc: "mem_read m p (Suc n) = m p # mem_read m (p + 1) n"
  by (simp add: mem_read_def upt_conv_Cons add.assoc flip: map_Suc_upt del: upt_Suc)

lemma mem_read_0: "mem_read m p 0 = []"
  by (simp add: mem_read_def)

lemma str_in_simps [simp]:
  "str_in m p [] \<longleftrightarrow> m p = 0" "str_in m p (b # w) \<longleftrightarrow> m p = b \<and> b \<noteq> 0 \<and> str_in m (p + 1) w"
  by (simp_all add: str_in_def mem_read_Suc mem_read_0) auto

lemma str_in_cstring: "str_in m p w \<Longrightarrow> cstring_at m p acc = Some (rev acc @ w)"
  by (induction w arbitrary: p acc) (simp_all add: cstring_at.simps)

lemma str_in_cong:
  assumes "str_in m p w" "length w < 2 ^ 32" "\<And>x. x \<in> region p (length w + 1) \<Longrightarrow> m' x = m x"
  shows "str_in m' p w"
  using assms mem_read_cong [of "length w + 1" p m' m] by (simp add: str_in_def)

lemma strlen_loop_str: "str_in m (s + n) w \<Longrightarrow> strlen_loop m s n = Some (n + of_nat (length w))"
proof (induction w arbitrary: n)
  case (Cons b w)
  then have "strlen_loop m s (n + 1) = Some (n + 1 + of_nat (length w))" by (simp add: add.assoc)
  then show ?case using Cons.prems by (subst strlen_loop.simps) (simp add: add.assoc)
qed (simp add: strlen_loop.simps)

lemma u_strlen_str: "str_in m s w \<Longrightarrow> u_strlen m s = Some (of_nat (length w))"
  using strlen_loop_str [of m s 0 w] by (simp add: u_strlen_def)

lemma region_tail: "Suc n \<le> 2 ^ 32 \<Longrightarrow> region (a + 1) n \<subseteq> region a (Suc n)"
  using region_shift [of 1 n _ a] by auto

lemma strcpy_loop_str:
  "str_in m src w \<Longrightarrow> length w < 2 ^ 32 \<Longrightarrow> region dst (length w + 1) \<inter> region src (length w + 1) = {} \<Longrightarrow>
    strcpy_loop dst src m = Some (mem_write m dst (w @ [0]))"
proof (induction w arbitrary: dst src m)
  case Nil
  then show ?case by (subst strcpy_loop.simps) simp
next
  case (Cons b w)
  have "dst \<in> region dst (length (b # w) + 1)" by (simp add: in_region)
  then have "dst \<notin> region (src + 1) (length w + 1)" using Cons.prems(2,3) region_tail [of "length w + 1" src] by auto
  then have a: "str_in (m(dst := b)) (src + 1) w" using Cons.prems(1,2) by (auto intro: str_in_cong [of m])
  have "region (dst + 1) (length w + 1) \<inter> region (src + 1) (length w + 1) = {}"
    using Cons.prems(2,3) region_tail [of "length w + 1" src] region_tail [of "length w + 1" dst] by auto
  then have "strcpy_loop (dst + 1) (src + 1) (m(dst := b)) = Some (mem_write (m(dst := b)) (dst + 1) (w @ [0]))"
    using Cons.prems(2) by (intro Cons.IH [OF a]) simp_all
  then show ?case using Cons.prems(1) by (subst strcpy_loop.simps) simp
qed

lemma u_strcmp_same: "str_in m a w \<Longrightarrow> str_in m b w \<Longrightarrow> u_strcmp m a b = Some 0"
  by (induction w arbitrary: a b) (simp_all add: u_strcmp.simps)

lemma u_strcmp_differ: "str_in m a v \<Longrightarrow> str_in m b w \<Longrightarrow> v \<noteq> w \<Longrightarrow> \<exists>d. u_strcmp m a b = Some d \<and> d \<noteq> 0"
proof (induction v arbitrary: a b w)
  case Nil
  then show ?case by (cases w) (auto simp: u_strcmp.simps unsigned_eq_0_iff)
next
  case (Cons x v)
  show ?case
  proof (cases "w \<noteq> [] \<and> hd w = x")
    case True
    then obtain w' where "w = x # w'" by (cases w) auto
    then show ?thesis using Cons by (subst u_strcmp.simps) auto
  next
    case False
    then have "m b \<noteq> x" using Cons.prems(1,2) by (cases w) auto
    then show ?thesis using Cons.prems(1) by (subst u_strcmp.simps) (auto simp: word_uint_eq_iff)
  qed
qed

text \<open>Remark. \<open>u_strcpy\<close> of a string to an address range that does not meet it returns
  \<open>dst\<close>; afterwards both addresses hold the string, it has the same length for \<open>u_strlen\<close>, \<open>u_strcmp\<close>
  finds the two equal and finds every other string different, and nothing outside the destination changed.\<close>

theorem u_strcpy_roundtrip:
  assumes "str_in m src w" "length w < 2 ^ 32" "region dst (length w + 1) \<inter> region src (length w + 1) = {}"
  shows "\<exists>m'. u_strcpy dst src m = Some (dst, m') \<and> str_in m' dst w \<and> str_in m' src w \<and>
    u_strlen m' dst = u_strlen m src \<and> u_strcmp m' dst src = Some 0 \<and>
    (\<forall>p v. str_in m' p v \<and> v \<noteq> w \<longrightarrow> u_strcmp m' dst p \<noteq> Some 0) \<and>
    (\<forall>x. x \<notin> region dst (length w + 1) \<longrightarrow> m' x = m x)"
proof -
  let ?m = "mem_write m dst (w @ [0])"
  have out: "?m x = m x" if "x \<notin> region dst (length w + 1)" for x using mem_write_outside [of "w @ [0]" x dst m] that assms(2) by simp
  have d: "str_in ?m dst w"
    using assms(1,2) by (auto simp: str_in_def mem_write_apply unat_u32 intro!: nth_equalityI)
  have s: "str_in ?m src w" using out assms(3) by (intro str_in_cong [OF assms(1,2)]) blast
  have "u_strcmp ?m dst p \<noteq> Some 0" if "str_in ?m p v" "v \<noteq> w" for p v using u_strcmp_differ [OF d that(1)] that(2) by auto
  then show ?thesis
    using strcpy_loop_str [OF assms] d s out u_strlen_str [OF d] u_strlen_str [OF assms(1)] u_strcmp_same [OF d s]
    by (simp add: u_strcpy_def) blast
qed

theorem u_strcpy_roundtrip_witness:
  "\<exists>m'. u_strcpy 0x40 0x20 (mem_write (\<lambda>_. 0xCC) 0x20 [104, 105, 0]) = Some (0x40, m') \<and> u_strcmp m' 0x40 0x20 = Some 0"
proof -
  let ?m = "mem_write (\<lambda>_. 0xCC) 0x20 [104, 105, 0]"
  have "str_in ?m 0x20 [104, 105]" by simp
  moreover have "region 0x40 (length [104, 105 :: u8] + 1) \<inter> region 0x20 (length [104, 105 :: u8] + 1) = {}"
    by (auto simp: region_iff)
  ultimately show ?thesis using u_strcpy_roundtrip [of ?m "0x20" "[104, 105]" "0x40"] by auto
qed

subsection \<open>The line of \<open>echo\<close>\<close>

text \<open>The calls a program makes when the system answers with the given values of EAX, each with the memory at
  that moment. The calls of these programs leave the program's memory alone.\<close>

fun calls :: "u32 list \<Rightarrow> uprog \<Rightarrow> (scall \<times> mem) list" where
  "calls rs Spin = []"
| "calls [] (Call s m K) = [(s, m)]"
| "calls (r # rs) (Call s m K) = (s, m) # calls rs (K r m)"

text \<open>The arguments separated by spaces.\<close>

fun join :: "u8 list list \<Rightarrow> u8 list" where
  "join [] = []"
| "join [w] = w"
| "join (w # ws) = w @ [32] @ join ws"

text \<open>The line under construction: \<open>acc\<close> so far, in a memory that is otherwise \<open>m0\<close>.\<close>

definition line_state :: "u32 \<Rightarrow> mem \<Rightarrow> u8 list \<Rightarrow> mem \<Rightarrow> bool" where
  "line_state ln m0 acc m \<longleftrightarrow> length acc \<le> 126 \<and> mem_read m ln (length acc) = acc \<and>
     (\<forall>x. x \<notin> region ln 128 \<longrightarrow> m x = m0 x)"

lemma line_pos: "n < 128 \<Longrightarrow> ln + of_nat n \<in> region ln 128" "n < 128 \<Longrightarrow> unat (of_nat n :: u32) = n" for ln :: u32
  by (simp_all add: in_region unat_u32)

lemma mem_read_upd: "n < 2 ^ 32 \<Longrightarrow> mem_read (m(ln + of_nat n := b)) ln n = mem_read m ln n"
proof -
  assume n: "n < 2 ^ 32"
  have "(of_nat i :: u32) \<noteq> of_nat n" if "i < n" for i using that n unat_u32 [of i] unat_u32 [of n] by auto
  then show ?thesis by (intro nth_equalityI) auto
qed

lemma line_state_put:
  assumes "line_state ln m0 acc m" "length acc < 126"
  shows "line_state ln m0 (acc @ [b]) (m(ln + of_nat (length acc) := b))"
proof -
  have "mem_read (m(ln + of_nat (length acc) := b)) ln (Suc (length acc)) =
      mem_read (m(ln + of_nat (length acc) := b)) ln (length acc) @ [b]" by (simp add: mem_read_def)
  then show ?thesis using assms line_pos(1) [of "length acc" ln] mem_read_upd [of "length acc" m ln b]
    by (auto simp: line_state_def)
qed

text \<open>An argument vector that the line does not overlap.\<close>

definition argv_at :: "mem \<Rightarrow> u32 \<Rightarrow> u32 \<Rightarrow> u8 list list \<Rightarrow> bool" where
  "argv_at m argv ln ws \<longleftrightarrow> length ws < 2 ^ 30 \<and> (\<forall>i < length ws.
     (let p = rd32 m (argv + 4 * of_nat i) in
      str_in m p (ws ! i) \<and> length (ws ! i) < 2 ^ 31 \<and> region (argv + 4 * of_nat i) 4 \<inter> region ln 128 = {} \<and>
      region p (length (ws ! i) + 1) \<inter> region ln 128 = {}))"

lemma argv_at_kept:
  assumes "argv_at m0 argv ln ws" "line_state ln m0 acc m" "i < length ws"
  shows "rd32 m (argv + 4 * of_nat i) = rd32 m0 (argv + 4 * of_nat i)"
    "str_in m (rd32 m0 (argv + 4 * of_nat i)) (ws ! i)" "length (ws ! i) < 2 ^ 31"
proof -
  have k: "m x = m0 x" if "x \<notin> region ln 128" for x using assms(2) that by (simp add: line_state_def)
  let ?p = "rd32 m0 (argv + 4 * of_nat i)"
  have a: "str_in m0 ?p (ws ! i)" "length (ws ! i) < 2 ^ 31" "region (argv + 4 * of_nat i) 4 \<inter> region ln 128 = {}"
    "region ?p (length (ws ! i) + 1) \<inter> region ln 128 = {}" using assms(1,3) by (simp_all add: argv_at_def Let_def)
  show "rd32 m (argv + 4 * of_nat i) = ?p" using a(3) k by (intro rd32_cong) blast
  show "str_in m ?p (ws ! i)" using a k by (intro str_in_cong [OF a(1)]) auto
  show "length (ws ! i) < 2 ^ 31" by (rule a)
qed

lemma str_in_nth: "str_in m p w \<Longrightarrow> j < length w \<Longrightarrow> m (p + of_nat j) = w ! j"
proof -
  assume w: "str_in m p w" "j < length w"
  then have "mem_read m p (length w + 1) ! j = w ! j" by (simp add: str_in_def nth_append)
  then show ?thesis using w(2) by simp
qed

lemma copy_arg_line:
  assumes "argv_at m0 argv ln ws" "i < length ws"
  shows "line_state ln m0 acc m \<Longrightarrow> j \<le> length (ws ! i) \<Longrightarrow>
    \<exists>m'. copy_arg ln argv (of_nat i) (of_nat (length (ws ! i))) (of_nat j) (of_nat (length acc)) m =
        (of_nat (length (take 126 (acc @ drop j (ws ! i)))), m') \<and>
      line_state ln m0 (take 126 (acc @ drop j (ws ! i))) m'"
proof (induction "length (ws ! i) - j" arbitrary: j acc m)
  case 0
  then show ?case by (subst copy_arg.simps) (simp add: line_state_def min_def)
next
  case (Suc d)
  let ?w = "ws ! i"
  note kept = argv_at_kept [OF assms(1) Suc.prems(1) assms(2)]
  have j: "j < length ?w" using Suc.hyps(2) by simp
  have lt: "(of_nat j :: u32) < of_nat (length ?w)" using j kept(3) by (simp add: word_less_nat_alt unat_u32)
  show ?case
  proof (cases "length acc < 126")
    case True
    let ?m = "m(ln + of_nat (length acc) := ?w ! j)"
    have "line_state ln m0 (acc @ [?w ! j]) ?m" by (rule line_state_put [OF Suc.prems(1) True])
    moreover have "d = length ?w - Suc j" "Suc j \<le> length ?w" using Suc.hyps(2) by simp_all
    ultimately obtain m' where m': "copy_arg ln argv (of_nat i) (of_nat (length ?w)) (of_nat (Suc j))
        (of_nat (length (acc @ [?w ! j]))) ?m = (of_nat (length (take 126 ((acc @ [?w ! j]) @ drop (Suc j) ?w))), m')"
      "line_state ln m0 (take 126 ((acc @ [?w ! j]) @ drop (Suc j) ?w)) m'" using Suc.hyps(1) by blast
    have d: "(acc @ [?w ! j]) @ drop (Suc j) ?w = acc @ drop j ?w" using j by (simp add: Cons_nth_drop_Suc)
    have "(of_nat (length acc) :: u32) < 126" using True by (simp add: word_less_nat_alt unat_u32)
    then have "copy_arg ln argv (of_nat i) (of_nat (length ?w)) (of_nat j) (of_nat (length acc)) m =
        copy_arg ln argv (of_nat i) (of_nat (length ?w)) (of_nat (Suc j)) (of_nat (length (acc @ [?w ! j]))) ?m"
      using lt kept str_in_nth [OF kept(2) j] by (subst copy_arg.simps) (simp add: add.commute)
    then show ?thesis using m' unfolding d by metis
  next
    case False
    then have e: "length acc = 126" using Suc.prems(1) by (simp add: line_state_def)
    then have "copy_arg ln argv (of_nat i) (of_nat (length ?w)) (of_nat j) (of_nat (length acc)) m = (126, m)"
      by (subst copy_arg.simps) simp
    then show ?thesis using e Suc.prems(1) by simp
  qed
qed

text \<open>One pass of the outer loop: the argument and, unless it is the last, a space.\<close>

lemma echo_pass:
  assumes "argv_at m0 argv ln ws" "i < length ws" "line_state ln m0 acc m" "length acc < 126"
  shows "\<exists>m'. echo_args ln (of_nat (length ws)) argv (of_nat i) (of_nat (length acc)) m =
      echo_args ln (of_nat (length ws)) argv (of_nat (Suc i))
        (of_nat (length (take 126 (acc @ ws ! i @ (if Suc i < length ws then [32] else []))))) m' \<and>
    line_state ln m0 (take 126 (acc @ ws ! i @ (if Suc i < length ws then [32] else []))) m'"
proof -
  let ?w = "ws ! i" and ?acc = "take 126 (acc @ ws ! i)"
  note kept = argv_at_kept [OF assms(1,3,2)]
  have n: "length ws < 2 ^ 30" using assms(1) by (simp add: argv_at_def)
  then have lt: "(of_nat i :: u32) < of_nat (length ws)" "(of_nat i + 1 :: u32) < of_nat (length ws) \<longleftrightarrow> Suc i < length ws"
    using assms(2) unat_u32 [of "Suc i"] by (simp_all add: word_less_nat_alt unat_u32 add.commute)
  have l: "(of_nat (length acc) :: u32) < 126" using assms(4) by (simp add: word_less_nat_alt unat_u32)
  obtain m1 where m1: "copy_arg ln argv (of_nat i) (of_nat (length ?w)) 0 (of_nat (length acc)) m = (of_nat (length ?acc), m1)"
    "line_state ln m0 ?acc m1" using copy_arg_line [OF assms(1,2,3), of 0] by auto
  have la: "(of_nat (length ?acc) :: u32) < 126 \<longleftrightarrow> length ?acc < 126"
    using line_pos(2) [of "length ?acc"] by (simp add: word_less_nat_alt)
  let ?sp = "Suc i < length ws \<and> length ?acc < 126"
  let ?m2 = "if ?sp then m1(ln + of_nat (length ?acc) := 32) else m1"
  let ?r = "if ?sp then ?acc @ [32] else ?acc"
  have "echo_args ln (of_nat (length ws)) argv (of_nat i) (of_nat (length acc)) m =
      echo_args ln (of_nat (length ws)) argv (of_nat (Suc i)) (of_nat (length ?r)) ?m2"
    using lt l la kept(1) u_strlen_str [OF kept(2)] m1(1) by (subst echo_args.simps) (simp add: add.commute)
  moreover have "line_state ln m0 ?r ?m2" using m1(2) line_state_put [OF m1(2), of 32]
    by (cases ?sp) (simp_all only: if_True if_False simp_thms)
  moreover have r: "take 126 (acc @ ?w @ (if Suc i < length ws then [32] else [])) = ?r" by auto
  ultimately show ?thesis unfolding r by blast
qed

lemma join_drop:
  "i < length ws \<Longrightarrow> join (drop i ws) = ws ! i @ (if Suc i < length ws then [32] else []) @ join (drop (Suc i) ws)"
proof -
  assume i: "i < length ws"
  then have d: "drop i ws = ws ! i # drop (Suc i) ws" by (simp add: Cons_nth_drop_Suc)
  have "Suc i < length ws \<longleftrightarrow> drop (Suc i) ws \<noteq> []" by (simp add: not_le)
  then show ?thesis unfolding d by (cases "drop (Suc i) ws") simp_all
qed

lemma echo_args_line:
  assumes "argv_at m0 argv ln ws"
  shows "line_state ln m0 acc m \<Longrightarrow> i \<le> length ws \<Longrightarrow>
    \<exists>m'. echo_args ln (of_nat (length ws)) argv (of_nat i) (of_nat (length acc)) m =
        Some (of_nat (length (take 126 (acc @ join (drop i ws)))), m') \<and>
      line_state ln m0 (take 126 (acc @ join (drop i ws))) m'"
proof (induction "length ws - i" arbitrary: i acc m)
  case 0
  then show ?case by (subst echo_args.simps) (simp add: line_state_def min_def)
next
  case (Suc d)
  then have i: "i < length ws" "d = length ws - Suc i" "Suc i \<le> length ws" by simp_all
  show ?case
  proof (cases "length acc < 126")
    case True
    let ?r = "take 126 (acc @ ws ! i @ (if Suc i < length ws then [32] else []))"
    obtain m1 where m1: "echo_args ln (of_nat (length ws)) argv (of_nat i) (of_nat (length acc)) m =
        echo_args ln (of_nat (length ws)) argv (of_nat (Suc i)) (of_nat (length ?r)) m1" "line_state ln m0 ?r m1"
      using echo_pass [OF assms i(1) Suc.prems(1) True] by blast
    have t: "take 126 (?r @ join (drop (Suc i) ws)) = take 126 (acc @ join (drop i ws))"
      unfolding join_drop [OF i(1)] take_take_append by simp
    show ?thesis using Suc.hyps(1) [OF i(2) m1(2) i(3)] unfolding t m1(1) .
  next
    case False
    then have e: "length acc = 126" using Suc.prems(1) by (simp add: line_state_def)
    then have "echo_args ln (of_nat (length ws)) argv (of_nat i) (of_nat (length acc)) m = Some (126, m)"
      by (subst echo_args.simps) simp
    then show ?thesis using e Suc.prems(1) by simp
  qed
qed

text \<open>The argument area of \<open>build_argv\<close>, apart from the line.\<close>

lemma built_argv_at:
  assumes "4 * (length ws + 1) + argv_bytes ws \<le> ARGV_AREA_SIZE" "\<forall>w \<in> set ws. 0 \<notin> set w"
    "build_argv base ws m0 = (argv, m)" "region base 512 \<inter> region ln 128 = {}"
  shows "argv_at m argv ln ws"
proof -
  note ar = argv_area [OF assms(1-3)]
  have sub: "region (base + of_nat n) k \<inter> region ln 128 = {}" if "n + k \<le> 512" for n k
  proof -
    have "region (base + of_nat n) k \<subseteq> region base 512"
      using region_shift [of n k _ base] that by (auto simp: in_region)
    then show ?thesis using assms(4) by blast
  qed
  have "str_in m (rd32 m (argv + 4 * of_nat i)) (ws ! i) \<and> length (ws ! i) < 2 ^ 31 \<and>
      region (argv + 4 * of_nat i) 4 \<inter> region ln 128 = {} \<and>
      region (rd32 m (argv + 4 * of_nat i)) (length (ws ! i) + 1) \<inter> region ln 128 = {}" if i: "i < length ws" for i
  proof -
    obtain n where n: "n + length (ws ! i) < 512" "rd32 m (base + of_nat (4 * i)) = base + of_nat n"
      "mem_read m (base + of_nat n) (length (ws ! i) + 1) = ws ! i @ [0]" using ar i by blast
    have b: "argv + 4 * of_nat i = base + of_nat (4 * i)" using ar by simp
    have "0 \<notin> set (ws ! i)" using assms(2) i by simp
    then have "str_in m (base + of_nat n) (ws ! i)" using n(3) by (simp add: str_in_def)
    then show ?thesis using n(1,2) sub [of n "length (ws ! i) + 1"] sub [of "4 * i" 4] i assms(1) unfolding b by simp
  qed
  then show ?thesis using assms(1) by (simp add: argv_at_def Let_def)
qed

subsection \<open>The attempts of \<open>echo\<close>\<close>

text \<open>With replies \<open>rs\<close>, the number of sends among the first \<open>n\<close> that are refused with 0 before one is not.\<close>

definition refused :: "nat \<Rightarrow> u32 list \<Rightarrow> nat" where
  "refused n rs = length (takeWhile (\<lambda>j. rs ! (2 * j) = 0) [0..<n])"

lemma refused_0 [simp]: "refused 0 rs = 0"
  by (simp add: refused_def)

lemma refused_Suc: "refused (Suc n) (r # r' # rs) = (if r = 0 then Suc (refused n rs) else 0)"
  by (simp add: refused_def upt_conv_Cons takeWhile_map comp_def flip: map_Suc_upt del: upt_Suc)

lemma echo_attempts_calls:
  "2 * n < length rs \<Longrightarrow> calls rs (echo_attempts n ln len m) = map (\<lambda>s. (s, m))
    (concat (replicate (refused n rs) [Send 0 ln len, Sleep 1]) @ (if refused n rs < n then [Send 0 ln len] else []) @ [Exit])"
proof (induction n arbitrary: rs)
  case 0
  then obtain r rs' where "rs = r # rs'" by (cases rs) auto
  then show ?case by (simp add: sys_exit_def)
next
  case (Suc n)
  then obtain r r' rs' where rs: "rs = r # r' # rs'" "2 * n < length rs'" by (cases rs; cases "tl rs") auto
  then obtain r2 rs2 where "rs' = r2 # rs2" by (cases rs') auto
  then show ?case using rs Suc.IH [OF rs(2)] by (simp add: refused_Suc sys_send_def sys_sleep_def sys_exit_def)
qed

text \<open>C35. The program \<open>echo\<close>, started by \<open>exec\<close> with the argument area that \<open>build_argv\<close> made and with
  EBX and ECX as the loader sets them, makes exactly these calls, whatever the kernel answers: it prints its
  prefix, the line and a newline; the line is the first 126 bytes of the arguments joined by spaces, written
  inside its 128-byte buffer and nowhere else. It then sends the line to task 0, at most four times, sleeping
  after each refusal with 0, stopping at the first other answer, and exits.\<close>

theorem echo_run:
  assumes "4 * (length ws + 1) + argv_bytes ws \<le> ARGV_AREA_SIZE" "\<forall>w \<in> set ws. 0 \<notin> set w"
    "build_argv base ws m0 = (argv, m)" "r_ebx c = of_nat (length ws)" "r_ecx c = argv"
    "region base 512 \<inter> region (line_at E) 128 = {}" "8 < length rs"
  shows "\<exists>m'. str_in m' (line_at E) (take 126 (join ws)) \<and> (\<forall>x. x \<notin> region (line_at E) 128 \<longrightarrow> m' x = m x) \<and>
    calls (r1 # r2 # r3 # rs) (echo_main E c m) =
      (Print (echo_str E), m) # map (\<lambda>s. (s, m')) ([Print (line_at E), Print (newline_str E)] @
        (let send = Send 0 (line_at E) (of_nat (length (take 126 (join ws)))); n = refused 4 rs
         in concat (replicate n [send, Sleep 1]) @ (if n < 4 then [send] else []) @ [Exit]))"
proof -
  let ?ln = "line_at E" and ?t = "take 126 (join ws)"
  have a: "argv_at m argv ?ln ws" by (rule built_argv_at [OF assms(1-3,6)])
  have "line_state ?ln m [] m" by (simp add: line_state_def mem_read_0)
  from echo_args_line [OF a this, of 0] obtain m1 where
    m1: "echo_args ?ln (of_nat (length ws)) argv 0 0 m = Some (of_nat (length ?t), m1)" "line_state ?ln m ?t m1" by auto
  let ?m = "m1(?ln + of_nat (length ?t) := 0)"
  have "\<forall>w \<in> set ws. 0 \<notin> set w \<Longrightarrow> 0 \<notin> set (join ws)" by (induction ws rule: join.induct) auto
  then have z: "0 \<notin> set ?t" using assms(2) in_set_takeD by fastforce
  have "mem_read ?m ?ln (length ?t) = ?t" using m1(2) mem_read_upd [of "length ?t" m1 ?ln 0] by (simp only: line_state_def) simp
  then have "str_in ?m ?ln ?t" using z by (simp only: str_in_def) (simp add: mem_read_def)
  moreover have "?m x = m x" if "x \<notin> region ?ln 128" for x
    using m1(2) that line_pos(1) [of "length ?t" ?ln] by (auto simp: line_state_def)
  moreover have "calls (r1 # r2 # r3 # rs) (echo_main E c m) = (Print (echo_str E), m) # (Print ?ln, ?m) #
      (Print (newline_str E), ?m) # calls rs (echo_attempts 4 ?ln (of_nat (length ?t)) ?m)"
    using m1(1) assms(4,5) by (simp add: echo_main_def sys_print_def Let_def)
  ultimately show ?thesis using echo_attempts_calls [of 4 rs ?ln "of_nat (length ?t)" ?m] assms(7)
    by (intro exI [of _ ?m]) (simp add: Let_def)
qed

theorem echo_run_witness:
  "\<exists>m m' c. build_argv 0x22000 [lit ''echo'', lit ''hi''] (\<lambda>_. 0) = (r_ecx c, m) \<and> str_in m' 0x300100 (lit ''echo hi'') \<and>
    calls [0, 0, 0, 0, 0, 1, 0, 0, 0, 0, 0, 0] (echo_main \<lparr>line_at = 0x300100, echo_str = 0x300200, newline_str = 0x300208\<rparr> c m) =
      (Print 0x300200, m) # map (\<lambda>s. (s, m')) [Print 0x300100, Print 0x300208, Send 0 0x300100 7, Sleep 1, Send 0 0x300100 7, Exit]"
proof -
  let ?E = "\<lparr>line_at = 0x300100, echo_str = 0x300200, newline_str = 0x300208\<rparr>" and ?ws = "[lit ''echo'', lit ''hi'']"
  let ?rs = "[0, 0, 1, 0, 0, 0, 0, 0, 0] :: u32 list"
  obtain p m where b: "build_argv 0x22000 ?ws (\<lambda>_. 0) = (p, m)" by fastforce
  let ?c = "example_cpu\<lparr>r_ebx := of_nat (length ?ws), r_ecx := p\<rparr>"
  have d: "region 0x22000 512 \<inter> region (line_at ?E) 128 = {}" by (auto simp: region_iff)
  have j: "join ?ws = lit ''echo hi''" "take 126 (lit ''echo hi'') = lit ''echo hi''" "length (lit ''echo hi'') = 7"
    by (simp_all add: lit_def)
  have r: "refused 4 ?rs = 1" by (simp add: refused_def upt_rec)
  obtain m' where "str_in m' (line_at ?E) (take 126 (join ?ws))"
    "calls (0 # 0 # 0 # ?rs) (echo_main ?E ?c m) =
      (Print (echo_str ?E), m) # map (\<lambda>s. (s, m')) ([Print (line_at ?E), Print (newline_str ?E)] @
        (let send = Send 0 (line_at ?E) (of_nat (length (take 126 (join ?ws)))); n = refused 4 ?rs
         in concat (replicate n [send, Sleep 1]) @ (if n < 4 then [send] else []) @ [Exit]))"
    using echo_run [OF example_argv b _ _ d, of ?c ?rs 0 0 0] by auto
  then show ?thesis using b unfolding j r
    by - (rule exI [of _ m], rule exI [of _ m'], rule exI [of _ ?c], simp add: Let_def)
qed

text \<open>\<open>hello\<close> prints every argument, each followed by a space, then exits.\<close>

lemma hello_args_calls:
  "i \<le> n \<Longrightarrow> n < 2 ^ 32 \<Longrightarrow> length rs = 2 * (n - i) + 2 \<Longrightarrow>
    calls rs (hello_args H (of_nat n) argv (of_nat i) m) = map (\<lambda>s. (s, m))
      (concat (map (\<lambda>j. [Print (rd32 m (argv + 4 * of_nat j)), Print (space_str H)]) [i..<n]) @ [Print (nl_str H), Exit])"
proof (induction "n - i" arbitrary: i rs)
  case 0
  then obtain r r' where "rs = [r, r']" by (cases rs; cases "tl rs") auto
  with 0 show ?case by (subst hello_args.simps) (simp add: sys_print_def sys_exit_def)
next
  case (Suc d)
  then obtain r r' rs' where rs: "rs = r # r' # rs'" by (cases rs; cases "tl rs") auto
  have "(of_nat i :: u32) < of_nat n" using Suc.hyps(2) Suc.prems(2) by (simp add: word_less_nat_alt unat_u32)
  moreover have "calls rs' (hello_args H (of_nat n) argv (of_nat (Suc i)) m) = map (\<lambda>s. (s, m))
      (concat (map (\<lambda>j. [Print (rd32 m (argv + 4 * of_nat j)), Print (space_str H)]) [Suc i..<n]) @ [Print (nl_str H), Exit])"
    using Suc.hyps(2) Suc.prems rs by (intro Suc.hyps(1)) simp_all
  ultimately show ?case using Suc.hyps(2) rs
    by (subst hello_args.simps) (simp add: sys_print_def upt_conv_Cons add.commute)
qed

text \<open>The demonstration task: its greeting, one message with the final zero byte to the shell, the end.\<close>

lemma demo_len_str: "str_in m (msg + word_of_int n) w \<Longrightarrow> demo_len m msg n = Some (n + int (length w))"
proof (induction w arbitrary: n)
  case (Cons b w)
  then have "demo_len m msg (n + 1) = Some (n + 1 + int (length w))" by (simp add: add.assoc)
  then show ?case using Cons.prems by (subst demo_len.simps) (simp add: add.assoc)
qed (simp add: demo_len.simps)

lemma user_task_demo_calls:
  assumes "str_in m (demo_msg D) w"
  shows "calls [r1, r2, r3] (user_task_demo D m) =
    map (\<lambda>s. (s, m)) [Print (demo_str D), Send 0 (demo_msg D) (of_nat (length w + 1)), Exit]"
  using demo_len_str [of m "demo_msg D" 0 w] assms
  by (simp add: user_task_demo_def demo_sys_print_def demo_sys_send_def demo_sys_exit_def)

subsection \<open>From a user program to the screen\<close>

text \<open>C16. The path of a message from a ring-3 program to the console. \<open>sys_send\<close> to task 0 of
  at most 128 bytes, through \<open>int 0x80\<close>, while the mailbox of the shell has room, comes back with 1 in EAX and every
  other register unchanged, and the message with its sender is the last in that mailbox. If it is the only one,
  then the next poll of the shell, whatever happened to the rest of the machine in between, prints the
  sender's PID and the message, up to its 127th byte or first zero.\<close>

theorem message_reaches_shell:
  assumes "sched_inv k" "user_running c k" "active (tasks k 0)" "length (mbox_items (tasks k 0)) < 4"
    "mem_read (kmem k) p n = bytes" "n \<le> 128"
    "\<And>i. i < n \<Longrightarrow> unat (p + of_nat i) \<notin> {stack_of (tasks k) (current_task k)..<stack_of (tasks k) (current_task k) + 4096}"
  defines "call \<equiv> int80 (Send 0 p (of_nat n)) c"
  shows "\<exists>k'. syscall_handler L call k = Ret (call\<lparr>r_eax := 1\<rparr>) k' \<and> sched_inv k' \<and>
    mbox_items (tasks k' 0) = mbox_items (tasks k 0) @ [(bytes, of_nat n, int (current_task k))] \<and>
    (\<forall>s locals. mbox_items (tasks k 0) = [] \<and> current_task (kern (mach s)) = 0 \<and>
        tasks (kern (mach s)) 0 = tasks k' 0 \<and> unat locals + 136 < 2 ^ 32 \<longrightarrow>
      (\<exists>s' ds. shell_poll_ipc locals s = Running s' \<and> dec_value ds = current_task k \<and>
        con s' = con s @ [10] @ lit ''[IPC] Message de la tache '' @ ds @ lit '' : '' @ cname (take 127 bytes) @ [10]))"
proof -
  let ?req = "(kmem k, p, of_nat n, int (current_task k)) :: request" and ?t = "tasks k 0"
  have n: "unat (of_nat n :: u32) = n" "\<not> (of_nat n :: u32) > 128" using assms(6) by (simp_all add: unat_u32 word_less_nat_alt)
  have u: "user_running call k" using assms(2) by (simp add: user_running_def in_ring0_def call_def)
  have ok: "mbox_ok (tasks k' 0)" if "sched_inv k'" for k' using that by (simp add: sched_inv_def table_inv_def)
  obtain okk t where put: "put_request ?req ?t = (okk, t)" by fastforce
  have t: "okk" "mbox_items t = mbox_items ?t @ [delivered ?req]"
    using mq.put_cases [OF ok [OF assms(1)] put] assms(4) by simp_all
  have dl: "delivered ?req = (bytes, of_nat n, int (current_task k))" using n assms(5,6) by (auto simp: delivered_def min_def)
  have s: "ipc_send (sint (r_ebx call)) (r_ecx call) (r_edx call) k = (1, upd_task 0 (\<lambda>_. t) k)"
    using put t(1) assms(3) by (simp add: ipc_send_def valid_pid_def put_request_def call_def)
  have out: "unat (r_ecx call + of_nat i) \<notin> {stack_of (tasks k) (current_task k)..<stack_of (tasks k) (current_task k) + 4096}"
    if "i < unat (if r_edx call > 128 then 128 else r_edx call)" for i
    using assms(7) [of i] that n by (simp add: call_def)
  have e: "r_eax call = SYS_SEND" by (simp add: call_def)
  from send_handled [OF assms(1) u e out s, of L] obtain k' where
    k': "syscall_handler L call k = Ret (call\<lparr>r_eax := 1\<rparr>) k'" "tasks k' 0 = t" "sched_inv k'" by (auto simp: upd_task_def)
  have cu: "current_task k < 16" using assms(1) by (simp add: sched_inv_def)
  have "\<exists>s' ds. shell_poll_ipc locals s = Running s' \<and> dec_value ds = current_task k \<and>
      con s' = con s @ [10] @ lit ''[IPC] Message de la tache '' @ ds @ lit '' : '' @ cname (take 127 bytes) @ [10]"
    if "mbox_items ?t = []" "current_task (kern (mach s)) = 0" "tasks (kern (mach s)) 0 = tasks k' 0" "unat locals + 136 < 2 ^ 32"
    for s :: "'a shell" and locals
  proof -
    have "mbox_ok (cur (kern (mach s)))" using ok [OF k'(3)] that(2,3) by simp
    from poll_shows [OF this that(4)] that t(2) dl k'(2) obtain s' ds where "shell_poll_ipc locals s = Running s'"
      "dec_value ds = unat (word_of_int (int (current_task k)) :: u32)"
      "con s' = con s @ [10] @ lit ''[IPC] Message de la tache '' @ ds @ lit '' : '' @ cname (take 127 bytes) @ [10]" by auto
    then show ?thesis using cu by (auto simp: unat_u32)
  qed
  then show ?thesis using k' t(2) dl by auto
qed

theorem message_reaches_shell_witness:
  "\<exists>k k' bytes. syscall_handler example_layout (int80 (Send 0 0x5000 3) example_cpu) k =
      Ret ((int80 (Send 0 0x5000 3) example_cpu)\<lparr>r_eax := 1\<rparr>) k' \<and> length bytes = 3 \<and> mbox_items (tasks k' 0) = [(bytes, 3, 1)]"
proof -
  obtain k where k: "sched_inv k" "current_task k = 1" "stack_of (tasks k) 1 = 0x10000C" "active (tasks k 0)"
    "mailbox_count (tasks k 0) = 0" "user_running example_cpu k" using boot_user_running example_cpu_ring3 by blast
  have i: "mbox_items (tasks k 0) = []" using k(5) by (simp add: mbox_items_def)
  have m: "unat (0x5000 + of_nat i :: u32) \<notin> {stack_of (tasks k) (current_task k)..<stack_of (tasks k) (current_task k) + 4096}"
    if "i < 3" for i
  proof -
    have "i = 0 \<or> i = 1 \<or> i = 2" using that by arith
    then show ?thesis using k(2,3) by auto
  qed
  obtain bytes where b: "mem_read (kmem k) 0x5000 3 = bytes" "length bytes = 3" by simp
  from message_reaches_shell [OF k(1,6,4) _ b(1) _ m, of example_layout] i k(2) b(2) show ?thesis by auto
qed

end
