(* ===== verification/System.thy ===== *)
theory System
  imports Trap
begin

text \<open>
  The running system: ring-3 programs that compute whatever they like, kernel threads (the shell on the boot
  stack, the clock), timer interrupts and system calls, in any order, as one step relation on the registers and the
  kernel state.

  What each party does is in the rules. A ring-3 program writes any memory that the page tables let
  it write, loads any registers but stays in ring 3, and calls the kernel with any arguments. A kernel thread
  is trusted to write only its own stack and memory outside heap and boot stack, to have room on its stack for a frame
  when it is interrupted, and to start programs whose windows stay clear of heap and boot stack; creating and ending
  tasks is left to the shell. The keyboard interrupt, whose state is not part of the kernel record, uses the kernel
  stack of the current task and returns to it. A fault stops the machine and is not a step.

  Three limits. The calls of a kernel thread into the scheduler, allocator and mailboxes are single steps: interrupts arrive between
  them, not inside. The code does not disable interrupts there, and a call that is interrupted by the
  exit of another task can break the invariant (\<open>task_kill_race\<close>). The kernel does not check the buffers of \<open>SYS_RECV\<close>
  (\<open>sys_recv_unchecked\<close>); \<open>okstep\<close> are the steps in which a program passes only buffers that it may write itself, and the
  statements about whole runs are about these. The data segment registers are left out (see theory Trap), and so is
  what a store of ring 3 into the kernel's initialised statics does to them: those lie in the shared image, which is open to ring
  3 (\<open>paging_shared_image_writable\<close>), while statics are fields here and not bytes of memory.

  \<open>lo\<close> is the lowest address that the shell's stack reaches; its top is 0x90000 (\<open>boot.asm\<close>).
\<close>

subsection \<open>Stacks\<close>

definition stack_low :: "nat \<Rightarrow> kernel \<Rightarrow> nat \<Rightarrow> nat" where
  "stack_low lo k i = (if i = 0 then lo else stack_of (tasks k) i)"

definition stack_high :: "kernel \<Rightarrow> nat \<Rightarrow> nat" where
  "stack_high k i = (if i = 0 then 0x90000 else stack_of (tasks k) i + 4096)"

definition on_stack :: "nat \<Rightarrow> kernel \<Rightarrow> nat \<Rightarrow> u32 \<Rightarrow> bool" where
  "on_stack lo k i x \<longleftrightarrow> stack_low lo k i \<le> unat x \<and> unat x < stack_high k i"

text \<open>The boot stack and the heap, where the other kernel stacks are.\<close>

definition reserved :: "nat \<Rightarrow> u32 \<Rightarrow> bool" where
  "reserved lo x \<longleftrightarrow> lo \<le> unat x \<and> unat x < 0x90000 \<or> 0x100000 \<le> unat x \<and> unat x < HEAP_END"

subsection \<open>Steps\<close>

definition window_clear :: "layout \<Rightarrow> nat \<Rightarrow> u32 \<Rightarrow> u32 \<Rightarrow> u32 \<Rightarrow> u32 \<Rightarrow> bool" where
  "window_clear L lo cb cs sb ss \<longleftrightarrow> unat cb + unat cs < 2 ^ 32 \<and> unat sb + unat ss < 2 ^ 32 \<and>
     (\<forall>v. user_reaches L cb cs sb ss v \<longrightarrow> \<not> reserved lo v)"

definition user_store :: "layout \<Rightarrow> kernel \<Rightarrow> mem \<Rightarrow> bool" where
  "user_store L k m' \<longleftrightarrow> (\<forall>x. m' x \<noteq> kmem k x \<longrightarrow> (\<exists>v. translate L (kpaging k) True True v = Some x))"

definition thread_store :: "nat \<Rightarrow> kernel \<Rightarrow> mem \<Rightarrow> bool" where
  "thread_store lo k m' \<longleftrightarrow> (\<forall>x. m' x \<noteq> kmem k x \<longrightarrow> on_stack lo k (current_task k) x \<or> \<not> reserved lo x)"

definition frame_room :: "nat \<Rightarrow> cpu \<Rightarrow> kernel \<Rightarrow> bool" where
  "frame_room lo c k \<longleftrightarrow> stack_low lo k (current_task k) + 44 \<le> unat (r_esp c) \<and>
     unat (r_esp c) \<le> stack_high k (current_task k) \<and> r_ss c = 0x10"

text \<open>The bytes that \<open>SYS_RECV\<close> is asked to write, and that the caller may write all of them.\<close>

definition recv_buffers :: "cpu \<Rightarrow> u32 set" where
  "recv_buffers c = region (r_ebx c) 128 \<union> (if r_ecx c \<noteq> 0 then region (r_ecx c) 4 else {}) \<union>
     (if r_edx c \<noteq> 0 then region (r_edx c) 4 else {})"

definition recv_allowed :: "layout \<Rightarrow> cpu \<Rightarrow> kernel \<Rightarrow> bool" where
  "recv_allowed L c k \<longleftrightarrow> (\<forall>x \<in> recv_buffers c. \<exists>v. translate L (kpaging k) True True v = Some x)"

lemma recv_buffers_iff:
  "(\<forall>x \<in> recv_buffers c. W x) \<longleftrightarrow>
    (\<forall>x. x \<in> region (r_ebx c) 128 \<or> r_ecx c \<noteq> 0 \<and> x \<in> region (r_ecx c) 4 \<or> r_edx c \<noteq> 0 \<and> x \<in> region (r_edx c) 4 \<longrightarrow> W x)"
  by (auto simp: recv_buffers_def)

inductive thread_call :: "layout \<Rightarrow> nat \<Rightarrow> kernel \<Rightarrow> kernel \<Rightarrow> bool" for L lo where
  print: "thread_call L lo k (k\<lparr>kscreen := scr\<rparr>)"
| sleep: "thread_call L lo k (task_sleep ms k)"
| set_priority: "thread_call L lo k (task_set_priority pid prio k)"
| send: "ipc_send pid data len k = (r, k') \<Longrightarrow> thread_call L lo k k'"
| recv: "ipc_recv out out_len out_sender k = (r, k') \<Longrightarrow> thread_store lo k (kmem k') \<Longrightarrow> thread_call L lo k k'"
| kill: "current_task k = 0 \<Longrightarrow> task_kill pid k = (ok, k') \<Longrightarrow> thread_call L lo k k'"
| create: "current_task k = 0 \<Longrightarrow> create_task L entry name k = Ret pid k' \<Longrightarrow> thread_call L lo k k'"
| create_user: "current_task k = 0 \<Longrightarrow> window_clear L lo cb cs (utop - sz) sz \<Longrightarrow>
    create_user_task_argv L entry name utop sz cb cs ebx ecx k = Ret pid k' \<Longrightarrow> thread_call L lo k k'"

inductive sysstep :: "layout \<Rightarrow> nat \<Rightarrow> cpu \<times> kernel \<Rightarrow> cpu \<times> kernel \<Rightarrow> bool" for L lo where
  user: "\<not> in_ring0 c \<Longrightarrow> \<not> in_ring0 c' \<Longrightarrow> user_store L k m' \<Longrightarrow> sysstep L lo (c, k) (c', k\<lparr>kmem := m'\<rparr>)"
| thread: "in_ring0 c \<Longrightarrow> in_ring0 c' \<Longrightarrow> thread_store lo k m' \<Longrightarrow> sysstep L lo (c, k) (c', k\<lparr>kmem := m'\<rparr>)"
| call: "in_ring0 c \<Longrightarrow> in_ring0 c' \<Longrightarrow> thread_call L lo k k' \<Longrightarrow> sysstep L lo (c, k) (c', k')"
| timer: "in_ring0 c \<longrightarrow> frame_room lo c k \<Longrightarrow> timer_handler L c k = Ret c' k' \<Longrightarrow> sysstep L lo (c, k) (c', k')"
| syscall: "\<not> in_ring0 c \<Longrightarrow> syscall_handler L c k = Ret c' k' \<Longrightarrow> sysstep L lo (c, k) (c', k')"
| keyboard: "(\<And>x. m' x \<noteq> kmem k x \<Longrightarrow> on_stack lo k (current_task k) x) \<Longrightarrow>
    sysstep L lo (c, k) (c, k\<lparr>kmem := m', kscreen := scr\<rparr>)"

text \<open>A step of a program that gives \<open>SYS_RECV\<close> only buffers of its own.\<close>

definition own_buffers :: "layout \<Rightarrow> cpu \<times> kernel \<Rightarrow> cpu \<times> kernel \<Rightarrow> bool" where
  "own_buffers L s s' \<longleftrightarrow> (case s of (c, k) \<Rightarrow> case s' of (c', k') \<Rightarrow>
     \<not> in_ring0 c \<and> r_eax c = SYS_RECV \<and> syscall_handler L c k = Ret c' k' \<longrightarrow> recv_allowed L c k)"

definition okstep :: "layout \<Rightarrow> nat \<Rightarrow> cpu \<times> kernel \<Rightarrow> cpu \<times> kernel \<Rightarrow> bool" where
  "okstep L lo s s' \<longleftrightarrow> sysstep L lo s s' \<and> own_buffers L s s'"

lemma okstep_ring0: "in_ring0 c \<Longrightarrow> okstep L lo (c, k) s' = sysstep L lo (c, k) s'"
  by (cases s') (simp add: okstep_def own_buffers_def)

inductive_cases sysstepE: "sysstep L lo (c, k) (c', k')"

subsection \<open>The invariant\<close>

text \<open>Every task but the shell has a kernel stack in the heap, the shell has the boot stack and no address space, and the
  windows of every address space in use are clear of both.\<close>

definition kern_inv :: "layout \<Rightarrow> nat \<Rightarrow> kernel \<Rightarrow> bool" where
  "kern_inv L lo k \<longleftrightarrow> sched_inv k \<and> heap_start k = 0x100000 \<and>
     active (tasks k 0) \<and> stack_base (tasks k 0) = 0 \<and> addr_space (tasks k 0) = -1 \<and>
     (\<forall>i \<in> live_tasks (tasks k). i \<noteq> 0 \<longrightarrow> stack_base (tasks k i) \<noteq> 0) \<and>
     (\<forall>i \<in> space_owners (tasks k). \<exists>cb cs sb ss.
        space_set L (kpaging k) (nat (addr_space (tasks k i))) cb cs sb ss \<and> window_clear L lo cb cs sb ss)"

text \<open>A frame at \<open>e\<close> that the task \<open>j\<close> can be resumed from: in its own kernel stack, and of ring 3 only if the task has
  an address space.\<close>

definition parked_at :: "nat \<Rightarrow> kernel \<Rightarrow> nat \<Rightarrow> u32 \<Rightarrow> bool" where
  "parked_at lo k j e \<longleftrightarrow> stack_low lo k j \<le> unat e \<and>
     unat e + (if in_ring0 (resume (kmem k) e) then 44 else 52) \<le> stack_high k j \<and>
     (\<not> in_ring0 (resume (kmem k) e) \<longrightarrow> j \<in> space_owners (tasks k))"

definition others_parked :: "nat \<Rightarrow> kernel \<Rightarrow> bool" where
  "others_parked lo k \<longleftrightarrow> (\<forall>j \<in> live_tasks (tasks k). j \<noteq> current_task k \<longrightarrow> parked_at lo k j (esp (tasks k j)))"

text \<open>The processor is set up for the current task: CR3, and TSS.esp0 for all but the shell, which never leaves ring 0.\<close>

definition loaded :: "layout \<Rightarrow> kernel \<Rightarrow> bool" where
  "loaded L k \<longleftrightarrow>
     (current_task k \<noteq> 0 \<longrightarrow> esp0 (tss (kgdt k)) = stack_base (cur k) + TASK_STACK_SIZE) \<and> cr3 (kpaging k) = directory_of L (cur k)"

definition run_inv :: "layout \<Rightarrow> nat \<Rightarrow> cpu \<times> kernel \<Rightarrow> bool" where
  "run_inv L lo s \<longleftrightarrow> (case s of (c, k) \<Rightarrow> kern_inv L lo k \<and> active (cur k) \<and> loaded L k \<and> others_parked lo k \<and>
     (\<not> in_ring0 c \<longrightarrow> current_task k \<in> space_owners (tasks k)))"

definition saved_regs :: "kernel \<Rightarrow> nat \<Rightarrow> cpu" where
  "saved_regs k j = resume (kmem k) (esp (tasks k j))"

subsection \<open>Kernel stacks are apart\<close>

lemma run_inv_iff:
  "run_inv L lo (c, k) \<longleftrightarrow> kern_inv L lo k \<and> active (cur k) \<and> loaded L k \<and> others_parked lo k \<and>
     (\<not> in_ring0 c \<longrightarrow> current_task k \<in> space_owners (tasks k))"
  by (simp add: run_inv_def)

lemma kern_sched: "kern_inv L lo k \<Longrightarrow> sched_inv k"
  by (simp add: kern_inv_def)

lemma kern_current: "kern_inv L lo k \<Longrightarrow> current_task k < 16"
  by (simp add: kern_inv_def sched_inv_def)

lemma kern_owner:
  "kern_inv L lo k \<Longrightarrow> i \<in> live_tasks (tasks k) \<Longrightarrow> i \<noteq> 0 \<Longrightarrow> i \<in> stack_owners (tasks k)"
  by (auto simp: kern_inv_def stack_owners_def)

lemma kern_stack_bounds:
  assumes "kern_inv L lo k" "i \<in> stack_owners (tasks k)"
  shows "0x100000 \<le> stack_of (tasks k) i \<and> stack_of (tasks k) i + 4096 \<le> HEAP_END"
proof -
  have hs: "heap_start k = 0x100000" using assms(1) by (simp add: kern_inv_def)
  from inv_buffers [OF kern_sched [OF assms(1)]] obtain B where
    B: "heap_rep (heap_start k) (kmem k) B" "fst ` B = stack_of (tasks k) ` stack_owners (tasks k)" "\<forall>e \<in> B. 4096 \<le> snd e"
    by (auto simp: buffers_def)
  then obtain n where n: "(stack_of (tasks k) i, n) \<in> B" using assms(2) by force
  with heap_rep_bounds [OF B(1) n] B(3) hs show ?thesis by auto
qed

lemma on_stack_reserved:
  assumes "kern_inv L lo k" "i \<in> live_tasks (tasks k)" "on_stack lo k i x"
  shows "reserved lo x"
  using assms(3) kern_stack_bounds [OF assms(1) kern_owner [OF assms(1,2)]]
  by (auto simp: on_stack_def stack_low_def stack_high_def reserved_def split: if_splits)

lemma stacks_apart:
  assumes "kern_inv L lo k" "i \<in> live_tasks (tasks k)" "j \<in> live_tasks (tasks k)" "i \<noteq> j" "on_stack lo k i x"
  shows "\<not> on_stack lo k j x"
proof -
  let ?S = "stack_of (tasks k)"
  have o: "d \<in> stack_owners (tasks k) \<and> 0x100000 \<le> ?S d" if "d = i \<or> d = j" "d \<noteq> 0" for d
    using that kern_owner [OF assms(1)] kern_stack_bounds [OF assms(1)] assms(2,3) by blast
  have "?S i + 4096 \<le> ?S j \<or> ?S j + 4096 \<le> ?S i" if "i \<noteq> 0" "j \<noteq> 0"
  proof -
    have "?S i \<noteq> ?S j" using o [of i] o [of j] that assms(1,4)
      by (auto simp: kern_inv_def sched_inv_def table_inv_def dest: inj_onD)
    then show ?thesis using kheap.buffers_separate [OF inv_buffers [OF kern_sched [OF assms(1)]]] o that by blast
  qed
  then show ?thesis using assms(4,5) o [of i] o [of j]
    by (auto simp: on_stack_def stack_low_def stack_high_def split: if_splits)
qed

lemma stack_high_bound:
  assumes "kern_inv L lo k" "i \<in> live_tasks (tasks k)"
  shows "stack_high k i < 2 ^ 32"
proof (cases "i = 0")
  case False
  then show ?thesis using kern_stack_bounds [OF assms(1) kern_owner [OF assms]] by (simp add: stack_high_def)
qed (simp add: stack_high_def)

lemma thread_store_keeps:
  assumes "kern_inv L lo k" "active (cur k)" "thread_store lo k m'" "j \<in> live_tasks (tasks k)" "j \<noteq> current_task k" "on_stack lo k j x"
  shows "m' x = kmem k x"
proof -
  have "current_task k \<in> live_tasks (tasks k)" using assms(2) kern_current [OF assms(1)] by (simp add: live_tasks_def)
  then show ?thesis
    using assms(3) stacks_apart [OF assms(1,4) _ assms(5,6)] on_stack_reserved [OF assms(1,4,6)] by (auto simp: thread_store_def)
qed

text \<open>A frame is what it was as long as the stack around it is.\<close>

lemma frame_kept:
  assumes "parked_at lo k j e" "stack_high k j < 2 ^ 32" "\<And>x. on_stack lo k j x \<Longrightarrow> m' x = kmem k x"
  shows "resume m' e = resume (kmem k) e"
proof (rule resume_cong)
  let ?n = "if in_ring0 (resume (kmem k) e) then 44 else 52 :: nat"
  have b: "stack_low lo k j \<le> unat e" "unat e + ?n \<le> stack_high k j" using assms(1) by (auto simp: parked_at_def)
  fix x assume "x \<in> region e ?n"
  then have "unat e \<le> unat x \<and> unat x < unat e + ?n" using region_iff [of e ?n x] b(2) assms(2) by linarith
  then show "m' x = kmem k x" using b by (intro assms(3)) (auto simp: on_stack_def)
qed

lemma parked_kept:
  assumes "parked_at lo k j e" "stack_high k j < 2 ^ 32" "\<And>x. on_stack lo k j x \<Longrightarrow> kmem k' x = kmem k x"
    "stack_base (tasks k' j) = stack_base (tasks k j)" "addr_space (tasks k' j) = addr_space (tasks k j)"
    "active (tasks k' j) = active (tasks k j)"
  shows "parked_at lo k' j e" "resume (kmem k') e = resume (kmem k) e"
proof -
  show r: "resume (kmem k') e = resume (kmem k) e" using frame_kept [OF assms(1,2), of "kmem k'"] assms(3) by blast
  have "stack_low lo k' j = stack_low lo k j" "stack_high k' j = stack_high k j"
    using assms(4) by (simp_all add: stack_low_def stack_high_def stack_of_def)
  moreover have "j \<in> space_owners (tasks k') \<longleftrightarrow> j \<in> space_owners (tasks k)"
    using assms(5,6) by (simp add: space_owners_def live_tasks_def)
  ultimately show "parked_at lo k' j e" using assms(1) by (simp add: parked_at_def r)
qed

subsection \<open>Stores\<close>

lemma thread_store_inv:
  assumes "kern_inv L lo k" "active (cur k)" "thread_store lo k m'"
  shows "sched_inv (k\<lparr>kmem := m'\<rparr>)"
proof -
  let ?i = "current_task k"
  have live: "?i \<in> live_tasks (tasks k)" using assms(2) kern_current [OF assms(1)] by (simp add: live_tasks_def)
  have hs: "heap_start k = 0x100000" using assms(1) by (simp add: kern_inv_def)
  define m1 where "m1 = (\<lambda>x. if on_stack lo k ?i x then m' x else kmem k x)"
  have "safe_store k m1"
  proof (cases "?i = 0")
    case True
    then show ?thesis unfolding safe_store_def m1_def hs by (auto simp: on_stack_def stack_high_def)
  next
    case False
    then show ?thesis using kern_owner [OF assms(1) live] unfolding safe_store_def m1_def
      by (auto simp: on_stack_def stack_high_def stack_low_def)
  qed
  from safe_store_inv [OF kern_sched [OF assms(1)] this] have s1: "sched_inv (k\<lparr>kmem := m1\<rparr>)" .
  have "safe_store (k\<lparr>kmem := m1\<rparr>) m'"
    using assms(3) unfolding safe_store_def
    by (intro disjI2) (auto simp: thread_store_def m1_def hs reserved_def not_less [symmetric])
  from safe_store_inv [OF s1 this] show ?thesis by simp
qed

text \<open>What ring 3 reaches in the address space of a task.\<close>

lemma space_translate:
  assumes "paging_layout_ok L" "text_start L < ro_end L" "kern_inv L lo k" "j \<in> space_owners (tasks k)"
    "space_set L (kpaging k) (nat (addr_space (tasks k j))) cb cs sb ss" "window_clear L lo cb cs sb ss"
  shows "translate L (paging_switch_directory (directory_of L (tasks k j)) (kpaging k)) True write v =
    (if unat v < 4194304 \<and> user_reaches L cb cs sb ss v then Some v else None)"
proof -
  let ?t = "tasks k j" and ?p = "paging_switch_directory (directory_of L (tasks k j)) (kpaging k)"
  have "addr_space ?t \<in> used_spaces (kpaging k)"
    using assms(3,4) by (auto simp: kern_inv_def sched_inv_def table_inv_def owned_def)
  then have a: "0 \<le> addr_space ?t" "nat (addr_space ?t) < 6" "\<not> 6 \<le> addr_space ?t" by (auto simp: used_spaces_def)
  have "cr3 ?p = row (task_directories_at L) (nat (addr_space ?t))"
    using a by (simp add: paging_switch_directory_def directory_of_def paging_task_directory_phys_def)
  moreover have "space_set L ?p (nat (addr_space ?t)) cb cs sb ss" using assms(5) by (simp add: space_set_def paging_switch_directory_def)
  ultimately show ?thesis using translate_space [OF assms(1,2) a(2)] assms(6) by (simp add: window_clear_def)
qed

lemma loaded_switch: "loaded L k \<Longrightarrow> paging_switch_directory (directory_of L (cur k)) (kpaging k) = kpaging k"
  by (simp add: loaded_def paging_switch_directory_def)

text \<open>What ring 3 can write is neither heap nor boot stack.\<close>

lemma user_writes:
  assumes "paging_layout_ok L" "text_start L < ro_end L" "run_inv L lo (c, k)" "\<not> in_ring0 c"
    "translate L (kpaging k) True True v = Some x"
  shows "\<not> reserved lo x"
proof -
  have o: "current_task k \<in> space_owners (tasks k)" "loaded L k" "kern_inv L lo k" using assms(3,4) by (auto simp: run_inv_iff)
  then obtain cb cs sb ss where w: "space_set L (kpaging k) (nat (addr_space (cur k))) cb cs sb ss" "window_clear L lo cb cs sb ss"
    by (auto simp: kern_inv_def)
  from space_translate [OF assms(1,2) o(3,1) w, of True v] w(2) assms(5) show ?thesis
    by (auto simp: window_clear_def loaded_switch [OF o(2)] split: if_splits)
qed

lemma user_store_thread:
  assumes "paging_layout_ok L" "text_start L < ro_end L" "run_inv L lo (c, k)" "\<not> in_ring0 c" "user_store L k m'"
  shows "thread_store lo k m'"
  using user_writes [OF assms(1-4)] assms(5) unfolding user_store_def thread_store_def by blast

text \<open>A step that leaves the task table, up to mailboxes, sleep and priority, and the setting of the processor alone.\<close>

definition same_roles :: "kernel \<Rightarrow> kernel \<Rightarrow> bool" where
  "same_roles k k' \<longleftrightarrow> heap_start k' = heap_start k \<and> current_task k' = current_task k \<and> kgdt k' = kgdt k \<and> kpaging k' = kpaging k \<and>
     (\<forall>i. active (tasks k' i) = active (tasks k i) \<and> stack_base (tasks k' i) = stack_base (tasks k i) \<and>
        addr_space (tasks k' i) = addr_space (tasks k i) \<and> esp (tasks k' i) = esp (tasks k i))"

lemma same_roles_sets:
  assumes "same_roles k k'"
  shows "live_tasks (tasks k') = live_tasks (tasks k)" "space_owners (tasks k') = space_owners (tasks k)"
    "stack_owners (tasks k') = stack_owners (tasks k)"
  using assms by (auto simp: same_roles_def live_tasks_def space_owners_def stack_owners_def)

lemma same_roles_stacks:
  assumes "same_roles k k'"
  shows "stack_low lo k' j = stack_low lo k j" "stack_high k' j = stack_high k j" "on_stack lo k' j x = on_stack lo k j x"
  using assms by (simp_all add: same_roles_def stack_low_def stack_high_def stack_of_def on_stack_def)

lemma same_roles_kern:
  assumes "kern_inv L lo k" "same_roles k k'" "sched_inv k'"
  shows "kern_inv L lo k'"
  unfolding kern_inv_def same_roles_sets [OF assms(2)]
  using assms by (simp add: kern_inv_def same_roles_def)

lemma run_inv_store:
  assumes "run_inv L lo (c, k)" "same_roles k k'" "sched_inv k'"
    "\<And>j x. j \<in> live_tasks (tasks k) \<Longrightarrow> j \<noteq> current_task k \<Longrightarrow> on_stack lo k j x \<Longrightarrow> kmem k' x = kmem k x"
    "in_ring0 c \<longrightarrow> in_ring0 c'"
  shows "run_inv L lo (c', k')"
    and "\<And>j. j \<in> live_tasks (tasks k) \<Longrightarrow> j \<noteq> current_task k \<Longrightarrow> saved_regs k' j = saved_regs k j"
proof -
  have k: "kern_inv L lo k" "active (cur k)" "others_parked lo k" "loaded L k" using assms(1) by (simp_all add: run_inv_iff)
  have f: "esp (tasks k' j) = esp (tasks k j)" "stack_base (tasks k' j) = stack_base (tasks k j)"
    "addr_space (tasks k' j) = addr_space (tasks k j)" "active (tasks k' j) = active (tasks k j)" for j
    using assms(2) by (simp_all add: same_roles_def)
  have c: "current_task k' = current_task k" using assms(2) by (simp add: same_roles_def)
  have p: "parked_at lo k' j (esp (tasks k j))" "resume (kmem k') (esp (tasks k j)) = resume (kmem k) (esp (tasks k j))"
    if "j \<in> live_tasks (tasks k)" "j \<noteq> current_task k" for j
  proof -
    have "parked_at lo k j (esp (tasks k j))" using k(3) that by (simp add: others_parked_def)
    note pk = parked_kept [OF this stack_high_bound [OF k(1) that(1)] assms(4) [OF that] f(2-4)]
    show "parked_at lo k' j (esp (tasks k j))" by (rule pk(1))
    show "resume (kmem k') (esp (tasks k j)) = resume (kmem k) (esp (tasks k j))" by (rule pk(2))
  qed
  then show "saved_regs k' j = saved_regs k j" if "j \<in> live_tasks (tasks k)" "j \<noteq> current_task k" for j
    using that f(1) by (simp add: saved_regs_def)
  have "loaded L k'" using k(4) assms(2) by (simp add: loaded_def same_roles_def directory_of_def)
  moreover have "others_parked lo k'" using p(1) by (simp add: others_parked_def same_roles_sets [OF assms(2)] f(1) c)
  ultimately show "run_inv L lo (c', k')"
    using same_roles_kern [OF k(1) assms(2,3)] k(2) f(4) c assms(1,5) by (auto simp: run_inv_iff same_roles_sets [OF assms(2)])
qed

subsection \<open>Entering the kernel\<close>

text \<open>The frame of an interrupted kernel thread: 44 bytes below its stack pointer, with no switch of stacks.\<close>

lemma save_context_ring0:
  assumes "in_ring0 c" "44 \<le> unat (r_esp c)" "r_ss c = 0x10" "save_context_regs c k = (e, k1)"
  shows "e = r_esp c - 44" "k1 = k\<lparr>kmem := kmem k1\<rparr>" "resume (kmem k1) e = c"
    "\<And>x. unat x < unat (r_esp c) - 44 \<or> unat (r_esp c) \<le> unat x \<Longrightarrow> kmem k1 x = kmem k x"
proof -
  let ?sp = "r_esp c"
  define ws where "ws = [r_eflags c, r_cs c, r_eip c] @ pushal_words c (?sp - 12)"
  have len: "length ws = 11" by (simp add: ws_def pushal_words_def)
  obtain m1 where m1: "push_words [r_eflags c, r_cs c, r_eip c] (kmem k) ?sp = (m1, ?sp - 12)" by simp
  obtain m2 where m2: "push_words (pushal_words c (?sp - 12)) m1 (?sp - 12) = (m2, ?sp - 44)"
    by (simp add: pushal_words_def)
  have pw: "push_words ws (kmem k) ?sp = (m2, ?sp - 44)" by (simp only: ws_def push_words_append m1 m2 Let_def prod.case)
  have sv: "save_context_regs c k = (?sp - 44, k\<lparr>kmem := m2\<rparr>)" using assms(1) m1 m2
    by (simp add: save_context_regs_def trap_words_def)
  show e: "e = ?sp - 44" and k1: "k1 = k\<lparr>kmem := kmem k1\<rparr>" using sv assms(4) by auto
  have km: "kmem k1 = m2" using sv assms(4) by auto
  show "kmem k1 x = kmem k x" if "unat x < unat ?sp - 44 \<or> unat ?sp \<le> unat x" for x
    using push_words_outside [of ws ?sp x "kmem k"] that assms(2) pw len by (simp add: km)
  have w: "rd32 m2 (e + 4 * of_nat i) = ws ! (10 - i)" if "i < 11" for i
    using frame_word [OF pw, of i] assms(2) that len by (simp add: e)
  have ring: "r_cs c AND 3 = 0" using assms(1) by (simp add: in_ring0_def)
  show "resume (kmem k1) e = c"
    using w [of 0] w [of 1] w [of 2] w [of 4] w [of 5] w [of 6] w [of 7] w [of 8] w [of 9] w [of 10] ring assms(3)
    by (simp add: resume_def ws_def pushal_words_def km Let_def e)
qed

lemma run_user_running:
  assumes "run_inv L lo (c, k)" "\<not> in_ring0 c"
  shows "user_running c k" "current_task k \<noteq> 0"
proof -
  have k: "kern_inv L lo k" "current_task k \<in> space_owners (tasks k)" "loaded L k" using assms by (simp_all add: run_inv_iff)
  have "addr_space (tasks k 0) = -1" "0 \<le> addr_space (cur k)" using k(1,2) by (simp_all add: kern_inv_def space_owners_def)
  then show n: "current_task k \<noteq> 0" by (intro notI) simp
  have "current_task k \<in> live_tasks (tasks k)" using k(2) by (simp add: space_owners_def)
  from kern_owner [OF k(1) this n] show "user_running c k" using assms(2) k(3) n by (simp add: user_running_def loaded_def)
qed

text \<open>Interrupt or system call: the context is on the kernel stack of the interrupted task and nothing else changed.\<close>

lemma enter_kernel:
  assumes "run_inv L lo (c, k)" "in_ring0 c \<longrightarrow> frame_room lo c k" "save_context_regs c k = (e, k1)"
  shows "k1 = k\<lparr>kmem := kmem k1\<rparr>" "thread_store lo k (kmem k1)" "parked_at lo k1 (current_task k) e" "resume (kmem k1) e = c"
    "\<And>x. kmem k1 x \<noteq> kmem k x \<Longrightarrow> on_stack lo k (current_task k) x"
proof -
  let ?i = "current_task k"
  have k: "kern_inv L lo k" using assms(1) by (simp add: run_inv_iff)
  have all: "k1 = k\<lparr>kmem := kmem k1\<rparr> \<and> resume (kmem k1) e = c \<and> stack_low lo k ?i \<le> unat e \<and>
      unat e + (if in_ring0 c then 44 else 52) \<le> stack_high k ?i \<and> (\<forall>x. kmem k1 x \<noteq> kmem k x \<longrightarrow> on_stack lo k ?i x)"
  proof (cases "in_ring0 c")
    case True
    then have r: "stack_low lo k ?i + 44 \<le> unat (r_esp c)" "unat (r_esp c) \<le> stack_high k ?i" "r_ss c = 0x10"
      using assms(2) by (simp_all add: frame_room_def)
    have a: "44 \<le> unat (r_esp c)" using r(1) by linarith
    note s = save_context_ring0 [OF True a r(3) assms(3)]
    have e: "unat e = unat (r_esp c) - 44" using unat_sub_nat [of 44 "r_esp c"] a s(1) by simp
    have "on_stack lo k ?i x" if "kmem k1 x \<noteq> kmem k x" for x
    proof -
      have "unat (r_esp c) - 44 \<le> unat x \<and> unat x < unat (r_esp c)" using s(4) [of x] that by linarith
      then show ?thesis using r(1,2) by (auto simp: on_stack_def)
    qed
    then show ?thesis using s(2,3) e r a True by auto
  next
    case False
    note u = run_user_running [OF assms(1) False]
    note s = save_context_effect [OF kern_sched [OF k] u(1) assms(3)] and t = user_stack_top [OF kern_sched [OF k] u(1) refl]
    let ?t = "esp0 (tss (kgdt k))"
    have e: "unat e = unat ?t - 52" using unat_sub_nat [of 52 ?t] t(2) s(2) by simp
    have "resume (kmem k1) e = c"
      by (rule resume_words [OF False, of _ _ ?t]) (use pushed_words [OF t(2)] s(1,2) in simp)
    moreover have "on_stack lo k ?i x" if "kmem k1 x \<noteq> kmem k x" for x
    proof -
      have "\<not> unat x < unat ?t - 52" "\<not> unat ?t \<le> unat x" using s(4) [of x] that by auto
      then show ?thesis using t u(2) by (auto simp: on_stack_def stack_low_def stack_high_def)
    qed
    ultimately show ?thesis using s(1) e t(1) u(2) False by (auto simp: stack_low_def stack_high_def)
  qed
  then show k1: "k1 = k\<lparr>kmem := kmem k1\<rparr>" and r: "resume (kmem k1) e = c" and "thread_store lo k (kmem k1)"
    and "\<And>x. kmem k1 x \<noteq> kmem k x \<Longrightarrow> on_stack lo k (current_task k) x"
    by (auto simp: thread_store_def)
  have "tasks k1 = tasks k" by (subst k1) simp
  then show "parked_at lo k1 ?i e" using all r assms(1)
    by (auto simp: parked_at_def stack_low_def stack_high_def run_inv_iff)
qed

subsection \<open>Dispatching\<close>

text \<open>\<open>schedule\<close> with the frame of the current task, if that is still alive, at \<open>e\<close>.\<close>

lemma schedule_roles:
  assumes "current_task k < 16" "multitasking_enabled k" "schedule L e k = Ret r k'"
  shows "r = esp (cur k')" "kmem k' = kmem k" "heap_start k' = heap_start k" "active (cur k')" "loaded L k'"
    "\<And>i. active (tasks k' i) = active (tasks k i) \<and> stack_base (tasks k' i) = stack_base (tasks k i) \<and>
      addr_space (tasks k' i) = addr_space (tasks k i) \<and> esp (tasks k' i) = (if i = current_task k then e else esp (tasks k i))"
    "\<And>n cb cs sb ss. space_set L (kpaging k') n cb cs sb ss = space_set L (kpaging k) n cb cs sb ss"
proof -
  let ?ts = "woken (ticks (kpit k) + 1) {0..<16} (save_context e k)"
  obtain n where n: "policy (ticks (kpit k) + 1) (current_task k) (tasks k) n" "\<not> n < 0" "r = esp (?ts (nat n))"
    "k' = k\<lparr>kpit := timer_tick (kpit k), tasks := ?ts, current_task := nat n,
       kgdt := tss_set_kernel_stack (stack_base (?ts (nat n)) + TASK_STACK_SIZE) (kgdt k),
       kpaging := paging_switch_directory (directory_of L (?ts (nat n))) (kpaging k)\<rparr>"
    using schedule_cases [OF assms(1,2), of e L] assms(3) by (auto simp: Let_def split: if_splits)
  have ts: "active (?ts i) = active (tasks k i) \<and> stack_base (?ts i) = stack_base (tasks k i) \<and>
      addr_space (?ts i) = addr_space (tasks k i) \<and> esp (?ts i) = (if i = current_task k then e else esp (tasks k i))" for i
    by (simp add: woken_def save_context_def)
  show "r = esp (cur k')" "kmem k' = kmem k" "heap_start k' = heap_start k" using n(3,4) by simp_all
  have "active (tasks k (nat n))" using policy_active [OF n(1)] n(2) by auto
  then show "active (cur k')" using ts n(4) by simp
  show "loaded L k'" by (simp add: n(4) loaded_def tss_set_kernel_stack_def paging_switch_directory_def)
  show "active (tasks k' i) = active (tasks k i) \<and> stack_base (tasks k' i) = stack_base (tasks k i) \<and>
      addr_space (tasks k' i) = addr_space (tasks k i) \<and> esp (tasks k' i) = (if i = current_task k then e else esp (tasks k i))" for i
    using ts by (simp add: n(4))
  show "space_set L (kpaging k') n cb cs sb ss = space_set L (kpaging k) n cb cs sb ss" for n cb cs sb ss
    by (simp add: n(4) space_set_def paging_switch_directory_def)
qed

lemma dispatch_inv:
  assumes "kern_inv L lo k" "others_parked lo k" "active (cur k) \<Longrightarrow> parked_at lo k (current_task k) e" "schedule L e k = Ret r k'"
  shows "run_inv L lo (resume (kmem k') r, k')" "resume (kmem k') r = saved_regs k' (current_task k')"
    "\<And>j. saved_regs k' j = (if j = current_task k then resume (kmem k) e else saved_regs k j)"
    "\<And>j. active (tasks k' j) = active (tasks k j)"
proof -
  note s = schedule_inv [OF kern_sched [OF assms(1)] assms(4)]
  have "current_task k < 16" "multitasking_enabled k" using kern_sched [OF assms(1)] by (simp_all add: sched_inv_def)
  note d = schedule_roles [OF this assms(4)]
  have sets: "live_tasks (tasks k') = live_tasks (tasks k)" "space_owners (tasks k') = space_owners (tasks k)"
    using d(6) by (auto simp: live_tasks_def space_owners_def)
  have k': "kern_inv L lo k'" unfolding kern_inv_def sets using assms(1) s d(3,6,7) by (simp add: kern_inv_def)
  have p: "parked_at lo k' j (esp (tasks k' j))" if "j \<in> live_tasks (tasks k)" for j
  proof -
    have "parked_at lo k j (if j = current_task k then e else esp (tasks k j))"
      using assms(2,3) that by (auto simp: others_parked_def live_tasks_def)
    then show ?thesis using parked_kept(1) [of lo k j _ k'] stack_high_bound [OF assms(1) that] d(2,6) by simp
  qed
  show saved: "saved_regs k' j = (if j = current_task k then resume (kmem k) e else saved_regs k j)" for j
    using d(2,6) by (simp add: saved_regs_def)
  show r: "resume (kmem k') r = saved_regs k' (current_task k')" using d(1) by (simp add: saved_regs_def)
  show "active (tasks k' j) = active (tasks k j)" for j using d(6) by simp
  have "current_task k' \<in> live_tasks (tasks k)" using d(4) kern_current [OF k'] sets(1) by (auto simp: live_tasks_def)
  with p have "parked_at lo k' (current_task k') (esp (cur k'))" by blast
  then show "run_inv L lo (resume (kmem k') r, k')"
    using k' d(1,4,5) p by (auto simp: run_inv_iff others_parked_def sets parked_at_def)
qed

end
