(* ===== verification/System_Steps.thy ===== *)
theory System_Steps
  imports System
begin

text \<open>
  Every step of the running system of theory System, rule by rule, keeps the invariant and the saved contexts: stores, the
  calls of the kernel threads (creating and ending tasks among them), the timer interrupt and the system calls.
\<close>

subsection \<open>One step\<close>

text \<open>What every step does: it keeps the invariant and the context of every task that does not run and is not ended, and
  it gives the processor to another task only with the registers saved for that task.\<close>

definition keeps_contexts :: "layout \<Rightarrow> nat \<Rightarrow> kernel \<Rightarrow> cpu \<times> kernel \<Rightarrow> bool" where
  "keeps_contexts L lo k s' \<longleftrightarrow> run_inv L lo s' \<and>
     (\<forall>j \<in> live_tasks (tasks k). j \<in> live_tasks (tasks (snd s')) \<and> j \<noteq> current_task k \<longrightarrow> saved_regs (snd s') j = saved_regs k j) \<and>
     (current_task (snd s') \<noteq> current_task k \<longrightarrow> fst s' = saved_regs (snd s') (current_task (snd s')))"

lemma keeps_store:
  assumes "run_inv L lo (c, k)" "same_roles k k'" "sched_inv k'" "thread_store lo k (kmem k')" "in_ring0 c \<longrightarrow> in_ring0 c'"
  shows "keeps_contexts L lo k (c', k')"
proof -
  have "kern_inv L lo k" "active (cur k)" using assms(1) by (simp_all add: run_inv_iff)
  from run_inv_store [OF assms(1-3) thread_store_keeps [OF this assms(4)] assms(5)] assms(2) show ?thesis
    by (auto simp: keeps_contexts_def same_roles_def)
qed

lemma keeps_memory:
  assumes "run_inv L lo (c, k)" "thread_store lo k m'" "in_ring0 c \<longrightarrow> in_ring0 c'"
  shows "keeps_contexts L lo k (c', k\<lparr>kmem := m'\<rparr>)"
  using thread_store_inv [of L lo k m'] assms by (intro keeps_store) (auto simp: same_roles_def run_inv_iff)

lemma same_memory: "kmem k' = kmem k \<Longrightarrow> thread_store lo k (kmem k')"
  by (simp add: thread_store_def)

lemma roles_upd:
  assumes "active t = active (tasks k i)" "stack_base t = stack_base (tasks k i)" "addr_space t = addr_space (tasks k i)"
    "esp t = esp (tasks k i)"
  shows "same_roles k (upd_task i (\<lambda>_. t) (k\<lparr>kmem := m\<rparr>))"
  using assms by (simp add: same_roles_def upd_task_def)

lemma roles_update:
  assumes "\<And>t. active (f t) = active t \<and> stack_base (f t) = stack_base t \<and> addr_space (f t) = addr_space t \<and> esp (f t) = esp t"
  shows "same_roles k (upd_task i f k)"
  using assms by (simp add: same_roles_def upd_task_def)

lemma send_roles:
  assumes "ipc_send pid data len k = (r, k')"
  shows "same_roles k k'" "kmem k' = kmem k"
proof -
  obtain ok t where p: "mailbox_put (kmem k) data len (int (current_task k)) (tasks k (nat pid)) = (ok, t)" by fastforce
  have "same_roles k (upd_task (nat pid) (\<lambda>_. t) k)" using mailbox_put_fields [OF p] roles_upd [of t k "nat pid" "kmem k"] by simp
  moreover have "same_roles k k" by (simp add: same_roles_def)
  ultimately show "same_roles k k'" "kmem k' = kmem k"
    using assms p by (auto simp: ipc_send_def upd_task_def split: if_splits)
qed

lemma recv_msg_roles:
  assumes "ipc_recv_msg out k = (v, k')" "mbox_ok (cur k)"
  shows "same_roles k k'" "\<And>x. x \<notin> region out 128 \<Longrightarrow> kmem k' x = kmem k x"
proof -
  obtain w t where g: "mailbox_get (cur k) = (w, t)" by fastforce
  note f = mailbox_get_fields [OF g]
  have "same_roles k k' \<and> (\<forall>x. x \<notin> region out 128 \<longrightarrow> kmem k' x = kmem k x)"
  proof (cases w)
    case None
    then show ?thesis using assms(1) g by (auto simp: ipc_recv_msg_def same_roles_def)
  next
    case (Some msg)
    obtain bytes len sender where m: "msg = (bytes, len, sender)" by (cases msg)
    have k': "k' = upd_task (current_task k) (\<lambda>_. t) (k\<lparr>kmem := mem_write (kmem k) out bytes\<rparr>)"
      using assms(1) g Some m by (auto simp: ipc_recv_msg_def)
    have "length bytes \<le> 128"
      using g Some m assms(2) by (auto simp: mailbox_get_def mbox_ok_def Let_def word_le_nat_alt split: if_splits dest!: spec [of _ "mailbox_head (cur k)"])
    then have "x \<notin> region out (length bytes)" if "x \<notin> region out 128" for x using that by (simp add: in_region)
    then have "kmem k' x = kmem k x" if "x \<notin> region out 128" for x
      using mem_write_outside [of bytes x out "kmem k"] that \<open>length bytes \<le> 128\<close> by (simp add: k' upd_task_def)
    moreover have "same_roles k k'" unfolding k' using f by (intro roles_upd) simp_all
    ultimately show ?thesis by blast
  qed
  then show "same_roles k k'" "\<And>x. x \<notin> region out 128 \<Longrightarrow> kmem k' x = kmem k x" by blast+
qed

text \<open>\<open>SYS_RECV\<close> writes where its three pointers say, and the result in the register block.\<close>

lemma sys_recv_writes:
  assumes "mbox_ok (cur k)" "regs_ebx regs (kmem k) = b" "regs_ecx regs (kmem k) = p" "regs_edx regs (kmem k) = q"
    "\<forall>x. x \<in> region b 128 \<or> p \<noteq> 0 \<and> x \<in> region p 4 \<or> q \<noteq> 0 \<and> x \<in> region q 4 \<longrightarrow> W x"
    "\<forall>x. x \<in> region (regs + 24) 4 \<or> x \<in> region (regs + 20) 4 \<longrightarrow> \<not> W x"
  shows "same_roles k (sys_recv regs k)" "kmem (sys_recv regs k) x \<noteq> kmem k x \<Longrightarrow> W x \<or> x \<in> region (regs + 28) 4"
proof -
  obtain v k1 where r: "ipc_recv_msg b k = (v, k1)" by fastforce
  note rm = recv_msg_roles [OF r assms(1)]
  have set_eax: "same_roles k (set_regs_eax regs u (k1\<lparr>kmem := m\<rparr>))" for u m using rm(1) by (simp add: same_roles_def set_regs_eax_def)
  have "same_roles k (sys_recv regs k) \<and> (\<forall>x. \<not> W x \<and> x \<notin> region (regs + 28) 4 \<longrightarrow> kmem (sys_recv regs k) x = kmem k x)"
  proof (cases v)
    case None
    then have "sys_recv regs k = set_regs_eax regs 0 k1" using r assms(2) by (simp add: sys_recv_def)
    then show ?thesis using set_eax [of 0 "kmem k1"] rm(2) assms(5) by (auto simp: set_regs_eax_def wr32_outside)
  next
    case (Some ls)
    obtain len sender where ls: "ls = (len, sender)" by (cases ls)
    define m1 where "m1 = (if p \<noteq> 0 then wr32 (kmem k1) p len else kmem k1)"
    define m2 where "m2 = (if q \<noteq> 0 then wr32 m1 q (word_of_int sender) else m1)"
    have k1: "kmem k1 x = kmem k x" "m1 x = kmem k x" "m2 x = kmem k x" if "\<not> W x" for x
    proof -
      have n: "x \<notin> region b 128" "p \<noteq> 0 \<longrightarrow> x \<notin> region p 4" "q \<noteq> 0 \<longrightarrow> x \<notin> region q 4" using assms(5) that by blast+
      show "kmem k1 x = kmem k x" by (rule rm(2) [OF n(1)])
      then show "m1 x = kmem k x" using n(2) by (simp add: m1_def wr32_outside)
      then show "m2 x = kmem k x" using n(3) by (simp add: m2_def wr32_outside)
    qed
    have e: "regs_ecx regs (kmem k1) = p" "regs_edx regs m1 = q"
      using assms(3,4,6) k1 rd32_cong [of "regs + 24" "kmem k1" "kmem k"] rd32_cong [of "regs + 20" m1 "kmem k"]
      by (auto simp: regs_ecx_def regs_edx_def)
    have "sys_recv regs k = set_regs_eax regs 1 (k1\<lparr>kmem := m2\<rparr>)"
      using r Some ls assms(2) e by (cases "p = 0"; cases "q = 0") (simp_all add: sys_recv_def m1_def m2_def Let_def)
    then show ?thesis using set_eax [of 1 m2] k1(3) by (auto simp: set_regs_eax_def wr32_outside)
  qed
  then show "same_roles k (sys_recv regs k)" "kmem (sys_recv regs k) x \<noteq> kmem k x \<Longrightarrow> W x \<or> x \<in> region (regs + 28) 4" by blast+
qed

subsection \<open>Ending and creating tasks\<close>

lemma end_task_outside:
  assumes "kern_inv L lo k" "pid \<in> live_tasks (tasks k)" "pid \<noteq> 0" "unat x < 0x100000 \<or> HEAP_END \<le> unat x"
  shows "kmem (end_task pid k) x = kmem k x"
proof -
  have o: "pid \<in> stack_owners (tasks k)" by (rule kern_owner [OF assms(1-3)])
  from inv_buffers [OF kern_sched [OF assms(1)]] obtain B where
    B: "heap_rep (heap_start k) (kmem k) B" "fst ` B = stack_of (tasks k) ` stack_owners (tasks k)" by (auto simp: buffers_def)
  then have "stack_of (tasks k) pid \<in> fst ` B" using o by simp
  then obtain n where "(unat (stack_base (tasks k pid)), n) \<in> B" by (force simp: stack_of_def)
  from kfree_outside [OF B(1) this, of x] have "kfree (stack_base (tasks k pid)) (kmem k) x = kmem k x"
    using assms(1,4) by (simp add: kern_inv_def)
  then show ?thesis by (simp add: end_task_eq Let_def)
qed

lemma end_task_keeps:
  assumes "kern_inv L lo k" "pid \<in> live_tasks (tasks k)" "j \<in> live_tasks (tasks k)" "j \<noteq> pid" "on_stack lo k j x" "pid \<noteq> 0"
  shows "kmem (end_task pid k) x = kmem k x"
proof (cases "j = 0")
  case False
  then show ?thesis using end_task_kept [OF kern_sched [OF assms(1)]] assms(2-5) kern_owner [OF assms(1,3)]
    by (auto simp: stacks_kept_def on_stack_def stack_low_def stack_high_def live_tasks_def)
next
  case True
  then show ?thesis using end_task_outside [OF assms(1,2,6), of x] assms(5) by (simp add: on_stack_def stack_high_def)
qed

lemma end_task_sets:
  "live_tasks (tasks (end_task pid k)) = live_tasks (tasks k) - {pid}"
  "space_owners (tasks (end_task pid k)) = space_owners (tasks k) - {pid}"
  "j \<noteq> pid \<Longrightarrow> tasks (end_task pid k) j = tasks k j"
  by (auto simp: live_tasks_def space_owners_def end_task_eq Let_def)

lemma end_task_kern:
  assumes "kern_inv L lo k" "pid \<in> live_tasks (tasks k)" "pid \<noteq> 0"
  shows "kern_inv L lo (end_task pid k)"
proof -
  have s: "sched_inv (end_task pid k)" using end_task_inv [OF kern_sched [OF assms(1)]] assms(2) by (simp add: live_tasks_def)
  have sp: "space_set L (kpaging (end_task pid k)) n cb cs sb ss = space_set L (kpaging k) n cb cs sb ss" for n cb cs sb ss
    by (simp add: end_task_eq Let_def space_set_def paging_free_task_directory_def)
  show ?thesis using assms s unfolding kern_inv_def end_task_sets sp by (auto simp: end_task_sets end_task_eq Let_def)
qed

lemma end_task_parked:
  assumes "kern_inv L lo k" "pid \<in> live_tasks (tasks k)" "pid \<noteq> 0" "j \<in> live_tasks (tasks k)" "j \<noteq> pid" "parked_at lo k j e"
  shows "parked_at lo (end_task pid k) j e" "resume (kmem (end_task pid k)) e = resume (kmem k) e"
  using parked_kept [OF assms(6) stack_high_bound [OF assms(1,4)] end_task_keeps [OF assms(1,2,4,5) _ assms(3)]] assms(5)
  by (simp_all add: end_task_sets)

lemma kept_parked:
  assumes "kern_inv L lo k" "others_parked lo k" "j \<in> live_tasks (tasks k)" "j \<noteq> current_task k" "tasks k' j = tasks k j"
    "\<And>x. on_stack lo k j x \<Longrightarrow> kmem k' x = kmem k x"
  shows "parked_at lo k' j (esp (tasks k' j)) \<and> saved_regs k' j = saved_regs k j"
proof -
  have "parked_at lo k j (esp (tasks k j))" using assms(2-4) by (simp add: others_parked_def)
  then show ?thesis using parked_kept [of lo k j _ k'] stack_high_bound [OF assms(1,3)] assms(5,6) by (simp add: saved_regs_def)
qed

lemma started_spaces:
  assumes "kern_inv L lo k" "tasks k' = (tasks k)(i := t)"
    "\<And>j cb cs sb ss. j \<in> space_owners (tasks k) \<Longrightarrow> space_set L (kpaging k) (nat (addr_space (tasks k j))) cb cs sb ss \<Longrightarrow>
      space_set L (kpaging k') (nat (addr_space (tasks k j))) cb cs sb ss"
    "0 \<le> addr_space t \<Longrightarrow> \<exists>cb cs sb ss. space_set L (kpaging k') (nat (addr_space t)) cb cs sb ss \<and> window_clear L lo cb cs sb ss"
    "j \<in> space_owners (tasks k')"
  shows "\<exists>cb cs sb ss. space_set L (kpaging k') (nat (addr_space (tasks k' j))) cb cs sb ss \<and> window_clear L lo cb cs sb ss"
proof (cases "j = i")
  case True
  then show ?thesis using assms(2,4,5) by (auto simp: space_owners_def)
next
  case False
  then have t: "tasks k' j = tasks k j" by (simp add: assms(2))
  then have j: "j \<in> space_owners (tasks k)" using assms(5) by (simp add: space_owners_def live_tasks_def)
  then obtain cb cs sb ss where w: "space_set L (kpaging k) (nat (addr_space (tasks k j))) cb cs sb ss" "window_clear L lo cb cs sb ss"
    using assms(1) by (auto simp: kern_inv_def)
  then show ?thesis using assms(3) [OF j w(1)] t by metis
qed

text \<open>The task in a new slot, with its frame at the top of a fresh stack.\<close>

lemma started_keeps:
  assumes "run_inv L lo (c, k)" "current_task k = 0" "kmalloc (heap_start k) 4096 (kmem k) = Some (a, m)" "a \<noteq> 0"
    "i < 16" "\<not> active (tasks k i)" "push_words frame m (a + 4096) = (m', e)" "4 * length frame \<le> 4096"
    "k' = start_task i a frame name space (k\<lparr>kmem := m, kpaging := p\<rparr>)" "sched_inv k'"
    "in_ring0 (resume m' e) \<and> 44 \<le> 4 * length frame \<or> 0 \<le> space \<and> 52 \<le> 4 * length frame" "in_ring0 c'"
    "\<And>j cb cs sb ss. j \<in> space_owners (tasks k) \<Longrightarrow> space_set L (kpaging k) (nat (addr_space (tasks k j))) cb cs sb ss \<Longrightarrow>
      space_set L p (nat (addr_space (tasks k j))) cb cs sb ss" "cr3 p = cr3 (kpaging k)"
    "0 \<le> space \<Longrightarrow> \<exists>cb cs sb ss. space_set L p (nat space) cb cs sb ss \<and> window_clear L lo cb cs sb ss"
  shows "keeps_contexts L lo k (c', k')"
proof -
  have k: "kern_inv L lo k" "loaded L k" "others_parked lo k" using assms(1) by (simp_all add: run_inv_iff)
  note kept = start_task_kept [OF kern_sched [OF k(1)] assms(3,4,7,8)]
  have k': "k' = k\<lparr>kmem := m', kpaging := p, task_count := task_count k + 1,
      tasks := (tasks k)(i := mailbox_reset ((tasks k i)\<lparr>stack_base := a, sleeping := False, wake_tick := 0,
        esp := e, active := True, tname := name, addr_space := space, priority := 0\<rparr>))\<rparr>"
    using start_task_eq [of frame "k\<lparr>kmem := m, kpaging := p\<rparr>" a m' e] assms(7,9) by simp
  have "active (tasks k 0)" using k(1) by (simp add: kern_inv_def)
  then have i: "i \<noteq> 0" using assms(6) by (intro notI) simp
  have t: "j \<noteq> i \<Longrightarrow> tasks k' j = tasks k j" "stack_base (tasks k' i) = a" "esp (tasks k' i) = e" "addr_space (tasks k' i) = space"
    "active (tasks k' i)" "kmem k' = m'" "current_task k' = 0" for j using assms(2) by (simp_all add: k')
  have sets: "live_tasks (tasks k') = insert i (live_tasks (tasks k))" "i \<notin> live_tasks (tasks k)"
    "space_owners (tasks k') = (if 0 \<le> space then {i} else {}) \<union> space_owners (tasks k)"
    using assms(5,6) by (auto simp: live_tasks_def space_owners_def k')
  have sp: "\<exists>cb cs sb ss. space_set L (kpaging k') (nat (addr_space (tasks k' j))) cb cs sb ss \<and> window_clear L lo cb cs sb ss"
    if "j \<in> space_owners (tasks k')" for j
    by (rule started_spaces [OF k(1), of k' i "tasks k' i", OF _ _ _ that]) (use assms(13,15) in \<open>simp_all add: k'\<close>)
  have "\<forall>j \<in> live_tasks (tasks k'). j \<noteq> 0 \<longrightarrow> stack_base (tasks k' j) \<noteq> 0"
    using k(1) assms(4) t(1,2) by (auto simp: sets kern_inv_def) (metis t(1,2))
  then have kern: "kern_inv L lo k'" using assms(10) k(1) i t(1) [of 0] sp by (auto simp: kern_inv_def) (simp add: k')
  have old: "parked_at lo k' j (esp (tasks k' j)) \<and> saved_regs k' j = saved_regs k j" if j: "j \<in> live_tasks (tasks k)" "j \<noteq> 0" for j
  proof (rule kept_parked [OF k(1,3) j(1)])
    show "j \<noteq> current_task k" "tasks k' j = tasks k j" using j assms(2) sets(2) t(1) [of j] by auto
    show "kmem k' x = kmem k x" if "on_stack lo k j x" for x
      using kept(1) [of "{}"] kern_owner [OF k(1) j] that j(2) by (auto simp: stacks_kept_def on_stack_def stack_low_def stack_high_def t)
  qed
  have e: "unat e = unat a + 4096 - 4 * length frame"
    using push_words_sp [of frame m "a + 4096"] assms(7,8) kept(2) unat_sub_nat [of "4 * length frame" "a + 4096"] by simp
  have "parked_at lo k' i e" using e assms(8,11) i sets(3) by (auto simp: parked_at_def stack_low_def stack_high_def stack_of_def t)
  then have "others_parked lo k'" using old i by (auto simp: others_parked_def sets t)
  moreover have "loaded L k'" using k(2) assms(2,14) i by (simp add: loaded_def k')
  ultimately have "run_inv L lo (c', k')" using kern assms(12) by (auto simp: run_inv_iff t kern_inv_def)
  then show ?thesis using old assms(2) t(7) by (auto simp: keeps_contexts_def)
qed

lemma kill_keeps:
  assumes "run_inv L lo (c, k)" "current_task k = 0" "task_kill pid k = (ok, k')" "in_ring0 c'"
  shows "keeps_contexts L lo k (c', k')"
proof (cases "valid_pid pid k \<and> pid \<noteq> 0")
  case False
  then have "k' = k" using assms(2,3) by (auto simp: task_kill_def split: if_splits)
  then show ?thesis using keeps_memory [OF assms(1), of "kmem k" c'] assms(4) by (simp add: thread_store_def)
next
  case True
  let ?p = "nat pid" and ?k = "end_task (nat pid) k"
  have k: "kern_inv L lo k" "loaded L k" "others_parked lo k" "active (cur k)" using assms(1) by (simp_all add: run_inv_iff)
  have p: "?p \<in> live_tasks (tasks k)" "?p \<noteq> 0" using True by (auto simp: valid_pid_def live_tasks_def)
  have k': "k' = upd_task ?p mailbox_reset ?k" using assms(2,3) True by (auto simp: task_kill_def split: if_splits)
  note e = end_task_kern [OF k(1) p]
  have others: "parked_at lo ?k j (esp (tasks ?k j)) \<and> saved_regs ?k j = saved_regs k j"
    if "j \<in> live_tasks (tasks k)" "j \<noteq> ?p" "j \<noteq> 0" for j
    using end_task_parked [OF k(1) p that(1,2), of "esp (tasks k j)"] k(3) that assms(2)
    by (simp add: others_parked_def saved_regs_def end_task_sets)
  have cur: "current_task ?k = 0" "tasks ?k 0 = tasks k 0" "kgdt ?k = kgdt k" "cr3 (kpaging ?k) = cr3 (kpaging k)"
    using assms(2) p(2) by (simp_all add: end_task_eq Let_def paging_free_task_directory_def)
  have "loaded L ?k" using k(2) by (simp add: loaded_def cur assms(2))
  moreover have "others_parked lo ?k" using others by (simp add: others_parked_def end_task_sets(1) cur(1))
  ultimately have i: "run_inv L lo (c', ?k)" using e k(4) assms(4) by (simp add: run_inv_iff cur assms(2))
  have s: "same_roles ?k k'" unfolding k' by (rule roles_update) simp
  have km: "kmem k' = kmem ?k" by (simp add: k' upd_task_def)
  have r: "run_inv L lo (c', k')"
    by (rule run_inv_store(1) [OF i s task_kill_inv [OF kern_sched [OF k(1)] assms(3)]]) (simp_all add: km)
  have "saved_regs k' j = saved_regs k j" if "j \<in> live_tasks (tasks k)" "j \<in> live_tasks (tasks k')" "j \<noteq> 0" for j
  proof -
    have j: "j \<noteq> ?p" using that(2) same_roles_sets(1) [OF s] end_task_sets(1) [of ?p k] by blast
    have "esp (tasks k' j) = esp (tasks ?k j)" using s by (simp add: same_roles_def)
    then show ?thesis using others [OF that(1) j that(3)] by (simp add: saved_regs_def km)
  qed
  moreover have "current_task k' = 0" using cur(1) by (simp add: k' upd_task_def)
  ultimately show ?thesis using r assms(2) by (simp add: keeps_contexts_def)
qed

lemma create_keeps:
  assumes "run_inv L lo (c, k)" "current_task k = 0" "create_task L entry name k = Ret pid k'" "in_ring0 c'"
  shows "keeps_contexts L lo k (c', k')"
proof -
  have k: "sched_inv k" using assms(1) by (simp add: run_inv_iff kern_inv_def)
  note s = create_task_inv [OF k assms(3)]
  from create_task_cases [OF k, of L entry name] show ?thesis
  proof (elim disjE exE conjE)
    fix i a m assume *: "free_slot k = Some i" "kmalloc (heap_start k) 4096 (kmem k) = Some (a, m)" "a \<noteq> 0"
      "create_task L entry name k = Ret (int i) (start_task i a (kernel_frame L entry) name (-1) (k\<lparr>kmem := m\<rparr>))"
    obtain m' e where pw: "push_words (kernel_frame L entry) m (a + 4096) = (m', e)" by fastforce
    have len: "length (kernel_frame L entry) = 12" by (simp add: kernel_frame_def)
    have "48 \<le> unat (a + 4096)" using start_task_kept(2) [OF k *(2,3) pw] len by simp
    from kernel_frame_resume [OF pw this] have ring: "in_ring0 (resume m' e)" by (simp add: in_ring0_def)
    have k': "k' = start_task i a (kernel_frame L entry) name (-1) (k\<lparr>kmem := m, kpaging := kpaging k\<rparr>)" using *(4) assms(3) by simp
    show ?thesis
      by (rule started_keeps [OF assms(1,2) *(2,3) _ _ pw _ k' s _ assms(4)])
        (use free_slot_Some [OF *(1)] len ring in auto)
  qed (use assms keeps_memory [OF assms(1), of "kmem k" c'] in \<open>auto simp: thread_store_def\<close>)
qed

lemma create_user_keeps:
  assumes "run_inv L lo (c, k)" "current_task k = 0" "window_clear L lo cb cs (utop - sz) sz"
    "create_user_task_argv L entry name utop sz cb cs ebx ecx k = Ret pid k'" "in_ring0 c'"
  shows "keeps_contexts L lo k (c', k')"
proof -
  have k: "sched_inv k" "kern_inv L lo k" using assms(1) by (simp_all add: run_inv_iff kern_inv_def)
  note s = create_user_task_inv [OF k(1) assms(4)]
  from create_user_task_cases [OF k(1), where L = L and entry = entry and name = name and utop = utop and sz = sz and cb = cb and cs = cs
      and ebx = ebx and ecx = ecx] show ?thesis
  proof (elim disjE exE conjE)
    fix i a m space p assume *: "free_slot k = Some i" "kmalloc (heap_start k) 4096 (kmem k) = Some (a, m)" "a \<noteq> 0"
      "create_space L (cb, cs, utop - sz, sz) (kpaging k) = (space, p)" "0 \<le> space"
      "create_user_task_argv L entry name utop sz cb cs ebx ecx k =
        Ret (int i) (start_task i a (user_frame entry utop ebx ecx) name space (k\<lparr>kmem := m, kpaging := p\<rparr>))"
    obtain m' e where pw: "push_words (user_frame entry utop ebx ecx) m (a + 4096) = (m', e)" by fastforce
    have len: "length (user_frame entry utop ebx ecx) = 13" by (simp add: user_frame_def)
    have pc: "paging_create_task_directory_ex L cb cs (utop - sz) sz (kpaging k) = (space, p)" using *(4) by (simp add: create_space_def)
    have new: "space_set L p (nat space) cb cs (utop - sz) sz" "cr3 p = cr3 (kpaging k)" using create_cases [OF pc] *(5) by auto
    have old: "space_set L p (nat (addr_space (tasks k j))) cb' cs' sb' ss'"
      if "j \<in> space_owners (tasks k)" "space_set L (kpaging k) (nat (addr_space (tasks k j))) cb' cs' sb' ss'" for j cb' cs' sb' ss'
    proof -
      have "addr_space (tasks k j) \<in> used_spaces (kpaging k)" using that(1) k(1) by (auto simp: sched_inv_def table_inv_def owned_def)
      then show ?thesis using create_keeps_space [OF pc _ _ that(2)] by (auto simp: used_spaces_def)
    qed
    have k': "k' = start_task i a (user_frame entry utop ebx ecx) name space (k\<lparr>kmem := m, kpaging := p\<rparr>)" using *(6) assms(4) by simp
    show ?thesis
      by (rule started_keeps [OF assms(1,2) *(2,3) _ _ pw _ k' s _ assms(5) old new(2)])
        (use free_slot_Some [OF *(1)] len *(5) new(1) assms(3) in auto)
  next
    fix k'' a m assume *: "create_user_task_argv L entry name utop sz cb cs ebx ecx k = Ret (-1) k''"
      "kmalloc (heap_start k) 4096 (kmem k) = Some (a, m)" "a \<noteq> 0" "k'' = k\<lparr>kmem := kfree a m\<rparr>"
    have km: "kmem k' x = kmem k x" if "j \<in> live_tasks (tasks k)" "j \<noteq> current_task k" "on_stack lo k j x" for j x
      using stack_returned(2) [OF k(1) *(2,3), of "{}"] kern_owner [OF k(2) that(1)] that assms(2,4) *(1,4)
      by (auto simp: stacks_kept_def on_stack_def stack_low_def stack_high_def)
    have r: "same_roles k k'" "in_ring0 c \<longrightarrow> in_ring0 c'" using *(1,4) assms(4,5) by (auto simp: same_roles_def)
    from run_inv_store [OF assms(1) r(1) s km r(2)] r(1) show ?thesis by (auto simp: keeps_contexts_def same_roles_def)
  qed (use assms keeps_memory [OF assms(1), of "kmem k" c'] in \<open>auto simp: thread_store_def\<close>)
qed

subsection \<open>Calls of the kernel threads\<close>

lemma upd_sched:
  assumes "kern_inv L lo k" "active (cur k)" "thread_store lo k (kmem k')" "k' = upd_task i (\<lambda>_. t) (k\<lparr>kmem := kmem k'\<rparr>)"
    "active t = active (tasks k i)" "stack_base t = stack_base (tasks k i)" "addr_space t = addr_space (tasks k i)"
    "mbox_ok (tasks k i) \<longrightarrow> mbox_ok t"
  shows "sched_inv k'"
proof -
  have "sched_inv (upd_task i (\<lambda>_. t) (k\<lparr>kmem := kmem k'\<rparr>))"
    by (rule upd_task_inv [OF thread_store_inv [OF assms(1-3)]]) (use assms(5-8) in auto)
  then show ?thesis using assms(4) by simp
qed

lemma ipc_recv_upd:
  assumes "ipc_recv out out_len out_sender k = (r, k')"
  shows "\<exists>t. k' = upd_task (current_task k) (\<lambda>_. t) (k\<lparr>kmem := kmem k'\<rparr>) \<and> active t = active (cur k) \<and>
    stack_base t = stack_base (cur k) \<and> addr_space t = addr_space (cur k) \<and> esp t = esp (cur k) \<and> (mbox_ok (cur k) \<longrightarrow> mbox_ok t)"
proof -
  obtain v t where g: "mailbox_get (cur k) = (v, t)" by fastforce
  show ?thesis
  proof (cases v)
    case None
    then show ?thesis using assms g by (intro exI [of _ "cur k"]) (auto simp: ipc_recv_def ipc_recv_msg_def upd_task_def)
  next
    case (Some msg)
    obtain bytes len sender where "msg = (bytes, len, sender)" by (cases msg)
    then have "k' = upd_task (current_task k) (\<lambda>_. t) (k\<lparr>kmem := kmem k'\<rparr>)"
      using assms g Some by (auto simp: ipc_recv_def ipc_recv_msg_def upd_task_def Let_def)
    then show ?thesis using mailbox_get_fields [OF g] by blast
  qed
qed

lemma call_keeps:
  assumes "thread_call L lo k k'" "run_inv L lo (c, k)" "in_ring0 c'"
  shows "keeps_contexts L lo k (c', k')"
proof -
  have k: "kern_inv L lo k" "active (cur k)" "sched_inv k" using assms(2) by (simp_all add: run_inv_iff kern_inv_def)
  have same: "keeps_contexts L lo k (c', k')" if "same_roles k k'" "sched_inv k'" "kmem k' = kmem k"
    using keeps_store [OF assms(2) that(1,2) same_memory [OF that(3)]] assms(3) by simp
  from assms(1) show ?thesis
  proof cases
    case (print scr)
    then show ?thesis using k(3) by (intro same) (auto simp: same_roles_def sched_inv_def)
  next
    case (sleep ms)
    have "same_roles k (set_sleep ms k)" unfolding set_sleep_def by (rule roles_update) simp
    then show ?thesis using sleep set_sleep_inv [OF k(3)] by (intro same) (auto simp: task_sleep_def set_sleep_def upd_task_def)
  next
    case (set_priority pid prio)
    have "same_roles k (upd_task (nat pid) (\<lambda>t. t\<lparr>priority := prio\<rparr>) k)" by (rule roles_update) simp
    moreover have "same_roles k k" by (simp add: same_roles_def)
    ultimately show ?thesis using set_priority set_priority_inv [OF k(3)]
      by (intro same) (auto simp: task_set_priority_def upd_task_def)
  next
    case (send pid data len r)
    then show ?thesis using send_roles [OF send(1)] ipc_send_inv [OF k(3) send(1)] by (intro same)
  next
    case (recv out out_len out_sender r)
    from ipc_recv_upd [OF recv(1)] obtain t where t: "k' = upd_task (current_task k) (\<lambda>_. t) (k\<lparr>kmem := kmem k'\<rparr>)"
      "active t = active (cur k)" "stack_base t = stack_base (cur k)" "addr_space t = addr_space (cur k)" "esp t = esp (cur k)"
      "mbox_ok (cur k) \<longrightarrow> mbox_ok t" by blast
    have "same_roles k k'" by (subst t(1)) (rule roles_upd [OF t(2-5)])
    from keeps_store [OF assms(2) this upd_sched [OF k(1,2) recv(2) t(1-4,6)] recv(2)] assms(3) show ?thesis by simp
  next
    case (kill pid ok)
    then show ?thesis using kill_keeps [OF assms(2)] assms(3) by blast
  next
    case (create entry name pid)
    then show ?thesis using create_keeps [OF assms(2)] assms(3) by blast
  next
    case (create_user cb cs utop sz entry name ebx ecx pid)
    then show ?thesis using create_user_keeps [OF assms(2)] assms(3) by blast
  qed
qed

subsection \<open>Interrupts and system calls\<close>

lemma keeps_trans:
  assumes "keeps_contexts L lo k (c, k1)" "same_roles k k1" "keeps_contexts L lo k1 (c', k')"
  shows "keeps_contexts L lo k (c', k')"
proof -
  have "current_task k1 = current_task k" using assms(2) by (simp add: same_roles_def)
  then show ?thesis using assms(1,3) same_roles_sets(1) [OF assms(2)] by (auto simp: keeps_contexts_def)
qed

lemma keeps_dispatch:
  assumes "run_inv L lo (c, k)" "kern_inv L lo k2" "others_parked lo k2" "active (cur k2) \<Longrightarrow> parked_at lo k2 (current_task k2) e"
    "schedule L e k2 = Ret r k'" "current_task k2 = current_task k"
    "\<And>j. j \<in> live_tasks (tasks k) \<Longrightarrow> j \<noteq> current_task k \<Longrightarrow> saved_regs k2 j = saved_regs k j"
  shows "keeps_contexts L lo k (resume (kmem k') r, k')"
  using dispatch_inv [OF assms(2-5)] assms(6,7) by (simp add: keeps_contexts_def)

lemma keeps_screen: "keeps_contexts L lo k (c, k'\<lparr>kscreen := scr\<rparr>) = keeps_contexts L lo k (c, k')"
  by (simp add: keeps_contexts_def run_inv_iff kern_inv_def sched_inv_def loaded_def others_parked_def parked_at_def stack_low_def
      stack_high_def saved_regs_def)

lemma timer_keeps:
  assumes "run_inv L lo (c, k)" "in_ring0 c \<longrightarrow> frame_room lo c k" "timer_handler L c k = Ret c' k'"
  shows "keeps_contexts L lo k (c', k')" "saved_regs k' (current_task k) = c \<and> active (tasks k' (current_task k))"
proof -
  obtain e k1 where s: "save_context_regs c k = (e, k1)" by fastforce
  note en = enter_kernel [OF assms(1,2) s]
  have t: "tasks k1 = tasks k" "current_task k1 = current_task k" by (subst en(1), simp)+
  have st: "same_roles k k1" by (subst en(1)) (simp add: same_roles_def)
  have kc: "keeps_contexts L lo k (c, k1)" using keeps_memory [OF assms(1) en(2), of c] en(1) by simp
  then have i: "run_inv L lo (c, k1)" by (simp add: keeps_contexts_def)
  then have k: "kern_inv L lo k1" "others_parked lo k1" by (simp_all add: run_inv_iff)
  obtain r k2 where k2: "schedule L e k1 = Ret r k2" "c' = resume (kmem k2) r" "k' = k2\<lparr>kscreen := outs [(0x20, 0x20)] (kscreen k2)\<rparr>"
    using assms(3) s by (auto simp: timer_handler_def split: outcome.splits)
  have p: "parked_at lo k1 (current_task k1) e" using en(3) t(2) by simp
  from keeps_dispatch [OF i k p k2(1) refl refl] have "keeps_contexts L lo k1 (c', k')" by (simp add: k2(2,3) keeps_screen)
  from keeps_trans [OF kc st this] show "keeps_contexts L lo k (c', k')" .
  have "active (cur k)" using assms(1) by (simp add: run_inv_iff)
  then show "saved_regs k' (current_task k) = c \<and> active (tasks k' (current_task k))"
    using dispatch_inv(3,4) [OF k p k2(1), of "current_task k"] t en(4) by (simp add: saved_regs_def k2(3))
qed

text \<open>The saved registers are what the dispatcher reads, and its result is written on the caller's kernel stack.\<close>

lemma regs_resume:
  "regs_eax e m = r_eax (resume m e)" "regs_ebx e m = r_ebx (resume m e)" "regs_ecx e m = r_ecx (resume m e)"
  "regs_edx e m = r_edx (resume m e)"
  by (simp_all add: resume_def regs_eax_def regs_ebx_def regs_ecx_def regs_edx_def Let_def)

lemma frame_on_stack:
  assumes "parked_at lo k j e" "stack_high k j < 2 ^ 32" "x \<in> region (e + of_nat n) 4" "n + 4 \<le> 44"
  shows "on_stack lo k j x"
proof -
  have b: "stack_low lo k j \<le> unat e" "unat e + 44 \<le> stack_high k j" using assms(1) by (auto simp: parked_at_def split: if_splits)
  then have "unat (e + of_nat n) = unat e + n" using assms(2,4) unat_plus_no_wrap [of e n] by simp
  then show ?thesis using assms(2-4) b region_iff [of "e + of_nat n" 4 x] by (simp add: on_stack_def)
qed

lemma recv_keeps:
  assumes "paging_layout_ok L" "text_start L < ro_end L" "run_inv L lo (c, k)" "\<not> in_ring0 c" "parked_at lo k (current_task k) e"
    "resume (kmem k) e = c" "recv_allowed L c k"
  shows "keeps_contexts L lo k (c', sys_recv e k)"
proof -
  let ?i = "current_task k" and ?k = "sys_recv e k" and ?W = "\<lambda>x. \<exists>v. translate L (kpaging k) True True v = Some x"
  have k: "kern_inv L lo k" "active (cur k)" using assms(3) by (simp_all add: run_inv_iff)
  have live: "?i \<in> live_tasks (tasks k)" using k kern_current [OF k(1)] by (simp add: live_tasks_def)
  have mb: "mbox_ok (cur k)" using k(1) kern_current [OF k(1)] by (simp add: kern_inv_def sched_inv_def table_inv_def)
  note on = frame_on_stack [OF assms(5) stack_high_bound [OF k(1) live]]
  have own: "\<forall>x. x \<in> region (e + 24) 4 \<or> x \<in> region (e + 20) 4 \<longrightarrow> \<not> ?W x"
  proof (intro allI impI)
    fix x assume "x \<in> region (e + 24) 4 \<or> x \<in> region (e + 20) 4"
    then have "on_stack lo k ?i x" using on [of x 24] on [of x 20] by auto
    then show "\<not> ?W x" using on_stack_reserved [OF k(1) live] user_writes [OF assms(1-4)] by blast
  qed
  have regs: "regs_ebx e (kmem k) = r_ebx c" "regs_ecx e (kmem k) = r_ecx c" "regs_edx e (kmem k) = r_edx c"
    by (simp_all add: regs_resume assms(6))
  note w = sys_recv_writes [OF mb regs assms(7) [unfolded recv_allowed_def recv_buffers_iff] own]
  have "on_stack lo k ?i x \<or> \<not> reserved lo x" if "kmem ?k x \<noteq> kmem k x" for x
    using w(2) [OF that] on [of x 28] user_writes [OF assms(1-4)] by auto
  then have st: "thread_store lo k (kmem ?k)" by (simp add: thread_store_def)
  obtain t where t: "?k = upd_task ?i (\<lambda>_. t) (k\<lparr>kmem := kmem ?k\<rparr>)" "active t = active (cur k)" "stack_base t = stack_base (cur k)"
    "addr_space t = addr_space (cur k)" "mbox_ok (cur k) \<longrightarrow> mbox_ok t" using sys_recv_upd [of e k] by blast
  from keeps_store [OF assms(3) w(1) upd_sched [OF k st t] st] assms(4) show ?thesis by blast
qed

lemma send_keeps:
  assumes "run_inv L lo (c, k)" "\<not> in_ring0 c" "parked_at lo k (current_task k) e" "ipc_send pid data len k = (r, k1)"
  shows "keeps_contexts L lo k (c', set_regs_eax e v k1)"
proof -
  let ?i = "current_task k" and ?k = "set_regs_eax e v k1"
  have k: "kern_inv L lo k" "active (cur k)" using assms(1) by (simp_all add: run_inv_iff)
  have live: "?i \<in> live_tasks (tasks k)" using k kern_current [OF k(1)] by (simp add: live_tasks_def)
  note sr = send_roles [OF assms(4)]
  have "on_stack lo k ?i x" if "kmem ?k x \<noteq> kmem k x" for x
    using frame_on_stack [OF assms(3) stack_high_bound [OF k(1) live], of x 28] that sr(2) wr32_outside [of x "e + 28" "kmem k" v]
    by (auto simp: set_regs_eax_def)
  then have st: "thread_store lo k (kmem ?k)" by (simp add: thread_store_def)
  have c1: "current_task k1 = ?i" "cur k1 = tasks k1 ?i" using sr(1) by (simp_all add: same_roles_def)
  have "kern_inv L lo k1" using same_roles_kern [OF k(1) sr(1) ipc_send_inv [OF kern_sched [OF k(1)] assms(4)]] .
  moreover have "active (cur k1)" using k(2) sr(1) by (simp add: same_roles_def)
  moreover have "thread_store lo k1 (kmem ?k)" using st sr(2) c1(1)
    by (simp add: thread_store_def same_roles_stacks [OF sr(1)])
  ultimately have "sched_inv (k1\<lparr>kmem := kmem ?k\<rparr>)" by (rule thread_store_inv)
  then have "sched_inv ?k" by (simp add: set_regs_eax_def)
  moreover have "same_roles k ?k" using sr(1) by (simp add: same_roles_def set_regs_eax_def)
  ultimately show ?thesis using keeps_store [OF assms(1) _ _ st] assms(2) by blast
qed

lemma exit_keeps:
  assumes "run_inv L lo (c, k)" "\<not> in_ring0 c" "task_exit_and_reschedule L e k = Ret r k'"
  shows "keeps_contexts L lo k (resume (kmem k') r, k')"
proof -
  let ?i = "current_task k" and ?k = "end_task (current_task k) k"
  have k: "kern_inv L lo k" "active (cur k)" "others_parked lo k" using assms(1) by (simp_all add: run_inv_iff)
  have i: "?i \<in> live_tasks (tasks k)" "?i \<noteq> 0" using k kern_current [OF k(1)] run_user_running(2) [OF assms(1,2)]
    by (simp_all add: live_tasks_def)
  have s: "schedule L e ?k = Ret r k'" using assms(3) k(2) by (simp add: task_exit_and_reschedule_def Let_def split: if_splits)
  have cur: "current_task ?k = ?i" by (simp add: end_task_eq Let_def)
  have p: "parked_at lo ?k j (esp (tasks ?k j)) \<and> saved_regs ?k j = saved_regs k j" if "j \<in> live_tasks (tasks k)" "j \<noteq> ?i" for j
    using end_task_parked [OF k(1) i that, of "esp (tasks k j)"] k(3) that by (simp add: others_parked_def saved_regs_def end_task_sets)
  have dead: "\<not> active (cur ?k)" by (simp add: cur) (simp add: end_task_eq Let_def)
  have "others_parked lo ?k" using p by (simp add: others_parked_def end_task_sets(1) cur)
  from keeps_dispatch [OF assms(1) end_task_kern [OF k(1) i] this _ s cur] p dead show ?thesis by blast
qed

lemma imp_refl: "P \<longrightarrow> P"
  by simp

lemma sleep_keeps:
  assumes "run_inv L lo (c, k)" "\<not> in_ring0 c" "parked_at lo k (current_task k) e" "task_sleep_and_reschedule L ms e k = Ret r k'"
  shows "keeps_contexts L lo k (resume (kmem k') r, k')"
    "saved_regs k' (current_task k) = resume (kmem k) e \<and> active (tasks k' (current_task k))"
proof -
  let ?k = "set_sleep ms k"
  have k: "sched_inv k" using assms(1) by (simp add: run_inv_iff kern_inv_def)
  have r: "same_roles k ?k" unfolding set_sleep_def by (rule roles_update) simp
  have m: "kmem ?k = kmem k" "current_task ?k = current_task k" by (simp_all add: set_sleep_def upd_task_def)
  note i = run_inv_store [OF assms(1) r set_sleep_inv [OF k] fun_cong [OF m(1)] imp_refl]
  have k2: "kern_inv L lo ?k" "others_parked lo ?k" using i(1) by (simp_all add: run_inv_iff)
  have s: "schedule L e ?k = Ret r k'" using assms(4) by (simp add: task_sleep_and_reschedule_def)
  have p: "parked_at lo ?k (current_task ?k) e" using assms(3) m
    by (simp add: parked_at_def same_roles_stacks [OF r] same_roles_sets(2) [OF r])
  show "keeps_contexts L lo k (resume (kmem k') r, k')" by (rule keeps_dispatch [OF assms(1) k2 p s m(2) i(2)])
  have "active (tasks ?k (current_task k))" using assms(1) r by (simp add: run_inv_iff same_roles_def)
  then show "saved_regs k' (current_task k) = resume (kmem k) e \<and> active (tasks k' (current_task k))"
    using dispatch_inv(3,4) [OF k2 p s, of "current_task k"] m by simp
qed

lemma syscall_keeps:
  assumes "paging_layout_ok L" "text_start L < ro_end L" "run_inv L lo (c, k)" "\<not> in_ring0 c"
    "r_eax c = SYS_RECV \<longrightarrow> recv_allowed L c k" "syscall_handler L c k = Ret c' k'"
  shows "keeps_contexts L lo k (c', k')"
proof -
  obtain e k1 where s: "save_context_regs c k = (e, k1)" by fastforce
  have "in_ring0 c \<longrightarrow> frame_room lo c k" using assms(4) by simp
  note en = enter_kernel [OF assms(3) this s]
  have p: "kpaging k1 = kpaging k" "current_task k1 = current_task k" by (subst en(1), simp)+
  have st: "same_roles k k1" by (subst en(1)) (simp add: same_roles_def)
  have kc: "keeps_contexts L lo k (c, k1)" using keeps_memory [OF assms(3) en(2), of c] en(1) by simp
  then have i: "run_inv L lo (c, k1)" by (simp add: keeps_contexts_def)
  then have sc: "sched_inv k1" by (simp add: run_inv_iff kern_inv_def)
  have pk: "parked_at lo k1 (current_task k1) e" using en(3) p(2) by simp
  obtain r where d: "syscall_dispatch L e k1 = Ret r k'" "c' = resume (kmem k') r"
    using assms(6) s by (auto simp: syscall_handler_def split: outcome.splits)
  have nr: "regs_eax e (kmem k1) = r_eax c" by (simp add: regs_resume en(4))
  consider "r_eax c = SYS_PRINT" | "r_eax c = SYS_EXIT" | "r_eax c = SYS_SLEEP" | "r_eax c = SYS_SEND" | "r_eax c = SYS_RECV"
    | "r_eax c \<notin> {SYS_PRINT, SYS_EXIT, SYS_SLEEP, SYS_SEND, SYS_RECV}" by auto
  then have "keeps_contexts L lo k1 (c', k')"
  proof cases
    case 1
    then obtain scr where "k' = k1\<lparr>kscreen := scr\<rparr>" using d(1) nr by (auto simp: syscall_dispatch_def split: option.splits)
    then show ?thesis using keeps_memory [OF i, of "kmem k1" c'] assms(4) by (simp add: keeps_screen thread_store_def)
  next
    case 2
    then show ?thesis using exit_keeps [OF i assms(4), of e r k'] d nr by (simp add: syscall_dispatch_def)
  next
    case 3
    then show ?thesis using sleep_keeps(1) [OF i assms(4) pk, of "regs_ebx e (kmem k1)" r k'] d nr by (simp add: syscall_dispatch_def)
  next
    case 4
    obtain v k2 where "ipc_send (sint (regs_ebx e (kmem k1))) (regs_ecx e (kmem k1)) (regs_edx e (kmem k1)) k1 = (v, k2)" by fastforce
    then show ?thesis using send_keeps [OF i assms(4) pk] d(1) nr 4 by (auto simp: syscall_dispatch_def)
  next
    case 5
    have "recv_allowed L c k1" using assms(5) 5 by (simp add: recv_allowed_def p(1))
    then show ?thesis using recv_keeps [OF assms(1,2) i assms(4) pk en(4)] d(1) nr 5 by (auto simp: syscall_dispatch_def)
  next
    case 6
    then have "k' = k1" using d(1) nr by (simp add: syscall_dispatch_def)
    then show ?thesis using keeps_memory [OF i, of "kmem k1" c'] assms(4) by (simp add: thread_store_def)
  qed
  from keeps_trans [OF kc st this] show ?thesis .
qed

lemma sleep_saved:
  assumes "run_inv L lo (c, k)" "\<not> in_ring0 c" "r_eax c = SYS_SLEEP" "syscall_handler L c k = Ret c' k'"
  shows "saved_regs k' (current_task k) = c \<and> active (tasks k' (current_task k))"
proof -
  obtain e k1 where s: "save_context_regs c k = (e, k1)" by fastforce
  have "in_ring0 c \<longrightarrow> frame_room lo c k" using assms(2) by simp
  note en = enter_kernel [OF assms(1) this s]
  have p: "current_task k1 = current_task k" by (subst en(1)) simp
  have i: "run_inv L lo (c, k1)" using keeps_memory [OF assms(1) en(2), of c] en(1) by (simp add: keeps_contexts_def)
  have nr: "regs_eax e (kmem k1) = SYS_SLEEP" using assms(3) by (simp add: regs_resume en(4))
  obtain r where "task_sleep_and_reschedule L (regs_ebx e (kmem k1)) e k1 = Ret r k'"
    using assms(4) s nr by (auto simp: syscall_handler_def syscall_dispatch_def split: outcome.splits)
  from sleep_keeps(2) [OF i assms(2) _ this] en(3,4) p show ?thesis by simp
qed

lemma okstep_keeps:
  assumes "paging_layout_ok L" "text_start L < ro_end L" "run_inv L lo (c, k)" "okstep L lo (c, k) (c', k')"
  shows "keeps_contexts L lo k (c', k')"
  using assms(4) [unfolded okstep_def, THEN conjunct1]
proof (cases rule: sysstep.cases)
  case (user m')
  then show ?thesis using keeps_memory [OF assms(3) user_store_thread [OF assms(1-3)]] by blast
next
  case (thread m')
  then show ?thesis using keeps_memory [OF assms(3)] by blast
next
  case call
  then show ?thesis using call_keeps assms(3) by blast
next
  case timer
  then show ?thesis using timer_keeps(1) [OF assms(3)] by blast
next
  case syscall
  then have "r_eax c = SYS_RECV \<longrightarrow> recv_allowed L c k" using assms(4) by (simp add: okstep_def own_buffers_def)
  then show ?thesis using syscall_keeps [OF assms(1-3)] syscall by blast
next
  case (keyboard m' scr)
  then have "thread_store lo k m'" by (auto simp: thread_store_def)
  from keeps_memory [OF assms(3) this, of c] keyboard show ?thesis by (simp add: keeps_screen)
qed

subsection \<open>What a step of ring 3 writes\<close>

text \<open>A system call writes kernel stacks and heap; \<open>SYS_RECV\<close> also the buffers it is given, as long as these are not among them.\<close>

lemma dispatch_writes:
  assumes "paging_layout_ok L" "text_start L < ro_end L" "run_inv L lo (c, k)" "\<not> in_ring0 c" "parked_at lo k (current_task k) e"
    "resume (kmem k) e = c" "r_eax c = SYS_RECV \<longrightarrow> (\<forall>y \<in> recv_buffers c. \<not> reserved lo y)" "syscall_dispatch L e k = Ret r k'"
    "kmem k' x \<noteq> kmem k x"
  shows "reserved lo x \<or> r_eax c = SYS_RECV \<and> x \<in> recv_buffers c"
proof -
  let ?i = "current_task k" and ?W = "\<lambda>x. x \<in> recv_buffers c"
  have k: "kern_inv L lo k" "active (cur k)" using assms(3) by (simp_all add: run_inv_iff)
  have live: "?i \<in> live_tasks (tasks k)" "multitasking_enabled k" "?i < 16" using k by (simp_all add: live_tasks_def kern_inv_def sched_inv_def)
  have on: "reserved lo y" if "y \<in> region (e + of_nat n) 4" "n + 4 \<le> 44" for y n
    using frame_on_stack [OF assms(5) stack_high_bound [OF k(1) live(1)] that] on_stack_reserved [OF k(1) live(1)] by blast
  have nr: "regs_eax e (kmem k) = r_eax c" by (simp add: regs_resume assms(6))
  consider "kmem k' = kmem k" | "r_eax c = SYS_EXIT" | "r_eax c = SYS_SLEEP" | "r_eax c = SYS_SEND" | "r_eax c = SYS_RECV" "k' = sys_recv e k"
    using assms(8) nr by (auto simp: syscall_dispatch_def Let_def split: if_splits option.splits)
  then show ?thesis
  proof cases
    case 2
    let ?k = "end_task ?i k"
    have "schedule L e ?k = Ret r k'" using assms(8) nr 2 k(2)
      by (simp add: syscall_dispatch_def task_exit_and_reschedule_def Let_def split: if_splits)
    then have "kmem k' = kmem ?k" using live(2,3) by (intro schedule_roles(2)) (simp_all add: end_task_eq Let_def)
    then have "\<not> (unat x < 0x100000 \<or> HEAP_END \<le> unat x)"
      using end_task_outside [OF k(1) live(1) run_user_running(2) [OF assms(3,4)], of x] assms(9) by auto
    then have "reserved lo x" unfolding reserved_def by linarith
    then show ?thesis ..
  next
    case 3
    then have "schedule L e (set_sleep (regs_ebx e (kmem k)) k) = Ret r k'"
      using assms(8) nr by (simp add: syscall_dispatch_def task_sleep_and_reschedule_def)
    from schedule_roles(2) [OF _ _ this] live(2,3) assms(9) show ?thesis by (simp add: set_sleep_def upd_task_def)
  next
    case 4
    obtain v k2 where s: "ipc_send (sint (regs_ebx e (kmem k))) (regs_ecx e (kmem k)) (regs_edx e (kmem k)) k = (v, k2)" by fastforce
    then have "kmem k' = wr32 (kmem k) (e + 28) (word_of_int v)"
      using assms(8) nr 4 send_roles(2) [OF s] by (auto simp: syscall_dispatch_def set_regs_eax_def)
    then show ?thesis using on [of x 28] assms(9) wr32_outside [of x "e + 28"] by fastforce
  next
    case 5
    have mb: "mbox_ok (cur k)" using k(1) live(3) by (simp add: kern_inv_def sched_inv_def table_inv_def)
    have "\<forall>y. y \<in> region (e + 24) 4 \<or> y \<in> region (e + 20) 4 \<longrightarrow> \<not> ?W y"
      using on [of _ 24] on [of _ 20] assms(7) 5(1) by force
    moreover have "regs_ebx e (kmem k) = r_ebx c" "regs_ecx e (kmem k) = r_ecx c" "regs_edx e (kmem k) = r_edx c"
      by (simp_all add: regs_resume assms(6))
    moreover have "\<forall>x \<in> recv_buffers c. ?W x" by blast
    ultimately have "?W x \<or> x \<in> region (e + 28) 4"
      using sys_recv_writes(2) [OF mb, of e "r_ebx c" "r_ecx c" "r_edx c" ?W x, folded recv_buffers_iff] assms(9) 5(2) by blast
    then show ?thesis using on [of x 28] 5(1) by auto
  qed (use assms(9) in simp)
qed

lemma user_step_writes:
  assumes "paging_layout_ok L" "text_start L < ro_end L" "run_inv L lo (c, k)" "\<not> in_ring0 c" "sysstep L lo (c, k) (c', k')"
    "kmem k' x \<noteq> kmem k x" "r_eax c = SYS_RECV \<Longrightarrow> syscall_handler L c k = Ret c' k' \<Longrightarrow> \<forall>y \<in> recv_buffers c. \<not> reserved lo y"
  shows "reserved lo x \<or> (\<exists>v. translate L (kpaging k) True True v = Some x) \<or>
    r_eax c = SYS_RECV \<and> syscall_handler L c k = Ret c' k' \<and> x \<in> recv_buffers c"
proof -
  have k: "kern_inv L lo k" "active (cur k)" using assms(3) by (simp_all add: run_inv_iff)
  have live: "current_task k \<in> live_tasks (tasks k)" using k kern_current [OF k(1)] by (simp add: live_tasks_def)
  obtain e k1 where s: "save_context_regs c k = (e, k1)" by fastforce
  have nr: "in_ring0 c \<longrightarrow> frame_room lo c k" using assms(4) by simp
  note en = enter_kernel [OF assms(3) nr s]
  have t: "current_task k1 = current_task k" "kpaging k1 = kpaging k" "multitasking_enabled k1 = multitasking_enabled k" by (subst en(1), simp)+
  have own: "reserved lo x" if "kmem k1 x \<noteq> kmem k x" using en(5) [OF that] on_stack_reserved [OF k(1) live] by blast
  from assms(5) show ?thesis
  proof (cases rule: sysstep.cases)
    case (user m')
    then show ?thesis using assms(6) by (auto simp: user_store_def)
  next
    case timer
    then obtain r k2 where k2: "schedule L e k1 = Ret r k2" "kmem k' = kmem k2" using s by (auto simp: timer_handler_def split: outcome.splits)
    have "kmem k2 = kmem k1" by (rule schedule_roles(2) [OF _ _ k2(1)]) (use k(1) t in \<open>simp_all add: kern_inv_def sched_inv_def\<close>)
    then show ?thesis using own k2(2) assms(6) by simp
  next
    case syscall
    obtain r where d: "syscall_dispatch L e k1 = Ret r k'" using syscall(2) s by (auto simp: syscall_handler_def split: outcome.splits)
    have i: "run_inv L lo (c, k1)" using keeps_memory [OF assms(3) en(2), of c] en(1) by (simp add: keeps_contexts_def)
    have "reserved lo x \<or> r_eax c = SYS_RECV \<and> x \<in> recv_buffers c" if "kmem k' x \<noteq> kmem k1 x"
      by (rule dispatch_writes [OF assms(1,2) i assms(4) _ en(4) _ d that]) (use en(3) t assms(7) syscall(2) in auto)
    then show ?thesis using own syscall(2) assms(6) by (cases "kmem k' x = kmem k1 x") auto
  next
    case (keyboard m' scr)
    then show ?thesis using assms(6) on_stack_reserved [OF k(1) live] by auto
  qed (use assms(4) in simp_all)
qed

end
