(* ===== verification/Multiplexer.thy ===== *)
theory Multiplexer
  imports Main
begin

text \<open>
  The interface of a kernel that shares one processor among tasks: a step relation, an invariant, the task
  that runs, the tasks that exist, the context saved for each task and the registers of the processor. The laws are
  those of one step; the lemmas are about whole runs.
\<close>

text \<open>A run during which the task \<open>i\<close> exists and never runs.\<close>

definition away :: "('s \<Rightarrow> 's \<Rightarrow> bool) \<Rightarrow> ('s \<Rightarrow> nat) \<Rightarrow> ('s \<Rightarrow> nat \<Rightarrow> bool) \<Rightarrow> nat \<Rightarrow> 's \<Rightarrow> 's \<Rightarrow> bool" where
  "away step running alive i = rtranclp (\<lambda>s s'. step s s' \<and> alive s' i \<and> running s' \<noteq> i)"

locale multiplexer =
  fixes step :: "'s \<Rightarrow> 's \<Rightarrow> bool"
    and inv :: "'s \<Rightarrow> bool"
    and running :: "'s \<Rightarrow> nat"
    and alive :: "'s \<Rightarrow> nat \<Rightarrow> bool"
    and saved :: "'s \<Rightarrow> nat \<Rightarrow> 'c"
    and registers :: "'s \<Rightarrow> 'c"
  assumes inv_step: "inv s \<Longrightarrow> step s s' \<Longrightarrow> inv s'"
    and running_alive: "inv s \<Longrightarrow> alive s (running s)"
    and saved_step: "inv s \<Longrightarrow> step s s' \<Longrightarrow> alive s i \<Longrightarrow> alive s' i \<Longrightarrow> i \<noteq> running s \<Longrightarrow> saved s' i = saved s i"
    and dispatch_step: "inv s \<Longrightarrow> step s s' \<Longrightarrow> running s' \<noteq> running s \<Longrightarrow> registers s' = saved s' (running s')"
begin

lemma inv_run: "rtranclp step s s' \<Longrightarrow> inv s \<Longrightarrow> inv s'"
  by (induction rule: rtranclp_induct) (auto intro: inv_step)

lemma away_run:
  assumes "away step running alive i s s'" "inv s" "alive s i" "running s \<noteq> i"
  shows "inv s' \<and> alive s' i \<and> running s' \<noteq> i \<and> saved s' i = saved s i"
  using assms(1) unfolding away_def
proof (induction rule: rtranclp_induct)
  case (step t u)
  then show ?case using inv_step saved_step [of t u i] by metis
qed (use assms in simp)

text \<open>The next time it runs, a task has the registers that were saved for it.\<close>

lemma resumed:
  assumes "inv s" "alive s i" "running s \<noteq> i" "away step running alive i s s'" "step s' s''" "running s'' = i"
  shows "registers s'' = saved s i"
proof -
  note a = away_run [OF assms(4,1-3)]
  have "alive s'' i" using running_alive [OF inv_step] a assms(5,6) by blast
  then have "saved s'' i = saved s' i" using saved_step [of s' s'' i] a assms(5) by auto
  moreover have "registers s'' = saved s'' i" using dispatch_step [of s' s''] a assms(5,6) by auto
  ultimately show ?thesis using a by simp
qed

end

end
