(* ===== verification/System_Run.thy ===== *)
theory System_Run
  imports System_Steps Multiplexer
begin

text \<open>
  Runs of the system: the steps \<open>okstep\<close> of theory System are an instance of the interface of theory Multiplexer, and what
  follows from that for every run from the start of multitasking on.
\<close>

text \<open>A system with a well-formed layout shares the processor as the interface says.\<close>

definition layout_ok :: "layout \<Rightarrow> bool" where
  "layout_ok L \<longleftrightarrow> paging_layout_ok L \<and> text_start L < ro_end L"

definition sys_inv :: "layout \<Rightarrow> nat \<Rightarrow> cpu \<times> kernel \<Rightarrow> bool" where
  "sys_inv L lo s \<longleftrightarrow> layout_ok L \<and> run_inv L lo s"

definition sys_running :: "cpu \<times> kernel \<Rightarrow> nat" where
  "sys_running s = current_task (snd s)"

definition sys_alive :: "cpu \<times> kernel \<Rightarrow> nat \<Rightarrow> bool" where
  "sys_alive s i \<longleftrightarrow> i \<in> live_tasks (tasks (snd s))"

definition sys_saved :: "cpu \<times> kernel \<Rightarrow> nat \<Rightarrow> cpu" where
  "sys_saved s i = saved_regs (snd s) i"

interpretation mux: multiplexer "okstep L lo" "sys_inv L lo" sys_running sys_alive sys_saved fst for L lo
proof (unfold_locales, goal_cases)
  case (1 s s')
  then show ?case using okstep_keeps [of L lo "fst s" "snd s" "fst s'" "snd s'"] by (simp add: sys_inv_def layout_ok_def keeps_contexts_def)
next
  case (2 s)
  then show ?case using kern_current [of L lo "snd s"]
    by (cases s) (simp add: sys_inv_def run_inv_iff sys_alive_def sys_running_def live_tasks_def)
next
  case (3 s s' i)
  then show ?case using okstep_keeps [of L lo "fst s" "snd s" "fst s'" "snd s'"]
    by (simp add: sys_inv_def layout_ok_def keeps_contexts_def sys_alive_def sys_saved_def sys_running_def)
next
  case (4 s s')
  then show ?case using okstep_keeps [of L lo "fst s" "snd s" "fst s'" "snd s'"]
    by (simp add: sys_inv_def layout_ok_def keeps_contexts_def sys_saved_def sys_running_def)
qed

subsection \<open>Runs from the start of multitasking\<close>

lemma boot_run_inv:
  assumes "in_ring0 c"
  shows "run_inv L lo (c, boot_kernel L m)"
proof -
  let ?k = "boot_kernel L m"
  have live: "live_tasks (tasks ?k) = {0}" by (auto simp: live_tasks_def boot_kernel_tasks init_blank_task)
  have t: "active (tasks ?k 0)" "stack_base (tasks ?k 0) = 0" "addr_space (tasks ?k 0) = -1"
    by (simp_all add: boot_kernel_tasks init_blank_task)
  have "space_owners (tasks ?k) = {}" unfolding space_owners_def live using t(3) by auto
  then have "kern_inv L lo ?k" using boot_inv [of L m] t live by (simp add: kern_inv_def)
  moreover have "loaded L ?k" using t(3) by (simp add: loaded_def directory_of_def paging_init_def paging_kernel_directory_phys_def)
  ultimately show ?thesis using t(1) assms live by (simp add: run_inv_iff others_parked_def)
qed

text \<open>The states of the running system: kernel calls of the shell and the clock are single steps, and \<open>SYS_RECV\<close> is given
  buffers that its caller may write.\<close>

definition sys_reachable :: "layout \<Rightarrow> nat \<Rightarrow> mem \<Rightarrow> cpu \<times> kernel \<Rightarrow> bool" where
  "sys_reachable L lo m s \<longleftrightarrow> (\<exists>c0. in_ring0 c0 \<and> rtranclp (okstep L lo) (c0, boot_kernel L m) s)"

lemma sys_reachable_inv:
  assumes "layout_ok L" "sys_reachable L lo m s"
  shows "sys_inv L lo s"
proof -
  from assms(2) obtain c0 where c0: "in_ring0 c0" "rtranclp (okstep L lo) (c0, boot_kernel L m) s" by (auto simp: sys_reachable_def)
  have "sys_inv L lo (c0, boot_kernel L m)" using assms(1) boot_run_inv [OF c0(1)] by (simp add: sys_inv_def)
  from mux.inv_run [OF c0(2) this] show ?thesis .
qed

lemma timer_returns:
  assumes "run_inv L lo (c, k)" "in_ring0 c \<longrightarrow> frame_room lo c k"
  shows "\<exists>c' k'. timer_handler L c k = Ret c' k' \<and> policy (ticks (kpit k) + 1) (current_task k) (tasks k) (int (current_task k'))"
proof -
  obtain e k1 where s: "save_context_regs c k = (e, k1)" by fastforce
  note en = enter_kernel [OF assms s]
  have t: "tasks k1 = tasks k" "current_task k1 = current_task k" "multitasking_enabled k1 = multitasking_enabled k" "kpit k1 = kpit k"
    by (subst en(1), simp)+
  have "current_task k1 < 16" "multitasking_enabled k1" "\<exists>d<16. active (tasks k1 d)" unfolding t
    using assms(1) by (auto simp: run_inv_iff kern_inv_def sched_inv_def)
  from schedule_elects [OF this, of L e] obtain d k2 where k2: "schedule L e k1 = Ret (esp (tasks k2 d)) k2" "current_task k2 = d"
    "policy (ticks (kpit k) + 1) (current_task k) (tasks k) (int d)" unfolding t by blast
  then show ?thesis using s by (simp add: timer_handler_def)
qed

subsection \<open>Properties\<close>

text \<open>C1. From the start of multitasking on, whatever ring-3 programs compute and in whatever order
  they run, are interrupted and call the kernel: the invariant of the scheduler holds; a ring-3 program can write neither the
  heap with its kernel stacks nor the boot stack; while it runs TSS.esp0 is the top of its own kernel stack; every
  other task has its saved frame inside its own kernel stack, a frame of ring 3 only if it owns an address space;
  and the next timer interrupt returns, with the task that the policy of the scheduler elects.

  The runs are those of \<open>okstep\<close>, with these assumptions: programs give \<open>SYS_RECV\<close> only buffers that they may write themselves (the kernel
  does not check this, and without it the claim is false); the calls of shell and clock into the kernel are not interrupted (they run with interrupts
  enabled, see \<open>task_kill_race\<close> for what can happen); kernel threads write only their own stack and memory outside heap
  and boot stack, and have room for a frame; stores of ring 3 into the shared image leave the kernel's statics alone.\<close>

theorem running_system_safe:
  assumes "layout_ok L" "sys_reachable L lo m (c, k)"
  shows "sched_inv k \<and>
    (\<not> in_ring0 c \<longrightarrow> user_running c k \<and>
      (\<forall>v x. translate L (kpaging k) True True v = Some x \<longrightarrow>
        \<not> (lo \<le> unat x \<and> unat x < 0x90000) \<and> \<not> (0x100000 \<le> unat x \<and> unat x < HEAP_END))) \<and>
    (\<forall>j \<in> live_tasks (tasks k). j \<noteq> current_task k \<longrightarrow> parked_at lo k j (esp (tasks k j))) \<and>
    ((in_ring0 c \<longrightarrow> frame_room lo c k) \<longrightarrow>
      (\<exists>c' k'. timer_handler L c k = Ret c' k' \<and> policy (ticks (kpit k) + 1) (current_task k) (tasks k) (int (current_task k'))))"
proof -
  have l: "paging_layout_ok L" "text_start L < ro_end L" using assms(1) by (simp_all add: layout_ok_def)
  have i: "run_inv L lo (c, k)" using sys_reachable_inv [OF assms] by (simp add: sys_inv_def)
  have "user_running c k \<and> (\<forall>v x. translate L (kpaging k) True True v = Some x \<longrightarrow> \<not> reserved lo x)" if "\<not> in_ring0 c"
    using run_user_running(1) [OF i that] user_writes [OF l i that] by blast
  then show ?thesis using i timer_returns [OF i] unfolding run_inv_iff kern_inv_def others_parked_def reserved_def by blast
qed

text \<open>C2. End to end: a task that the timer interrupted, or that called \<open>SYS_SLEEP\<close>, in a state that
  the system can reach, continues with exactly the general registers, EIP, EFLAGS, ESP, CS and SS it had, when it next runs, whatever the
  system did in between under the assumptions of \<open>running_system_safe\<close> (in particular no \<open>SYS_RECV\<close> into memory that its caller may not
  write): other programs computing, calling the kernel, being started, ended and interrupted, the shell and the clock
  working. Being killed in the meantime is excluded. Nothing is said of DS, ES, FS and GS, which the code does not save.\<close>

theorem suspended_task_resumes:
  assumes "layout_ok L" "sys_reachable L lo m (c, k)"
    "(in_ring0 c \<longrightarrow> frame_room lo c k) \<and> timer_handler L c k = Ret c1 k1 \<or>
     \<not> in_ring0 c \<and> r_eax c = SYS_SLEEP \<and> syscall_handler L c k = Ret c1 k1"
    "current_task k1 \<noteq> current_task k" "away (okstep L lo) sys_running sys_alive (current_task k) (c1, k1) s"
    "okstep L lo s (c2, k2)" "current_task k2 = current_task k"
  shows "c2 = c"
proof -
  have inv: "sys_inv L lo (c, k)" by (rule sys_reachable_inv [OF assms(1,2)])
  then have i: "run_inv L lo (c, k)" by (simp add: sys_inv_def)
  have l: "paging_layout_ok L" "text_start L < ro_end L" using assms(1) by (simp_all add: layout_ok_def)
  have "keeps_contexts L lo k (c1, k1)" using assms(3) timer_keeps(1) [OF i] syscall_keeps [OF l i] by auto
  then have inv1: "sys_inv L lo (c1, k1)" using assms(1) by (simp add: keeps_contexts_def sys_inv_def)
  have saved: "saved_regs k1 (current_task k) = c" "active (tasks k1 (current_task k))"
    using assms(3) timer_keeps(2) [OF i] sleep_saved [OF i] by blast+
  then have "sys_alive (c1, k1) (current_task k)" using kern_current [of L lo k] i by (simp add: sys_alive_def live_tasks_def run_inv_iff)
  from mux.resumed [OF inv1 this _ assms(5,6)] assms(4,7) saved(1) show ?thesis by (simp add: sys_running_def sys_saved_def)
qed

text \<open>C3. Integrity of a program's memory: let a ring-3 program other than \<open>i\<close> run, in any state that the
  system can reach (under the assumptions of \<open>running_system_safe\<close>), and compute, call the kernel with any arguments or be interrupted. A byte outside kernel stacks and
  heap that the page tables of no task other than \<open>i\<close> let ring 3 write is not changed, neither by the program nor by the kernel on its
  behalf, with one exception: the bytes that the program names as buffers in a call of \<open>SYS_RECV\<close>, which the kernel writes without a check.
  (Those buffers must not reach into heap or boot stack, where the kernel's own frame lies.)\<close>

theorem user_memory_private:
  assumes "layout_ok L" "sys_reachable L lo m (c, k)" "\<not> in_ring0 c" "current_task k \<noteq> i" "sysstep L lo (c, k) (c', k')"
    "\<And>j v. j \<in> space_owners (tasks k) \<Longrightarrow> j \<noteq> i \<Longrightarrow>
      translate L (paging_switch_directory (directory_of L (tasks k j)) (kpaging k)) True True v \<noteq> Some x"
    "\<not> (lo \<le> unat x \<and> unat x < 0x90000)" "\<not> (0x100000 \<le> unat x \<and> unat x < HEAP_END)"
    "r_eax c = SYS_RECV \<Longrightarrow> syscall_handler L c k = Ret c' k' \<Longrightarrow> \<forall>y \<in> recv_buffers c. \<not> reserved lo y"
  shows "kmem k' x = kmem k x \<or> r_eax c = SYS_RECV \<and> syscall_handler L c k = Ret c' k' \<and> x \<in> recv_buffers c"
proof (rule ccontr)
  assume ch: "\<not> ?thesis"
  have l: "paging_layout_ok L" "text_start L < ro_end L" using assms(1) by (simp_all add: layout_ok_def)
  have i: "run_inv L lo (c, k)" using sys_reachable_inv [OF assms(1,2)] by (simp add: sys_inv_def)
  then have o: "current_task k \<in> space_owners (tasks k)" "loaded L k" using assms(3) by (simp_all add: run_inv_iff)
  have "kmem k' x \<noteq> kmem k x" using ch by blast
  from user_step_writes [OF l i assms(3,5) this assms(9)] ch assms(7,8) obtain v where "translate L (kpaging k) True True v = Some x"
    by (auto simp: reserved_def)
  then show False using assms(6) [OF o(1) assms(4), of v] by (simp add: loaded_switch [OF o(2)])
qed

subsection \<open>An example run\<close>

text \<open>The shell starts a program, which then alternates with it.\<close>

definition alternating :: "kernel \<Rightarrow> bool" where
  "alternating k \<longleftrightarrow> live_tasks (tasks k) = {0, 1} \<and>
     (\<forall>i \<in> {0, 1}. \<not> sleeping (tasks k i) \<and> priority (tasks k i) = 0)"

lemma alternating_policy:
  assumes "alternating k" "policy now from (tasks k) (int d)" "from = 0 \<or> from = 1"
  shows "d = 1 - from"
proof -
  have r: "d < 16 \<and> ready now (tasks k d) \<longleftrightarrow> d = 0 \<or> d = 1" for d
  proof -
    have "d < 16 \<and> active (tasks k d) \<longleftrightarrow> d = 0 \<or> d = 1" using assms(1) by (auto simp: alternating_def live_tasks_def)
    then show ?thesis using assms(1) by (auto simp: ready_def alternating_def)
  qed
  have p: "priority (tasks k 0) = 0" "priority (tasks k 1) = 0" using assms(1) by (simp_all add: alternating_def)
  have "\<not> (\<forall>d < 16. ready now (tasks k d) \<longrightarrow> priority (tasks k d) < 0)" using r [of 0] p(1) by (auto intro!: exI [of _ 0])
  then have c: "d < 16 \<and> ready now (tasks k d)"
    "\<forall>b < 16. ready now (tasks k b) \<longrightarrow> priority (tasks k b) \<le> priority (tasks k d) \<and>
      (priority (tasks k b) = priority (tasks k d) \<longrightarrow> turn from d \<le> turn from b)" using assms(2) by (auto simp: policy_def)
  from c(1) r have d: "d = 0 \<or> d = 1" by blast
  have "turn from d \<le> turn from 0" "turn from d \<le> turn from 1" using c(2) r [of 0] r [of 1] p d by auto
  then show ?thesis using d assms(3) by (auto simp: turn_def)
qed

lemma alternating_timer:
  assumes "run_inv L lo (c, k)" "alternating k" "current_task k = 0 \<or> current_task k = 1" "in_ring0 c \<longrightarrow> frame_room lo c k"
  shows "\<exists>c' k'. timer_handler L c k = Ret c' k' \<and> alternating k' \<and> current_task k' = 1 - current_task k \<and> run_inv L lo (c', k') \<and>
    saved_regs k' (current_task k) = c \<and> c' = saved_regs k (1 - current_task k) \<and> (\<forall>j. addr_space (tasks k' j) = addr_space (tasks k j)) \<and>
    (\<forall>n cb cs sb ss. space_set L (kpaging k') n cb cs sb ss = space_set L (kpaging k) n cb cs sb ss)"
proof -
  obtain e k1 where s: "save_context_regs c k = (e, k1)" by fastforce
  note en = enter_kernel [OF assms(1,4) s]
  have t: "tasks k1 = tasks k" "current_task k1 = current_task k" "multitasking_enabled k1 = multitasking_enabled k" "kpaging k1 = kpaging k"
    by (subst en(1), simp)+
  have k1: "current_task k1 < 16" "multitasking_enabled k1" using assms(1) by (simp_all add: t run_inv_iff kern_inv_def sched_inv_def)
  from timer_returns [OF assms(1,4)] obtain c' k' where
    r: "timer_handler L c k = Ret c' k'" "policy (ticks (kpit k) + 1) (current_task k) (tasks k) (int (current_task k'))" by blast
  note cur = alternating_policy [OF assms(2) r(2) assms(3)]
  obtain x k2 where k2: "schedule L e k1 = Ret x k2" "tasks k' = tasks k2" "kpaging k' = kpaging k2"
    using r(1) s by (auto simp: timer_handler_def split: outcome.splits)
  have "priority (tasks k2 d) = priority (tasks k1 d)" for d
    using schedule_cases [OF k1, of e L] k2(1) by (auto simp: Let_def woken_def save_context_def split: if_splits)
  then have pr: "priority (tasks k' d) = priority (tasks k d)" for d by (simp add: k2(2) t(1))
  have "live_tasks (tasks k') = live_tasks (tasks k)" by (simp add: live_tasks_def k2(2) schedule_keeps(1) [OF k1 k2(1)] t(1))
  moreover have "\<not> sleeping (tasks k' d)" if "\<not> sleeping (tasks k d)" for d
    using schedule_keeps(2) [OF k1 k2(1), of d] that by (auto simp: k2(2) t(1))
  ultimately have a: "alternating k'" using assms(2) pr by (simp add: alternating_def)
  note kc = timer_keeps [OF assms(1,4) r(1)]
  have "c' = saved_regs k' (current_task k')" using kc(1) cur assms(3) by (auto simp: keeps_contexts_def)
  moreover have "1 - current_task k \<in> live_tasks (tasks k)" "1 - current_task k \<in> live_tasks (tasks k')" "1 - current_task k \<noteq> current_task k"
  proof -
    have l: "live_tasks (tasks k) = {0, 1}" "live_tasks (tasks k') = {0, 1}" using assms(2) a by (simp_all only: alternating_def)
    have "1 - current_task k = 0 \<or> 1 - current_task k = 1" using assms(3) by arith
    then show "1 - current_task k \<in> live_tasks (tasks k)" "1 - current_task k \<in> live_tasks (tasks k')" unfolding l by blast+
    show "1 - current_task k \<noteq> current_task k" using assms(3) by auto
  qed
  ultimately have "c' = saved_regs k (1 - current_task k)" using kc(1) cur by (simp add: keeps_contexts_def)
  moreover have "addr_space (tasks k' j) = addr_space (tasks k j)"
    "space_set L (kpaging k') n cb cs sb ss = space_set L (kpaging k) n cb cs sb ss" for j n cb cs sb ss
    using schedule_roles(6,7) [OF k1 k2(1)] by (simp_all add: k2(2,3) t(1,4))
  ultimately show ?thesis using r(1) a cur kc by (auto simp: keeps_contexts_def)
qed

text \<open>The shell's registers, well inside the boot stack.\<close>

definition shell_cpu :: cpu where
  "shell_cpu = \<lparr>r_edi = 0, r_esi = 0, r_ebp = 0x8F100, r_ebx = 0, r_edx = 0, r_ecx = 0, r_eax = 0,
     r_eip = 0x8000, r_cs = 0x08, r_eflags = 0x202, r_esp = 0x8F000, r_ss = 0x10\<rparr>"

lemma shell_cpu_room: "in_ring0 shell_cpu" "current_task k = 0 \<Longrightarrow> frame_room 0x80000 shell_cpu k"
  by (simp_all add: shell_cpu_def in_ring0_def frame_room_def stack_low_def stack_high_def)

lemma example_layout_ok: "layout_ok example_layout"
  using example_layout_paging by (simp add: layout_ok_def)

lemma example_window: "window_clear example_layout 0x80000 0 0 (0x21010 - 0x1000) 0x1000"
  by (auto simp: window_clear_def user_reaches_def touches_iff touches_empty example_layout_def reserved_def)

lemma example_started:
  "\<exists>k. okstep example_layout 0x80000 (shell_cpu, boot_kernel example_layout (\<lambda>_. 0)) (shell_cpu, k) \<and> current_task k = 0 \<and>
    alternating k \<and> \<not> in_ring0 (saved_regs k 1) \<and> r_eax (saved_regs k 1) = 0 \<and> space_set example_layout (kpaging k) (nat (addr_space (tasks k 1))) 0 0 0x20010 0x1000"
proof -
  let ?b = "boot_kernel example_layout (\<lambda>_. 0)"
  obtain k where c: "create_user_task_argv example_layout 0x9500 0xF020 0x21010 0x1000 0 0 0 0 ?b = Ret 1 k"
    using boot_create_user by blast
  from created_user_task [OF boot_inv c] have ring: "\<not> in_ring0 (saved_regs k 1)" "r_eax (saved_regs k 1) = 0"
    "space_set example_layout (kpaging k) (nat (addr_space (tasks k 1))) 0 0 0x20010 0x1000"
    by (auto simp: Let_def saved_regs_def in_ring0_def)
  have k: "\<exists>t. tasks k = (tasks ?b)(1 := t) \<and> active t \<and> \<not> sleeping t \<and> priority t = 0" "current_task k = 0"
    using c by (auto simp: create_user_task_argv_def start_task_def upd_task_def Let_def split: if_splits option.splits prod.splits)
  then obtain t where t: "tasks k = (tasks ?b)(1 := t)" "active t" "\<not> sleeping t" "priority t = 0" by blast
  have "live_tasks (tasks k) = {0, 1}" unfolding t(1) live_tasks_def using t(2)
    by (auto simp: boot_kernel_tasks init_blank_task split: if_splits)
  moreover have "\<not> sleeping (tasks k i) \<and> priority (tasks k i) = 0" if "i \<in> {0, 1}" for i
    using that t by (auto simp: boot_kernel_tasks init_blank_task)
  ultimately have "alternating k" by (simp add: alternating_def)
  moreover have "okstep example_layout 0x80000 (shell_cpu, ?b) (shell_cpu, k)"
    unfolding okstep_ring0 [OF shell_cpu_room(1)]
    by (rule sysstep.call [OF shell_cpu_room(1) shell_cpu_room(1) thread_call.create_user [OF _ example_window c]]) simp
  ultimately show ?thesis using k(2) ring by blast
qed

text \<open>A ring-3 program that has just been given the processor for the first time, and the shell waiting.\<close>

lemma example_user_state:
  "\<exists>c k. sys_reachable example_layout 0x80000 (\<lambda>_. 0) (c, k) \<and> \<not> in_ring0 c \<and> current_task k = 1 \<and> alternating k \<and>
    run_inv example_layout 0x80000 (c, k) \<and> saved_regs k 0 = shell_cpu \<and> r_eax c = 0 \<and>
    space_set example_layout (kpaging k) (nat (addr_space (tasks k 1))) 0 0 0x20010 0x1000"
proof -
  let ?step = "okstep example_layout 0x80000" and ?b = "(shell_cpu, boot_kernel example_layout (\<lambda>_. 0))"
  obtain k where k: "?step ?b (shell_cpu, k)" "current_task k = 0" "alternating k" "\<not> in_ring0 (saved_regs k 1)"
    "r_eax (saved_regs k 1) = 0" "space_set example_layout (kpaging k) (nat (addr_space (tasks k 1))) 0 0 0x20010 0x1000"
    using example_started by blast
  have "sys_inv example_layout 0x80000 ?b" using boot_run_inv [OF shell_cpu_room(1)] example_layout_ok by (simp add: sys_inv_def)
  from mux.inv_step [OF this k(1)] have i: "run_inv example_layout 0x80000 (shell_cpu, k)" by (simp add: sys_inv_def)
  have room: "in_ring0 shell_cpu \<longrightarrow> frame_room 0x80000 shell_cpu k" using shell_cpu_room(2) [OF k(2)] by simp
  from alternating_timer [OF i k(3) disjI1 [OF k(2)] room] k(2) obtain c' k' where
    k': "timer_handler example_layout shell_cpu k = Ret c' k'" "alternating k'" "current_task k' = 1"
      "run_inv example_layout 0x80000 (c', k')" "saved_regs k' 0 = shell_cpu" "c' = saved_regs k 1"
      "space_set example_layout (kpaging k') (nat (addr_space (tasks k' 1))) 0 0 0x20010 0x1000" using k(6) by auto
  have "?step (shell_cpu, k) (c', k')" unfolding okstep_ring0 [OF shell_cpu_room(1)] by (rule sysstep.timer [OF room k'(1)])
  with k(1) have "rtranclp ?step ?b (c', k')" by (blast intro: rtranclp.rtrancl_into_rtrancl rtranclp.rtrancl_refl)
  then have "sys_reachable example_layout 0x80000 (\<lambda>_. 0) (c', k')" using shell_cpu_room(1) by (auto simp: sys_reachable_def)
  then show ?thesis using k(4,5) k' by blast
qed

theorem running_system_safe_witness:
  "\<exists>c k c' k'. \<not> in_ring0 c \<and> user_running c k \<and> timer_handler example_layout c k = Ret c' k'"
proof -
  obtain c k where "sys_reachable example_layout 0x80000 (\<lambda>_. 0) (c, k)" "\<not> in_ring0 c" using example_user_state by blast
  with running_system_safe [OF example_layout_ok this(1)] show ?thesis by blast
qed

theorem suspended_task_resumes_witness:
  "\<exists>c k c1 k1 k2. \<not> in_ring0 c \<and> timer_handler example_layout c k = Ret c1 k1 \<and> current_task k1 \<noteq> current_task k \<and>
    okstep example_layout 0x80000 (c1, k1) (c, k2) \<and> current_task k2 = current_task k"
proof -
  obtain c k where k: "sys_reachable example_layout 0x80000 (\<lambda>_. 0) (c, k)" "\<not> in_ring0 c" "current_task k = 1" "alternating k"
    "run_inv example_layout 0x80000 (c, k)" "saved_regs k 0 = shell_cpu" using example_user_state by blast
  have ring: "in_ring0 c \<longrightarrow> frame_room 0x80000 c k" using k(2) by simp
  from alternating_timer [OF k(5,4) disjI2 [OF k(3)] ring] k(3,6) obtain k1 where
    k1: "timer_handler example_layout c k = Ret shell_cpu k1" "alternating k1" "current_task k1 = 0"
      "run_inv example_layout 0x80000 (shell_cpu, k1)" by auto
  have room: "in_ring0 shell_cpu \<longrightarrow> frame_room 0x80000 shell_cpu k1" using shell_cpu_room(2) [OF k1(3)] by simp
  from alternating_timer [OF k1(4,2) disjI1 [OF k1(3)] room] k1(3) obtain c2 k2 where
    k2: "timer_handler example_layout shell_cpu k1 = Ret c2 k2" "current_task k2 = 1" by auto
  have st: "okstep example_layout 0x80000 (shell_cpu, k1) (c2, k2)"
    unfolding okstep_ring0 [OF shell_cpu_room(1)] by (rule sysstep.timer [OF room k2(1)])
  have away: "away (okstep example_layout 0x80000) sys_running sys_alive (current_task k) (shell_cpu, k1) (shell_cpu, k1)"
    by (simp add: away_def)
  have "c2 = c"
    by (rule suspended_task_resumes [OF example_layout_ok k(1) _ _ away st]) (use k(2,3) k1(1,3) k2(2) in auto)
  then have "current_task k1 \<noteq> current_task k \<and> okstep example_layout 0x80000 (shell_cpu, k1) (c, k2) \<and> current_task k2 = current_task k"
    using k(3) k1(3) k2(2) st by simp
  then show ?thesis using k(2) k1(1) by blast
qed

text \<open>The program of the example computes: it may write its own stack, and the byte at 0x30000, which is closed to it, keeps its value.\<close>

theorem user_memory_private_witness:
  "\<exists>c k k'. \<not> in_ring0 c \<and> sysstep example_layout 0x80000 (c, k) (c, k') \<and> kmem k' 0x20020 \<noteq> kmem k 0x20020 \<and>
    kmem k' 0x30000 = kmem k 0x30000"
proof -
  let ?L = example_layout and ?x = "0x30000 :: u32" and ?y = "0x20020 :: u32"
  obtain c k where k: "sys_reachable ?L 0x80000 (\<lambda>_. 0) (c, k)" "\<not> in_ring0 c" "current_task k = 1" "alternating k"
    "run_inv ?L 0x80000 (c, k)" "r_eax c = 0"
    "space_set ?L (kpaging k) (nat (addr_space (tasks k 1))) 0 0 0x20010 0x1000" using example_user_state by blast
  have kern: "kern_inv ?L 0x80000 k" "addr_space (tasks k 0) = -1" "loaded ?L k" "1 \<in> space_owners (tasks k)"
    using k(2,3,5) by (simp_all add: run_inv_iff kern_inv_def)
  have w: "window_clear ?L 0x80000 0 0 0x20010 0x1000" using example_window by simp
  note tr = space_translate [OF example_layout_paging kern(1) kern(4) k(7) w]
  have r: "user_reaches ?L 0 0 0x20010 0x1000 ?y" "\<not> user_reaches ?L 0 0 0x20010 0x1000 ?x"
    by (simp_all add: user_reaches_def touches_iff touches_empty example_layout_def)
  have y: "translate ?L (kpaging k) True True ?y = Some ?y"
    using tr [of True ?y] loaded_switch [OF kern(3)] k(3) r(1) by simp
  have x: "translate ?L (paging_switch_directory (directory_of ?L (tasks k 1)) (kpaging k)) True True v \<noteq> Some ?x" for v
    using tr [of True v] r(2) by (metis option.distinct(1) option.inject)
  let ?m = "(kmem k)(?y := kmem k ?y + 1)"
  have "user_store ?L k ?m" using y by (auto simp: user_store_def)
  from sysstep.user [OF k(2,2) this] have st: "sysstep ?L 0x80000 (c, k) (c, k\<lparr>kmem := ?m\<rparr>)" .
  have one: "j = 1" if j: "j \<in> space_owners (tasks k)" for j
  proof -
    have "j \<in> {0, 1}" using j k(4) unfolding alternating_def space_owners_def by blast
    moreover have "0 \<le> addr_space (tasks k j)" using j by (simp add: space_owners_def)
    then have "j \<noteq> 0" using kern(2) by (intro notI) simp
    ultimately show ?thesis by simp
  qed
  have p: "translate ?L (paging_switch_directory (directory_of ?L (tasks k j)) (kpaging k)) True True v \<noteq> Some ?x"
    if "j \<in> space_owners (tasks k)" for j v using one [OF that] x by simp
  have "current_task k \<noteq> 0" "r_eax c \<noteq> SYS_RECV" using k(3,6) by simp_all
  with user_memory_private [OF example_layout_ok k(1,2) this(1) st p] have "kmem (k\<lparr>kmem := ?m\<rparr>) ?x = kmem k ?x" by simp
  moreover have "kmem (k\<lparr>kmem := ?m\<rparr>) ?y \<noteq> kmem k ?y" by simp
  ultimately show ?thesis using k(2) st by blast
qed

end
