(* ===== verification/Boot.thy ===== *)
theory Boot
  imports User Interrupts System_Run
begin

text \<open>
  Start-up, \<open>main_entry\<close> of \<open>kernel/init.c\<close>, in the order of the code, and the clock task of \<open>kernel.c\<close>: the
  composition of all components, from a machine with arbitrary memory and disk to the loop around \<open>shell_poll\<close>.
\<close>

subsection \<open>The clock task\<close>

definition clock_symbols :: "u8 list" where
  "clock_symbols = lit ''-'' @ [92] @ lit ''|/''"

definition clock_offset :: int where
  "clock_offset = 79 * 2"

text \<open>One round of the endless loop: the symbol is drawn, the task goes to sleep; \<open>t\<close> is the local counter.\<close>

definition task_clock_round :: "u32 \<Rightarrow> kernel \<Rightarrow> u32 \<times> kernel" where
  "task_clock_round t k =
     (let v = vidmem (kscreen k);
          v = v(clock_offset := clock_symbols ! unat (t mod 4));
          v = v(clock_offset + 1 := 0x0E)
      in (t + 1, task_sleep 200 (k\<lparr>kscreen := (kscreen k)\<lparr>vidmem := v\<rparr>\<rparr>)))"

subsection \<open>The statics at entry\<close>

definition bss_kernel :: "mem \<Rightarrow> kernel" where
  "bss_kernel m =
     \<lparr>kmem = m, heap_start = 0, kpit = \<lparr>ticks = 0, frequency = 100\<rparr>, kgdt = blank_gdt, kpaging = blank_paging,
      kscreen = boot_screen, tasks = (\<lambda>_. blank_task), current_task = 0, multitasking_enabled = False, task_count = 0\<rparr>"

definition bss_machine :: "'d \<Rightarrow> kernel \<Rightarrow> 'd machine" where
  "bss_machine d k =
     \<lparr>kern = k, fsys = \<lparr>root = root_of_raw (replicate ROOT_BYTES 0), bitmap = replicate 512 0, disk = d, fcon = boot_screen\<rparr>,
      staging = (\<lambda>_. 0), slot_pid = [-1, -1, -1, -1]\<rparr>"

text \<open>The loop that clears the BSS, from \<open>__bss_start\<close> up to \<open>__bss_end\<close>.\<close>

definition clear_bss :: "u32 \<Rightarrow> u32 \<Rightarrow> mem \<Rightarrow> mem" where
  "clear_bss bss_start bss_end m = mem_write m bss_start (replicate (unat bss_end - unat bss_start) 0)"

subsection \<open>\<open>main_entry\<close>\<close>

text \<open>Before the disk is used: serial line, screen, segments, interrupt controller and timer.\<close>

definition boot_devices :: "layout \<Rightarrow> kernel \<Rightarrow> kernel" where
  "boot_devices L k =
     (let k = k\<lparr>kscreen := outs serial_init (kscreen k)\<rparr>;
          k = k\<lparr>kscreen := clear_screen (kscreen k)\<rparr>;
          k = k\<lparr>kscreen := kprint (line ''MxOS Kernel Loading...'') (kscreen k)\<rparr>;
          k = k\<lparr>kgdt := gdt_init L (kgdt k)\<rparr>;
          k = k\<lparr>kscreen := outs remap_pic (kscreen k)\<rparr>;
          (ws, p) = pit_init 100 (kpit k)
      in k\<lparr>kscreen := outs ws (kscreen k), kpit := p\<rparr>)"

text \<open>File system, embedded programs and shell.\<close>

definition boot_disk :: "layout \<Rightarrow> 'd ports \<Rightarrow> u8 list \<Rightarrow> u8 list \<Rightarrow> 'd machine \<Rightarrow> 'd shell" where
  "boot_disk L io hello_elf echo_elf M =
     (let (_, M) = with_fs (\<lambda>s. ((), fs_init io s)) M;
          M = exec_seed_programs io hello_elf echo_elf M
      in shell_init L io (boot_shell M))"

text \<open>Paging, heap and scheduler.\<close>

definition boot_memory :: "layout \<Rightarrow> 'd shell \<Rightarrow> 'd shell" where
  "boot_memory L s =
     (let s = shprint (line ''Enabling paging...'') s;
          s = on_kern (\<lambda>k. k\<lparr>kpaging := paging_init L (kpaging k)\<rparr>) s;
          s = shprint (line ''Paging enabled (per-task isolation ready).'') s;
          s = shprint (line ''Initializing memory...'') s;
          s = on_kern (\<lambda>k. case heap_init 0x100000 0x100000 (kmem k) of (h, m) \<Rightarrow> k\<lparr>heap_start := h, kmem := m\<rparr>) s;
          s = shprint (line ''Starting scheduler...'') s
      in on_kern (init_multitasking L) s)"

text \<open>The result of a creation, with the warning for a refusal.\<close>

definition or_warn :: "string \<Rightarrow> int outcome \<Rightarrow> 'd shell \<Rightarrow> 'd shell result" where
  "or_warn msg r s =
     (case r of
        Ret pid k \<Rightarrow> (let s = on_kern (\<lambda>_. k) s in Running (if pid < 0 then shprint (line msg) s else s))
      | _ \<Rightarrow> Stuck)"

definition boot_tasks :: "layout \<Rightarrow> 'd shell \<Rightarrow> 'd shell result" where
  "boot_tasks L s =
     (case or_warn ''Warning: unable to create clock task.''
             (create_task L (task_clock_at L) (clock_name_at L) (kern (mach s))) s of
        Running s \<Rightarrow>
          or_warn ''Warning: unable to create user demo task.''
            (create_user_task L (user_task_demo_at L) (user_demo_name_at L) (user_demo_stack_top L) user_demo_stack_size
              (kern (mach s))) s
      | r \<Rightarrow> r)"

text \<open>All of it, up to \<open>sti\<close>: the state with which the loop starts, and the interrupt table.\<close>

definition main_entry :: "layout \<Rightarrow> 'd ports \<Rightarrow> u32 \<Rightarrow> u32 \<Rightarrow> u8 list \<Rightarrow> u8 list \<Rightarrow> 'd \<Rightarrow> mem \<Rightarrow> 'd shell result \<times> idt_state" where
  "main_entry L io bss_start bss_end hello_elf echo_elf d m =
     (let k = boot_devices L (bss_kernel (clear_bss bss_start bss_end m));
          i = boot_idt L blank_idt;
          s = boot_memory L (boot_disk L io hello_elf echo_elf (bss_machine d k))
      in (boot_tasks L s, i))"

text \<open>The same with the waits for the UART, whose line status is \<open>lsr\<close>: those of \<open>boot_devices\<close>, then all others. Every byte
  for the serial line after \<open>serial_init\<close> was preceded by one wait; if one never ends, nothing behind it happens.\<close>

definition main_entry_wait ::
    "layout \<Rightarrow> (nat \<Rightarrow> u8) \<Rightarrow> 'd ports \<Rightarrow> u32 \<Rightarrow> u32 \<Rightarrow> u8 list \<Rightarrow> u8 list \<Rightarrow> 'd \<Rightarrow> mem \<Rightarrow> 'd shell result \<times> idt_state" where
  "main_entry_wait L lsr io bss_start bss_end hello_elf echo_elf d m =
     (let k = boot_devices L (bss_kernel (clear_bss bss_start bss_end m));
          n = length (out_log (kscreen k));
          (r, i) = main_entry L io bss_start bss_end hello_elf echo_elf d m
      in case log_waits lsr 0 (drop (length serial_init) (out_log (kscreen k))) of
           None \<Rightarrow> (Stuck, i)
         | Some j \<Rightarrow>
             (case r of
                Running s \<Rightarrow> (if log_waits lsr j (drop n (out_log (kscreen (kern (mach s))))) = None then Stuck else r, i)
              | _ \<Rightarrow> (r, i)))"

text \<open>The loop: a poll, then \<open>hlt\<close> until the next interrupt; \<open>irq\<close> is what the interrupts of a round do to the
  state that the shell sees. \<open>n\<close> rounds.\<close>

fun main_loop :: "layout \<Rightarrow> 'd ports \<Rightarrow> u32 \<Rightarrow> (nat \<Rightarrow> 'd shell \<Rightarrow> 'd shell) \<Rightarrow> nat \<Rightarrow> 'd shell \<Rightarrow> 'd shell result" where
  "main_loop L io locals irq 0 s = Running s"
| "main_loop L io locals irq (Suc n) s =
     (case shell_poll L io locals s of Running s \<Rightarrow> main_loop L io locals irq n (irq n s) | r \<Rightarrow> r)"

lemma on_kern_kern [simp]: "kern (mach (on_kern f s)) = f (kern (mach s))"
  by (simp add: on_kern_def)

subsection \<open>The disk stage touches the kernel only on the screen\<close>

lemma quiet_machine:
  "quiet (kern (snd (with_fs f M))) = quiet (kern M)" "quiet (kern (seed_program io name elf M)) = quiet (kern M)"
proof -
  show f: "quiet (kern (snd (with_fs f M))) = quiet (kern M)" for f :: "'a fs \<Rightarrow> 'r \<times> 'a fs"
    by (simp add: with_fs_def quiet_def split: prod.split)
  show "quiet (kern (seed_program io name elf M)) = quiet (kern M)"
    by (simp add: seed_program_def Let_def) (simp add: with_fs_def quiet_def split: prod.split)
qed

lemma bare_line_loop: "bare (line_loop buf n start i s) = bare s"
  by (induction buf n start i s rule: line_loop.induct) (subst line_loop.simps, simp add: Let_def)

lemma bare_load_static:
  assumes "load_static io name a cap s = (r, s')"
  shows "bare s' = bare s"
proof -
  obtain ro out s1 where f: "shfs (\<lambda>f. case fs_load_file io (Some name) a (of_nat cap) f of (r, out, f) \<Rightarrow> ((r, out), f)) s = ((ro, out), s1)"
    by (metis prod.collapse)
  have "bare s1 = bare s" using bare_fs [of _ s] f by (metis snd_conv)
  moreover have "s' = s1" using assms f by (cases ro) (simp_all add: load_static_def Let_def)
  ultimately show ?thesis by simp
qed

lemma bare_shell_init: "bare (shell_init L io s) = bare s"
proof -
  have h: "bare (history_load_from_disk L io s) = bare s" for s
    by (auto simp: history_load_from_disk_def bare_line_loop dest: bare_load_static split: prod.splits option.splits)
  have m: "bare (shell_show_motd L io s) = bare s" for s
    by (auto simp: shell_show_motd_def Let_def dest: bare_load_static split: prod.splits option.splits)
  show ?thesis by (simp add: shell_init_def Let_def h m)
qed

lemma bare_boot_disk: "bare (boot_disk L io h e M) = quiet (kern M)"
  using quiet_machine(1) [of "\<lambda>s. ((), fs_init io s)" M]
  by (cases "with_fs (\<lambda>s. ((), fs_init io s)) M") (simp add: boot_disk_def exec_seed_programs_def Let_def bare_shell_init boot_shell_def quiet_machine(2))

lemma boot_disk_inv: "shell_inv (boot_disk L io h e M)"
  by (auto simp: boot_disk_def Let_def intro: shell_init_inv boot_shell_inv split: prod.split)

lemma quiet_eq: "quiet k = quiet k' \<Longrightarrow> k = k'\<lparr>kscreen := kscreen k\<rparr>"
  by (cases k; cases k') (simp add: quiet_def)

text \<open>After paging, heap and scheduler are set up, the kernel is \<open>boot_kernel\<close>, whatever was printed.\<close>

lemma boot_memory_kernel:
  assumes "bare s = quiet (boot_devices L (bss_kernel m))"
  shows "\<exists>scr. kern (mach (boot_memory L s)) = (boot_kernel L m)\<lparr>kscreen := scr\<rparr>"
proof -
  have d: "quiet (boot_devices L (bss_kernel m)) =
      quiet ((bss_kernel m)\<lparr>kpit := snd (pit_init 100 (kpit (bss_kernel m))), kgdt := gdt_init L blank_gdt\<rparr>)"
    by (simp add: boot_devices_def quiet_def bss_kernel_def Let_def split: prod.split)
  have "bare (boot_memory L s) = quiet (boot_kernel L m)"
  proof -
    obtain scr where "kern (mach s) = ((bss_kernel m)\<lparr>kpit := snd (pit_init 100 (kpit (bss_kernel m))), kgdt := gdt_init L blank_gdt\<rparr>)
        \<lparr>kscreen := scr\<rparr>" using quiet_eq assms d by metis
    then show ?thesis
      by (simp add: boot_memory_def boot_kernel_def shprint_def mprint_def on_kern_def quiet_def Let_def boot_heap_def heap_init_def
          init_multitasking_def upd_task_def bss_kernel_def)
  qed
  from quiet_eq [OF this] show ?thesis by blast
qed

lemma shell_inv_kern [simp]: "shell_inv (on_kern f s) = shell_inv s" "shell_inv (shprint msg s) = shell_inv s"
  by (simp_all add: shell_inv_def on_kern_def shprint_def)

subsection \<open>The two tasks\<close>

text \<open>The second stack lies behind the first one.\<close>

lemma second_stack:
  assumes "kmalloc 0x100000 0x1000 (boot_heap m) = Some (0x10000C, m1)" "\<And>x. unat x < 0x10000C \<or> 0x10100C \<le> unat x \<Longrightarrow> m2 x = m1 x"
  shows "\<exists>m3. kmalloc 0x100000 0x1000 m2 = Some (0x101018, m3)"
proof -
  have "heap_inv m1 0x100000 [(4096, False), (0xFEFE8, True)]"
    using kmalloc_cases [of "boot_heap m" "0x100000" "[(0xFFFF4, True)]" "0x1000"] boot_heap_inv assms(1)
    by (auto simp: round4_def)
  then have "heap_inv m2 0x100000 [(4096, False), (0xFEFE8, True)]" by (rule heap_inv_client) (auto intro: assms(2))
  then show ?thesis using kmalloc_cases [of m2 "0x100000" "[(4096, False), (0xFEFE8, True)]" "0x1000"]
    by (auto simp: round4_def)
qed

lemma boot_inv_scr: "sched_inv ((boot_kernel L m)\<lparr>kscreen := scr\<rparr>)"
  using boot_inv [of L m] by (simp add: sched_inv_def)

lemma boot_clock_task:
  fixes L m scr defines "k \<equiv> (boot_kernel L m)\<lparr>kscreen := scr\<rparr>"
  shows "\<exists>k1 m3. create_task L entry name k = Ret 1 k1 \<and> sched_inv k1 \<and> free_slot k1 = Some 2 \<and> task_count k1 = 2 \<and>
    kpaging k1 = kpaging k \<and> tasks k1 0 = tasks k 0 \<and> live_tasks (tasks k1) = {0, 1} \<and> current_task k1 = 0 \<and>
    multitasking_enabled k1 \<and> stack_of (tasks k1) 1 = 0x10000C \<and> esp (tasks k1 1) = 0x100FDC \<and> addr_space (tasks k1 1) = -1 \<and>
    resume (kmem k1) 0x100FDC = \<lparr>r_edi = 0, r_esi = 0, r_ebp = 0, r_ebx = 0, r_edx = 0, r_ecx = 0, r_eax = 0,
      r_eip = entry, r_cs = 0x08, r_eflags = 0x202, r_esp = 0x101008, r_ss = 0x10\<rparr> \<and>
    kmalloc (heap_start k1) 0x1000 (kmem k1) = Some (0x101018, m3)"
proof -
  have inv: "sched_inv k" using boot_inv_scr by (simp add: k_def)
  obtain m1 where m1: "kmalloc 0x100000 0x1000 (boot_heap m) = Some (0x10000C, m1)" using boot_heap_alloc by blast
  let ?f = "kernel_frame L entry"
  have sp: "snd (push_words ?f m1 0x10100C) = 0x100FDC" using push_words_sp [of ?f m1 "0x10100C"] by (simp add: kernel_frame_def)
  obtain m2 where pw: "push_words ?f m1 0x10100C = (m2, 0x100FDC)" using sp by (metis prod.collapse)
  have out: "m2 x = m1 x" if "unat x < 0x10000C \<or> 0x10100C \<le> unat x" for x
    using push_words_outside [of ?f "0x10100C" x m1] that pw by (auto simp: kernel_frame_def)
  obtain m3 where m3: "kmalloc 0x100000 0x1000 m2 = Some (0x101018, m3)" using second_stack [OF m1 out] by blast
  define k1 where "k1 = start_task 1 0x10000C ?f name (-1) (k\<lparr>kmem := m1\<rparr>)"
  have c: "create_task L entry name k = Ret 1 k1"
    using m1 by (simp add: k1_def k_def create_task_def free_slot_def boot_kernel_tasks init_blank_task upt_rec Let_def)
  have e: "k1 = k\<lparr>kmem := m2, task_count := 2, tasks := (tasks k)(1 :=
      mailbox_reset ((tasks k 1)\<lparr>stack_base := 0x10000C, sleeping := False, wake_tick := 0, esp := 0x100FDC,
        active := True, tname := name, addr_space := -1, priority := 0\<rparr>))\<rparr>"
    using start_task_eq [of ?f "k\<lparr>kmem := m1\<rparr>" "0x10000C" m2 "0x100FDC"] pw by (simp add: k1_def k_def)
  have f: "kmem k1 = m2" "task_count k1 = 2" "kpaging k1 = kpaging k" "tasks k1 0 = tasks k 0" "current_task k1 = 0"
    "multitasking_enabled k1" "heap_start k1 = 0x100000" "stack_of (tasks k1) 1 = 0x10000C" "esp (tasks k1 1) = 0x100FDC"
    "addr_space (tasks k1 1) = -1" by (simp_all add: e k_def stack_of_def)
  have "sched_inv k1" by (rule create_task_inv [OF inv c])
  moreover have "free_slot k1 = Some 2" by (simp add: e k_def free_slot_def boot_kernel_tasks init_blank_task upt_rec)
  moreover have "live_tasks (tasks k1) = {0, 1}" by (auto simp: e k_def live_tasks_def boot_kernel_tasks init_blank_task)
  moreover have "resume m2 0x100FDC = \<lparr>r_edi = 0, r_esi = 0, r_ebp = 0, r_ebx = 0, r_edx = 0, r_ecx = 0, r_eax = 0,
      r_eip = entry, r_cs = 0x08, r_eflags = 0x202, r_esp = 0x101008, r_ss = 0x10\<rparr>" using kernel_frame_resume [OF pw] by simp
  ultimately show ?thesis using c m3 f by (intro exI [of _ k1] exI [of _ m3]) simp
qed

lemma boot_demo_created:
  assumes "free_slot k1 = Some 2" "task_count k1 = 2" "kmalloc (heap_start k1) 0x1000 (kmem k1) = Some (0x101018, m3)"
    "kpaging k1 = paging_init L blank_paging"
  shows "\<exists>k2. create_user_task_argv L entry name utop sz 0 0 0 0 k1 = Ret 2 k2 \<and> paging_on (kpaging k2) \<and>
    current_task k2 = current_task k1 \<and> multitasking_enabled k2 = multitasking_enabled k1"
proof -
  obtain p where p: "paging_create_task_directory_ex L 0 0 (utop - sz) sz (paging_init L blank_paging) = (0, p)" "paging_on p"
    by (simp add: paging_create_task_directory_ex_def paging_init_def blank_paging_def upt_rec)
  obtain m4 e where "push_words (user_frame entry utop 0 0) m3 (0x101018 + 4096) = (m4, e)" by fastforce
  then show ?thesis using assms p
    by (simp add: create_user_task_argv_def Let_def start_task_eq [of _ _ "0x101018" m4 e])
qed

text \<open>The demonstration task beside the clock task; \<open>k1\<close> is the kernel with shell and clock.\<close>

lemma boot_demo_task:
  assumes "sched_inv k1" "free_slot k1 = Some 2" "task_count k1 = 2" "kmalloc (heap_start k1) 0x1000 (kmem k1) = Some (0x101018, m3)"
    "kpaging k1 = paging_init L blank_paging" "live_tasks (tasks k1) = {0, 1}" "stack_of (tasks k1) 1 = 0x10000C"
    "in_ring0 (resume (kmem k1) 0x100FDC)"
  shows "\<exists>k2. create_user_task_argv L entry name utop sz 0 0 0 0 k1 = Ret 2 k2 \<and> sched_inv k2 \<and> paging_on (kpaging k2) \<and>
    current_task k2 = current_task k1 \<and> multitasking_enabled k2 = multitasking_enabled k1 \<and> live_tasks (tasks k2) = {0, 1, 2} \<and>
    tasks k2 0 = tasks k1 0 \<and> tasks k2 1 = tasks k1 1 \<and> resume (kmem k2) 0x100FDC = resume (kmem k1) 0x100FDC \<and>
    0 \<le> addr_space (tasks k2 2) \<and>
    (let demo = resume (kmem k2) (esp (tasks k2 2)) in r_eip demo = entry \<and> \<not> in_ring0 demo \<and> r_esp demo = utop)"
proof -
  obtain k2 where k2: "create_user_task_argv L entry name utop sz 0 0 0 0 k1 = Ret 2 k2" "paging_on (kpaging k2)"
    "current_task k2 = current_task k1" "multitasking_enabled k2 = multitasking_enabled k1"
    using boot_demo_created [OF assms(2-5)] by fastforce
  obtain i where i: "i < 16" "2 = int i" "let t = tasks k2 i in active t \<and> \<not> sleeping t \<and> tname t = name \<and>
      0 \<le> addr_space t \<and> addr_space t < 6 \<and> addr_space t \<notin> used_spaces (kpaging k1) \<and>
      space_set L (kpaging k2) (nat (addr_space t)) 0 0 (utop - sz) sz \<and>
      resume (kmem k2) (esp t) = \<lparr>r_edi = 0, r_esi = 0, r_ebp = 0, r_ebx = 0, r_edx = 0, r_ecx = 0, r_eax = 0,
        r_eip = entry, r_cs = 0x1B, r_eflags = 0x202, r_esp = utop, r_ss = 0x23\<rparr>"
    "\<forall>j. j \<noteq> i \<longrightarrow> tasks k2 j = tasks k1 j" "stacks_kept k1 {} (kmem k2)"
    using created_user_task [OF assms(1) k2(1)] by auto
  have "i = 2" using i(2) by linarith
  then have st: "active (tasks k2 2)" "0 \<le> addr_space (tasks k2 2)" "r_eip (resume (kmem k2) (esp (tasks k2 2))) = entry"
    "\<not> in_ring0 (resume (kmem k2) (esp (tasks k2 2)))" "r_esp (resume (kmem k2) (esp (tasks k2 2))) = utop"
    "\<And>j. j \<noteq> 2 \<Longrightarrow> tasks k2 j = tasks k1 j" using i(3,4) by (simp_all add: Let_def in_ring0_def)
  have "stack_base (tasks k1 1) \<noteq> 0" using assms(7) unfolding stack_of_def by (metis unat_0 zero_neq_numeral)
  then have own: "1 \<in> stack_owners (tasks k1)" using assms(6) by (simp add: stack_owners_def)
  have "kmem k2 x = kmem k1 x" if "x \<in> region 0x100FDC 44" for x
  proof -
    have "0x100FDC \<le> unat x \<and> unat x < 0x101008" using that by (simp add: region_iff)
    then have "stack_of (tasks k1) 1 \<le> unat x \<and> unat x < stack_of (tasks k1) 1 + 4096" unfolding assms(7) by simp
    then show ?thesis using i(5) own unfolding stacks_kept_def by blast
  qed
  then have cl: "resume (kmem k2) 0x100FDC = resume (kmem k1) 0x100FDC" using assms(8) by (intro resume_cong) simp
  have "i \<in> live_tasks (tasks k2) \<longleftrightarrow> i = 2 \<or> i \<in> live_tasks (tasks k1)" for i
    using st(6) [of i] st(1) by (cases "i = 2") (simp_all add: live_tasks_def)
  then have "live_tasks (tasks k2) = {0, 1, 2}" using assms(6) by auto
  moreover have "sched_inv k2" by (rule create_user_task_inv [OF assms(1) k2(1)])
  ultimately show ?thesis using k2 st(2-5) st(6) [of 0] st(6) [of 1] cl by (intro exI [of _ k2]) (simp add: Let_def)
qed

text \<open>The state after start-up is one of the running system.\<close>

lemma boot_reachable:
  assumes "create_task L e1 n1 ((boot_kernel L m)\<lparr>kscreen := scr\<rparr>) = Ret p1 k1" "current_task k1 = 0"
    "create_user_task_argv L e2 n2 utop sz cb cs ebx ecx k1 = Ret p2 k2" "window_clear L lo cb cs (utop - sz) sz" "in_ring0 c"
  shows "sys_reachable L lo m (c, k2)"
proof -
  let ?k = "boot_kernel L m"
  have "okstep L lo (c, ?k) (c, ?k\<lparr>kscreen := scr\<rparr>)" unfolding okstep_ring0 [OF assms(5)] by (rule sysstep.call [OF assms(5,5) thread_call.print])
  moreover have "okstep L lo (c, ?k\<lparr>kscreen := scr\<rparr>) (c, k1)"
    unfolding okstep_ring0 [OF assms(5)] by (rule sysstep.call [OF assms(5,5) thread_call.create [OF _ assms(1)]]) simp
  moreover have "okstep L lo (c, k1) (c, k2)"
    unfolding okstep_ring0 [OF assms(5)] by (rule sysstep.call [OF assms(5,5) thread_call.create_user [OF assms(2,4,3)]])
  ultimately have "rtranclp (okstep L lo) (c, ?k) (c, k2)"
    by (blast intro: rtranclp.rtrancl_into_rtrancl rtranclp.rtrancl_refl)
  then show ?thesis using assms(5) by (auto simp: sys_reachable_def)
qed

lemma waits_end:
  assumes "\<forall>i. \<exists>j\<ge>i. bit (lsr j) 5" "main_entry L io bss_start bss_end hello_elf echo_elf d m = (Running s, i)"
  shows "main_entry_wait L lsr io bss_start bss_end hello_elf echo_elf d m = (Running s, i)"
proof -
  let ?boot = "out_log (kscreen (boot_devices L (bss_kernel (clear_bss bss_start bss_end m))))"
  obtain j where j: "log_waits lsr 0 (drop (length serial_init) ?boot) = Some j" using log_waits_returns [OF assms(1)] by blast
  obtain j' where "log_waits lsr j (drop (length ?boot) (out_log (kscreen (kern (mach s))))) = Some j'"
    using log_waits_returns [OF assms(1)] by blast
  with j show ?thesis using assms(2) by (simp add: main_entry_wait_def Let_def)
qed

lemma boot_hangs:
  assumes "\<forall>j. \<not> bit (lsr j) 5"
  shows "log_waits lsr 0 (drop (length serial_init) (out_log (kscreen (boot_devices L (bss_kernel m))))) = None"
proof -
  define s0 where "s0 = clear_screen (outs serial_init boot_screen)"
  let ?t = "line ''MxOS Kernel Loading...''"
  obtain us where us: "out_log s0 = serial_init @ us" "log_waits lsr 0 us = Some 0"
    by (simp add: s0_def clear_screen_def update_cursor_def outs_def boot_screen_def Let_def)
  obtain ws where ws: "out_log (kprint ?t s0) = out_log s0 @ ws"
    "kprint_wait lsr 0 ?t s0 = map_option (\<lambda>k'. (k', kprint ?t s0)) (log_waits lsr 0 ws)" using kprint_wait_eq by blast
  have "kprint_wait lsr 0 ?t s0 = None" by (rule kprint_wait_hangs) (use assms in \<open>simp_all add: lit_def\<close>)
  then have "log_waits lsr 0 ws = None" using ws(2) by simp
  moreover obtain v where "kscreen (boot_devices L (bss_kernel m)) = outs v (outs remap_pic (kprint ?t s0))"
    by (cases "pit_init 100 \<lparr>ticks = 0, frequency = 100\<rparr>") (simp add: boot_devices_def bss_kernel_def s0_def Let_def)
  then have "out_log (kscreen (boot_devices L (bss_kernel m))) = serial_init @ us @ ws @ remap_pic @ v"
    using us(1) ws(1) by (simp add: outs_def)
  ultimately show ?thesis using us(2) by (simp add: log_waits_append)
qed

lemma boot_main_loop:
  assumes uart: "\<forall>i. \<exists>j\<ge>i. bit (lsr j) 5"
  shows "(\<exists>s. main_entry_wait L lsr io bss_start bss_end hello_elf echo_elf d m = (Running s, boot_idt L blank_idt) \<and> shell_inv s \<and>
    (let k = kern (mach s); clock = resume (kmem k) (esp (tasks k 1)); demo = resume (kmem k) (esp (tasks k 2)) in
      sched_inv k \<and> live_tasks (tasks k) = {0, 1, 2} \<and> current_task k = 0 \<and> multitasking_enabled k \<and>
      paging_on (kpaging k) \<and> tname (tasks k 0) = shell_name_at L \<and>
      r_eip clock = task_clock_at L \<and> in_ring0 clock \<and>
      r_eip demo = user_task_demo_at L \<and> \<not> in_ring0 demo \<and> r_esp demo = user_demo_stack_top L \<and>
      addr_space (tasks k 1) = -1 \<and> 0 \<le> addr_space (tasks k 2) \<and>
      (\<forall>lo c. window_clear L lo 0 0 (user_demo_stack_at L) 4096 \<and> in_ring0 c \<longrightarrow>
        sys_reachable L lo (clear_bss bss_start bss_end m) (c, k))))"
proof -
let ?m = "clear_bss bss_start bss_end m"
  define s0 where "s0 = boot_memory L (boot_disk L io hello_elf echo_elf (bss_machine d (boot_devices L (bss_kernel ?m))))"
  obtain scr where k0: "kern (mach s0) = (boot_kernel L ?m)\<lparr>kscreen := scr\<rparr>"
    using boot_memory_kernel [of _ L ?m] bare_boot_disk [of L io hello_elf echo_elf "bss_machine d (boot_devices L (bss_kernel ?m))"]
    by (auto simp: s0_def bss_machine_def)
  obtain k1 m3 where k1: "create_task L (task_clock_at L) (clock_name_at L) (kern (mach s0)) = Ret 1 k1" "sched_inv k1"
    "free_slot k1 = Some 2" "task_count k1 = 2" "kpaging k1 = kpaging (boot_kernel L ?m)" "tasks k1 0 = tasks (boot_kernel L ?m) 0"
    "live_tasks (tasks k1) = {0, 1}" "current_task k1 = 0" "multitasking_enabled k1" "stack_of (tasks k1) 1 = 0x10000C"
    "esp (tasks k1 1) = 0x100FDC" "r_eip (resume (kmem k1) 0x100FDC) = task_clock_at L" "in_ring0 (resume (kmem k1) 0x100FDC)"
    "addr_space (tasks k1 1) = -1" "kmalloc (heap_start k1) 0x1000 (kmem k1) = Some (0x101018, m3)"
    using boot_clock_task [where L = L and m = ?m and scr = scr and entry = "task_clock_at L" and name = "clock_name_at L"] k0 by (auto simp: in_ring0_def)
  from boot_demo_task [OF k1(2,3,4,15) _ k1(7,10,13), of L "user_task_demo_at L" "user_demo_name_at L" "user_demo_stack_top L"
      user_demo_stack_size] k1(5) obtain k2 where
    k2: "create_user_task_argv L (user_task_demo_at L) (user_demo_name_at L) (user_demo_stack_top L) user_demo_stack_size 0 0 0 0 k1 = Ret 2 k2"
    "sched_inv k2" "paging_on (kpaging k2)" "current_task k2 = 0" "multitasking_enabled k2" "live_tasks (tasks k2) = {0, 1, 2}"
    "tasks k2 0 = tasks k1 0" "tasks k2 1 = tasks k1 1" "resume (kmem k2) 0x100FDC = resume (kmem k1) 0x100FDC"
    "0 \<le> addr_space (tasks k2 2)" "r_eip (resume (kmem k2) (esp (tasks k2 2))) = user_task_demo_at L"
    "\<not> in_ring0 (resume (kmem k2) (esp (tasks k2 2)))" "r_esp (resume (kmem k2) (esp (tasks k2 2))) = user_demo_stack_top L"
    using k1(8,9) by (auto simp: Let_def)
  have "shell_inv s0" using boot_disk_inv by (simp add: s0_def boot_memory_def Let_def)
  moreover have "main_entry L io bss_start bss_end hello_elf echo_elf d m = (Running (on_kern (\<lambda>_. k2) (on_kern (\<lambda>_. k1) s0)), boot_idt L blank_idt)"
    using k1(1) k2(1)
    by (simp add: main_entry_def boot_tasks_def or_warn_def s0_def [symmetric] create_user_task_def create_user_task_ex_def Let_def)
  from waits_end [OF uart this] have "main_entry_wait L lsr io bss_start bss_end hello_elf echo_elf d m =
      (Running (on_kern (\<lambda>_. k2) (on_kern (\<lambda>_. k1) s0)), boot_idt L blank_idt)" .
  moreover have "tname (tasks k2 0) = shell_name_at L" using k2(7) k1(6) by (simp add: boot_kernel_tasks)
  moreover have "sys_reachable L lo ?m (c, k2)" if "window_clear L lo 0 0 (user_demo_stack_at L) 4096" "in_ring0 c" for lo c
    by (rule boot_reachable [OF k1(1) [unfolded k0] k1(8) k2(1) _ that(2)])
      (use that(1) in \<open>simp add: user_demo_stack_top_def user_demo_stack_size_def\<close>)
  ultimately show ?thesis using k1(11-14) k2(2-)
    by (intro exI [of _ "on_kern (\<lambda>_. k2) (on_kern (\<lambda>_. k1) s0)"]) (simp add: Let_def)
qed


text \<open>C11. If the UART reports ready again and again, start-up reaches its main loop, whatever memory and disk hold and however the disk
  answers; if the UART never does, it hangs at the first message. In the main loop exactly three tasks are live, the shell as the current task, the clock, which will start in
  ring 0, and the demonstration, which will start in ring 3 on its own stack and in its own address space; paging
  is on, the interrupt table is loaded, and the invariants of scheduler and shell hold. If the linker has placed
  kernel image and demonstration stack clear of heap and boot stack, this is a state from which the running
  system keeps its tasks apart: one of \<open>sys_reachable\<close>, whatever the registers of the shell.\<close>

theorem boot_ready:
  "((\<forall>j. \<not> bit (lsr j) 5) \<longrightarrow> fst (main_entry_wait L lsr io bss_start bss_end hello_elf echo_elf d m) = Stuck) \<and>
   ((\<forall>i. \<exists>j\<ge>i. bit (lsr j) 5) \<longrightarrow>
   (\<exists>s. main_entry_wait L lsr io bss_start bss_end hello_elf echo_elf d m = (Running s, boot_idt L blank_idt) \<and> shell_inv s \<and>
    (let k = kern (mach s); clock = resume (kmem k) (esp (tasks k 1)); demo = resume (kmem k) (esp (tasks k 2)) in
      sched_inv k \<and> live_tasks (tasks k) = {0, 1, 2} \<and> current_task k = 0 \<and> multitasking_enabled k \<and>
      paging_on (kpaging k) \<and> tname (tasks k 0) = shell_name_at L \<and>
      r_eip clock = task_clock_at L \<and> in_ring0 clock \<and>
      r_eip demo = user_task_demo_at L \<and> \<not> in_ring0 demo \<and> r_esp demo = user_demo_stack_top L \<and>
      addr_space (tasks k 1) = -1 \<and> 0 \<le> addr_space (tasks k 2) \<and>
      (\<forall>lo c. window_clear L lo 0 0 (user_demo_stack_at L) 4096 \<and> in_ring0 c \<longrightarrow>
        sys_reachable L lo (clear_bss bss_start bss_end m) (c, k)))))"
proof (intro conjI impI)
  assume "\<forall>j. \<not> bit (lsr j) 5"
  from boot_hangs [OF this] show "fst (main_entry_wait L lsr io bss_start bss_end hello_elf echo_elf d m) = Stuck"
    by (simp add: main_entry_wait_def Let_def split: prod.split)
qed (rule boot_main_loop)

theorem boot_ready_witness:
  "\<forall>io d. \<exists>s. main_entry_wait example_layout (\<lambda>_. 0x60) io 0x10000 0x60000 [] [] d (\<lambda>_. 0) = (Running s, boot_idt example_layout blank_idt) \<and>
    sys_reachable example_layout 0x80000 (clear_bss 0x10000 0x60000 (\<lambda>_. 0)) (shell_cpu, kern (mach s))"
proof (intro allI)
  fix io :: "'a ports" and d
  have "window_clear example_layout 0x80000 0 0 (user_demo_stack_at example_layout) 4096"
    using example_window by (simp add: example_layout_def)
  moreover have "bit (0x60 :: u8) 5" by (simp add: bit_numeral_rec)
  then have "\<forall>i. \<exists>j\<ge>i. bit ((\<lambda>_ :: nat. 0x60 :: u8) j) 5" by blast
  ultimately show "\<exists>s. main_entry_wait example_layout (\<lambda>_. 0x60) io 0x10000 0x60000 [] [] d (\<lambda>_. 0) = (Running s, boot_idt example_layout blank_idt) \<and>
      sys_reachable example_layout 0x80000 (clear_bss 0x10000 0x60000 (\<lambda>_. 0)) (shell_cpu, kern (mach s))"
    using boot_ready [of "\<lambda>_. 0x60" example_layout io "0x10000" "0x60000" "[]" "[]" d "\<lambda>_. 0"] shell_cpu_room(1)
    unfolding Let_def by blast
qed

subsection \<open>The main loop\<close>

lemma poll_ipc_kept: "shell_poll_ipc locals s = Running s' \<Longrightarrow> kept s s' \<and> keys s' = keys s"
  by (auto simp: shell_poll_ipc_def Let_def shprint_def mprint_def shdo_def on_kern_def kept_def statics_def
      split: prod.splits option.splits if_splits)

lemma shell_poll_inv:
  assumes "shell_inv s" "kbd_inv (keys s)" "shell_poll L io locals s = Running s'"
  shows "shell_inv s' \<and> kbd_inv (keys s')"
proof -
  obtain q where q: "poll_keys L io (keys s) s = on_running (\<lambda>s. s\<lparr>keys := q\<rparr>) (run_keys L io (kbd_items (keys s)) s)" "kbd_inv q"
    using poll_keys_run [OF assms(2)] by blast
  obtain t where t: "run_keys L io (kbd_items (keys s)) s = Running t" "shell_poll_ipc locals (t\<lparr>keys := q\<rparr>) = Running s'"
    using assms(3) q(1) by (cases "run_keys L io (kbd_items (keys s)) s") (auto simp: shell_poll_def)
  have "shell_inv (t\<lparr>keys := q\<rparr>)" using run_keys_inv [OF assms(1) t(1)] kept_inv [of t "t\<lparr>keys := q\<rparr>"]
    by (simp add: kept_def statics_def)
  then show ?thesis using poll_ipc_kept [OF t(2)] kept_inv q(2) by auto
qed

text \<open>The loop keeps the invariants of shell and keyboard as long as the interrupts do.\<close>

lemma main_loop_inv:
  assumes "\<And>n s. shell_inv s \<Longrightarrow> kbd_inv (keys s) \<Longrightarrow> shell_inv (irq n s) \<and> kbd_inv (keys (irq n s))"
  shows "shell_inv s \<Longrightarrow> kbd_inv (keys s) \<Longrightarrow> main_loop L io locals irq n s = Running s' \<Longrightarrow> shell_inv s' \<and> kbd_inv (keys s')"
proof (induction n arbitrary: s)
  case (Suc n)
  then obtain t where t: "shell_poll L io locals s = Running t" "main_loop L io locals irq n (irq n t) = Running s'"
    by (auto split: result.splits)
  from shell_poll_inv [OF Suc.prems(1,2) t(1)] assms Suc.IH t(2) show ?case by blast
qed simp

text \<open>A round of the clock draws in the corner of the screen only, and sleeps 20 ticks at 100 Hz.\<close>

lemma task_clock_round_effect:
  assumes "task_clock_round t k = (t', k')" "frequency (kpit k) = 100"
  shows "vidmem (kscreen k') 158 \<in> set clock_symbols" "\<And>i. i \<noteq> 158 \<Longrightarrow> i \<noteq> 159 \<Longrightarrow> vidmem (kscreen k') i = vidmem (kscreen k) i"
    "sleeping (tasks k' (current_task k))" "wake_tick (tasks k' (current_task k)) = ticks (kpit k) + 20"
    "sched_inv k \<Longrightarrow> sched_inv k'" "t' = t + 1"
proof -
  have "unat (t mod 4) < length clock_symbols" using unat_mod [of t 4] by (simp add: clock_symbols_def lit_def)
  moreover have k': "k' = set_sleep 200 (k\<lparr>kscreen := (kscreen k)\<lparr>vidmem := (vidmem (kscreen k))
      (158 := clock_symbols ! unat (t mod 4), 159 := 0x0E)\<rparr>\<rparr>)" "t' = t + 1"
    using assms(1) by (simp_all add: task_clock_round_def task_sleep_def clock_offset_def Let_def)
  ultimately show "vidmem (kscreen k') 158 \<in> set clock_symbols" by (simp add: set_sleep_def upd_task_def)
  show "vidmem (kscreen k') i = vidmem (kscreen k) i" if "i \<noteq> 158" "i \<noteq> 159" for i
    using that by (simp add: k' set_sleep_def upd_task_def)
  show "sleeping (tasks k' (current_task k))" "wake_tick (tasks k' (current_task k)) = ticks (kpit k) + 20" "t' = t + 1"
    using assms(2) by (simp_all add: k' set_sleep_def upd_task_def get_ticks_def ticks_to_wait_def pit_get_frequency_def Let_def)
  assume "sched_inv k"
  then have "sched_inv (k\<lparr>kscreen := scr\<rparr>)" for scr by (simp add: sched_inv_def)
  then show "sched_inv k'" unfolding k' by (rule set_sleep_inv)
qed

end
