(* ===== verification/System_Threads.thy ===== *)
theory System_Threads
  imports Boot
begin

text \<open>
  The kernel threads as they are written, the shell (\<open>kernel/shell.c\<close> with \<open>kernel/exec.c\<close>) and the clock (\<open>kernel.c\<close>), against
  the rules that theory System assumes of kernel threads: whatever they do to the kernel is a run of the system.
\<close>

text \<open>From any registers in ring 0.\<close>

definition runs_to :: "layout \<Rightarrow> nat \<Rightarrow> kernel \<Rightarrow> kernel \<Rightarrow> bool" where
  "runs_to L lo k k' \<longleftrightarrow> (\<forall>c. in_ring0 c \<longrightarrow> rtranclp (okstep L lo) (c, k) (c, k'))"

lemma runs_refl [simp]: "runs_to L lo k k"
  by (simp add: runs_to_def)

lemma runs_trans [trans]: "runs_to L lo k k1 \<Longrightarrow> runs_to L lo k1 k2 \<Longrightarrow> runs_to L lo k k2"
  by (auto simp: runs_to_def intro: rtranclp_trans)

lemma runs_call: "thread_call L lo k k' \<Longrightarrow> runs_to L lo k k'"
  unfolding runs_to_def by (auto simp: okstep_ring0 intro!: r_into_rtranclp intro: sysstep.call)

lemma runs_store: "thread_store lo k m' \<Longrightarrow> runs_to L lo k (k\<lparr>kmem := m'\<rparr>)"
  unfolding runs_to_def by (auto simp: okstep_ring0 intro!: r_into_rtranclp intro: sysstep.thread)

lemma runs_quiet: "quiet k' = quiet k \<Longrightarrow> runs_to L lo k k'"
  using runs_call [OF thread_call.print, of L lo k "kscreen k'"] quiet_eq [of k' k] by simp

lemma runs_screen: "runs_to L lo k k1 \<Longrightarrow> quiet k' = quiet k1 \<Longrightarrow> runs_to L lo k k'"
  using runs_trans runs_quiet by blast

subsection \<open>\<open>exec\<close>\<close>

text \<open>The windows of the four program slots are clear of heap and boot stack.\<close>

definition slots_clear :: "layout \<Rightarrow> nat \<Rightarrow> bool" where
  "slots_clear L lo \<longleftrightarrow> (\<forall>i < 4. window_clear L lo (SLOT_BASE i) USER_PROG_MAX_SIZE (exec_stack L i) EXEC_STACK_SIZE)"

lemma slot_not_reserved: "i < 4 \<Longrightarrow> x \<in> region (SLOT_BASE i) 0x20000 \<Longrightarrow> \<not> reserved lo x"
  using slot_window [of i x] by (auto simp: reserved_def)

lemma stack_not_reserved:
  assumes "slots_clear L lo" "i < 4" "x \<in> region (exec_stack L i) 512"
  shows "\<not> reserved lo x"
proof (cases "unat x < 4194304")
  case True
  let ?b = "exec_stack L i"
  have w: "window_clear L lo (SLOT_BASE i) USER_PROG_MAX_SIZE ?b EXEC_STACK_SIZE" using assms(1,2) by (simp add: slots_clear_def)
  then have b: "unat ?b + 4096 < 2 ^ 32" by (simp add: window_clear_def)
  then have "unat (?b + 4096) = unat ?b + 4096" by (intro unat_plus_numeral) simp
  moreover have "unat ?b \<le> unat x \<and> unat x < unat ?b + 512" using assms(3) region_iff [of ?b 512 x] b by simp
  ultimately have "?b \<le> x \<and> x < ?b + EXEC_STACK_SIZE" by (simp add: word_le_nat_alt word_less_nat_alt)
  then have "touches x ?b (?b + EXEC_STACK_SIZE)" by (auto simp: touches_def)
  then have "user_reaches L (SLOT_BASE i) USER_PROG_MAX_SIZE ?b EXEC_STACK_SIZE x" using True by (simp add: user_reaches_def)
  then show ?thesis using w by (simp add: window_clear_def)
qed (simp add: reserved_def)

lemma slot_store_runs:
  assumes "slots_clear L lo" "i < 4" "\<And>x. x \<notin> region (SLOT_BASE i) 0x20000 \<Longrightarrow> x \<notin> region (exec_stack L i) 512 \<Longrightarrow> m x = kmem k x"
  shows "runs_to L lo k (k\<lparr>kscreen := scr, kmem := m\<rparr>)"
proof -
  have "thread_store lo k m" unfolding thread_store_def
    using assms(3) slot_not_reserved [OF assms(2)] stack_not_reserved [OF assms(1,2)] by blast
  then show ?thesis by (rule runs_screen [OF runs_store]) (simp add: quiet_def)
qed

lemma exec_run_runs:
  assumes "current_task (kern M) = 0" "slots_clear L lo" "length argv < 128" "well_sized (staging M')"
    "exec_run L io name name_at argv M = Some (pid, M')"
  shows "runs_to L lo (kern M) (kern M')"
proof (cases "find_free_slot M = -1")
  case True
  then show ?thesis using assms(5) by (auto simp: exec_run_def mprint_def quiet_def intro: runs_quiet)
next
  case False
  with find_free_slot_cases [of M] obtain i where i: "find_free_slot M = int i" "i < 4" by auto
  let ?k = "kern M"
  let ?m0 = "mem_write (kmem ?k) (SLOT_BASE i) (replicate (unat USER_PROG_MAX_SIZE) 0)"
  note store = slot_store_runs [OF assms(2) i(2), of _ ?k]
  have m0: "?m0 x = kmem ?k x" if "x \<notin> region (SLOT_BASE i) 0x20000" for x using that by (intro mem_write_outside) simp_all
  obtain r out s' where f: "fs_load_file io (Some name) (elf_staging_at L) USER_PROG_MAX_SIZE ((fsys M)\<lparr>fcon := kscreen ?k\<rparr>) = (r, out, s')"
    by (metis prod_cases3)
  show ?thesis
  proof (cases r)
    case None
    then have "kern M' = ?k\<lparr>kscreen := fcon s', kmem := ?m0\<rparr>" using assms(5) i f by (auto simp: exec_run_def with_fs_def Let_def)
    then show ?thesis using store m0 by simp
  next
    case (Some n)
    obtain e m scr where e: "elf_load (mem_write (staging M) 0 out) n (SLOT_BASE i) USER_PROG_MAX_SIZE LINK_BASE ?m0 (fcon s') = (e, m, scr)"
      by (metis prod_cases3)
    obtain p m2 where b: "build_argv (exec_stack L i) argv m = (p, m2)" by fastforce
    show ?thesis
    proof (cases e)
      case None
      have M': "staging M' = mem_write (staging M) 0 out" "kern M' = ?k\<lparr>kscreen := scr, kmem := m\<rparr>"
        using assms(5) i f Some e None by (auto simp: exec_run_def with_fs_def Let_def)
      show ?thesis unfolding M'(2) by (rule store) (use elf_load_outside [OF _ _ e] assms(4) M'(1) m0 in simp)
    next
      case entry: (Some entry)
      let ?c = "create_user_task_argv L entry name_at (exec_stack L i + EXEC_STACK_SIZE) EXEC_STACK_SIZE (SLOT_BASE i)
       USER_PROG_MAX_SIZE (of_nat (length argv)) p (?k\<lparr>kscreen := scr, kmem := m2\<rparr>)"
      obtain q k where c: "?c = Ret q k" "staging M' = mem_write (staging M) 0 out" "quiet (kern M') = quiet k"
        using assms(5) i f Some e entry b
        by (cases ?c) (auto simp: exec_run_def with_fs_def Let_def mprint_def quiet_def split: if_splits)
      have ws: "well_sized (mem_write (staging M) 0 out)" using assms(4) c(2) by simp
      have "runs_to L lo ?k (?k\<lparr>kscreen := scr, kmem := m2\<rparr>)" by (rule store) (rule loaded_frame(1) [OF ws assms(3) e b])
      also have "runs_to L lo (?k\<lparr>kscreen := scr, kmem := m2\<rparr>) k"
        by (rule runs_call, rule thread_call.create_user [OF _ _ c(1)]) (use assms(1,2) i(2) in \<open>simp_all add: slots_clear_def\<close>)
      finally show ?thesis using c(3) by (rule runs_screen)
    qed
  qed
qed

lemma cmd_exec_runs:
  assumes "current_task (kern (mach s)) = 0" "slots_clear L lo" "cmd_exec L io s = Running s'" "well_sized (staging (mach s'))"
  shows "runs_to L lo (kern (mach s)) (kern (mach s'))"
proof -
  obtain b argv where x: "exec_args (input_buffer s) (skip_spaces (input_buffer s) 5) [] = (b, argv)" by fastforce
  have n: "length argv \<le> 8" using exec_args_bounds [of "[]" "input_buffer s" "skip_spaces (input_buffer s) 5"] x by simp
  show ?thesis
  proof (cases "argv = []")
    case True
    then have "bare s' = bare s" using assms(3) x by (auto simp: cmd_exec_def)
    then show ?thesis by (rule runs_quiet)
  next
    case False
    then obtain pid where "exec_run L io (cname (drop (hd argv) b)) (input_buffer_at L + of_nat (hd argv))
        (map (\<lambda>p. cname (drop p b)) argv) (mach s) = Some (pid, mach s')"
      using assms(3) x by (auto simp: cmd_exec_def split: option.splits)
    from exec_run_runs [OF assms(1,2) _ assms(4) this] n show ?thesis by simp
  qed
qed

subsection \<open>The other commands\<close>

lemma cmd_kill_runs:
  assumes "current_task (kern (mach s)) = 0"
  shows "runs_to L lo (kern (mach s)) (kern (mach (cmd_kill s)))"
proof -
  obtain v p where v: "read_num (input_buffer s) (skip_spaces (input_buffer s) 5) 0 = (v, p)" by fastforce
  obtain ok k where k: "task_kill v (kern (mach s)) = (ok, k)" by fastforce
  have r: "runs_to L lo (kern (mach s)) k" by (rule runs_call, rule thread_call.kill [OF assms k])
  have "bare (cmd_kill s) = bare s \<or> bare (cmd_kill s) = quiet k" by (simp add: cmd_kill_def Let_def v k)
  then show ?thesis using runs_screen [OF r] runs_quiet by blast
qed

lemma cmd_priority_runs: "runs_to L lo (kern (mach s)) (kern (mach (cmd_priority s)))"
proof -
  have "bare (cmd_priority s) = bare s \<or> (\<exists>pid level. bare (cmd_priority s) = quiet (task_set_priority pid level (kern (mach s))))"
    by (simp add: cmd_priority_def Let_def split: prod.splits) blast
  then show ?thesis using runs_screen [OF runs_call [OF thread_call.set_priority]] runs_quiet by blast
qed

lemma quiet_commands:
  "bare (cmd_write io s) = bare s" "cmd_ps L s = Running s' \<Longrightarrow> bare s' = bare s" "cmd_mem s = Running s' \<Longrightarrow> bare s' = bare s"
  "bare (cmd_uptime s) = bare s" "cmd_reboot io s \<noteq> Running s'"
  by (auto simp: cmd_write_def cmd_ps_def cmd_mem_def cmd_uptime_def cmd_reboot_def Let_def split: option.splits)

lemma shell_command_runs:
  assumes "current_task (kern (mach s)) = 0" "slots_clear L lo" "shell_command L io s = Running s'" "well_sized (staging (mach s'))"
  shows "runs_to L lo (kern (mach s)) (kern (mach s'))"
proof -
  consider "bare s' = bare s" | "cmd_exec L io s = Running s'" | "s' = cmd_kill s" | "s' = cmd_priority s"
    using assms(3) quiet_commands by (fastforce simp: shell_command_def split: if_splits)
  then show ?thesis
  proof cases
    case 1
    then show ?thesis by (rule runs_quiet)
  next
    case 2
    then show ?thesis using cmd_exec_runs [OF assms(1,2) _ assms(4)] by blast
  next
    case 3
    then show ?thesis using cmd_kill_runs [OF assms(1)] by blast
  next
    case 4
    then show ?thesis using cmd_priority_runs by blast
  qed
qed

lemma history_keys_bare: "bare (history_up s) = bare s" "bare (history_down s) = bare s"
  by (simp_all add: history_up_def history_down_def history_load_def redraw_input_line_def Let_def quiet_def shdo_def)

lemma shell_update_runs:
  assumes "current_task (kern (mach s)) = 0" "slots_clear L lo" "shell_update L io ch s = Running s'" "well_sized (staging (mach s'))"
  shows "runs_to L lo (kern (mach s)) (kern (mach s'))"
proof (cases "ch = 10")
  case False
  then have "bare s' = bare s" using assms(3) history_keys_bare by (auto simp: shell_update_def split: if_splits)
  then show ?thesis by (rule runs_quiet)
next
  case True
  let ?c = "committed io s"
  obtain t where t: "shell_command L io ?c = Running t" "s' = (shprint ([10] @ lit ''> '') t)\<lparr>buffer_idx := 0\<rparr>"
    using True assms(3) by (auto simp: shell_update_def shell_execute_committed split: result.splits)
  have q: "bare ?c = bare s" by (rule committed_bare)
  then have "current_task (kern (mach ?c)) = 0" using assms(1) by (metis quiet_fields(5))
  moreover have "staging (mach t) = staging (mach s')" by (simp add: t(2) shprint_def mprint_def)
  ultimately have "runs_to L lo (kern (mach ?c)) (kern (mach t))" using shell_command_runs [OF _ assms(2) t(1)] assms(4) by simp
  with runs_quiet [OF q] have "runs_to L lo (kern (mach s)) (kern (mach t))" by (rule runs_trans)
  moreover have "bare s' = bare t" by (simp add: t(2))
  ultimately show ?thesis by (rule runs_screen)
qed

subsection \<open>The message poll\<close>

lemma poll_frame: "x \<notin> region a 136 \<Longrightarrow> x \<notin> region a 128 \<and> x \<notin> region (a + 128) 4 \<and> x \<notin> region (a + 132) 4"
  by (auto simp: region_shift_numeral intro: region_mono)

lemma frame_store:
  assumes "current_task k = 0" "lo \<le> unat a" "unat a + 136 \<le> 0x90000" "\<And>x. x \<notin> region a 136 \<Longrightarrow> m' x = kmem k x"
  shows "thread_store lo k m'"
proof -
  have "on_stack lo k 0 x" if "x \<in> region a 136" for x
    using that region_iff [of a 136 x] assms(2,3) by (auto simp: on_stack_def stack_low_def stack_high_def)
  then show ?thesis using assms(1,4) by (auto simp: thread_store_def)
qed

lemma ipc_recv_frame:
  assumes "ipc_recv a (a + 128) (a + 132) k = (r, k')" "mbox_ok (cur k)" "x \<notin> region a 136"
  shows "kmem k' x = kmem k x"
proof -
  obtain v k1 where v: "ipc_recv_msg a k = (v, k1)" by fastforce
  have "kmem k1 x = kmem k x" using recv_msg_roles(2) [OF v assms(2)] poll_frame [OF assms(3)] by blast
  then show ?thesis using assms(1) v poll_frame [OF assms(3)]
    by (auto simp: ipc_recv_def Let_def wr32_outside split: option.splits if_splits)
qed

lemma poll_ipc_runs:
  assumes "sched_inv (kern (mach s))" "current_task (kern (mach s)) = 0" "lo \<le> unat a" "unat a + 136 \<le> 0x90000"
    "shell_poll_ipc a s = Running s'"
  shows "runs_to L lo (kern (mach s)) (kern (mach s'))"
proof -
  let ?k = "kern (mach s)"
  define m0 where "m0 = wr32 (wr32 (kmem ?k) (a + 128) 0) (a + 132) (-1)"
  obtain r k1 where r: "ipc_recv a (a + 128) (a + 132) (?k\<lparr>kmem := m0\<rparr>) = (r, k1)" by fastforce
  have mb: "mbox_ok (cur (?k\<lparr>kmem := m0\<rparr>))" using assms(1) by (simp add: sched_inv_def table_inv_def)
  have "thread_store lo ?k m0"
    by (rule frame_store [OF assms(2-4)]) (use poll_frame [of _ a] in \<open>simp add: m0_def wr32_outside\<close>)
  then have "runs_to L lo ?k (?k\<lparr>kmem := m0\<rparr>)" by (rule runs_store)
  also have "thread_store lo (?k\<lparr>kmem := m0\<rparr>) (kmem k1)"
    by (rule frame_store [OF _ assms(3,4)]) (use assms(2) ipc_recv_frame [OF r mb] in simp_all)
  then have "runs_to L lo (?k\<lparr>kmem := m0\<rparr>) k1" using r by (intro runs_call thread_call.recv)
  finally have k1: "runs_to L lo ?k k1" .
  have c1: "current_task k1 = 0"
  proof -
    obtain t where "k1 = upd_task (current_task ?k) (\<lambda>_. t) (?k\<lparr>kmem := kmem k1\<rparr>)" using ipc_recv_upd [OF r] by auto
    then have "current_task k1 = current_task (upd_task (current_task ?k) (\<lambda>_. t) (?k\<lparr>kmem := kmem k1\<rparr>))" by (rule arg_cong)
    then show ?thesis using assms(2) by (simp add: upd_task_def)
  qed
  define m1 where "m1 = (if rd32 (kmem k1) (a + 128) \<ge> 128 then wr32 (kmem k1) (a + 128) 127 else kmem k1)"
  define m2 where "m2 = m1(a + rd32 m1 (a + 128) := 0)"
  have "rd32 m1 (a + 128) < 128" by (auto simp: m1_def not_le)
  then have "a + rd32 m1 (a + 128) \<in> region a 136" by (simp add: in_region word_less_nat_alt)
  then have "m2 x = kmem k1 x" if "x \<notin> region a 136" for x
    using that poll_frame [OF that] by (auto simp: m2_def m1_def wr32_outside)
  then have "thread_store lo k1 m2" by (rule frame_store [OF c1 assms(3,4)])
  with k1 have k2: "runs_to L lo ?k (k1\<lparr>kmem := m2\<rparr>)" using runs_trans runs_store by blast
  have "bare s' = quiet k1 \<or> bare s' = quiet (k1\<lparr>kmem := m2\<rparr>)"
    using assms(5) r by (auto simp: shell_poll_ipc_def Let_def m0_def [symmetric] m1_def m2_def split: if_splits option.splits)
  then show ?thesis using runs_screen [OF k1] runs_screen [OF k2] by blast
qed

lemma clock_runs:
  assumes "task_clock_round t k = (t', k')"
  shows "runs_to L lo k k'"
proof -
  obtain scr where "k' = task_sleep 200 (k\<lparr>kscreen := scr\<rparr>)" using assms by (auto simp: task_clock_round_def Let_def)
  then show ?thesis using runs_trans [OF runs_call [OF thread_call.print [of L lo k scr]] runs_call [OF thread_call.sleep [of L lo _ 200]]] by simp
qed

subsection \<open>Property\<close>

text \<open>C4. What the shell and the clock do to the kernel is built from the steps that the rules of the running system allow to
  kernel threads. Whatever key the shell handles, with whatever command line, disk and disk answers, from any registers in ring 0 there is a run of
  the system to the kernel it leaves, also when a program is loaded and started, a task killed or a command refused; so for its poll
  for messages, and for each round of the clock. Assumed: the scheduler invariant holds and the shell is the current task; the windows and stacks of the program slots lie
  clear of heap and boot stack (\<open>slots_clear\<close>), which is up to the linker; the locals of the poll lie on the boot stack; the ELF image that was last staged has no
  segment with more file bytes than memory bytes, which the loader does not check. Each command is taken without an interrupt
  in its midst, although the shell runs with interrupts enabled (\<open>task_kill_race\<close> shows what an interrupt there can do), and that a thread's stack
  has room for an interrupt frame, an assumption of the timer step, is not part of this statement.\<close>

theorem kernel_threads_conform:
  assumes "sched_inv (kern (mach s))" "current_task (kern (mach s)) = 0" "slots_clear L lo" "lo \<le> unat locals" "unat locals + 136 \<le> 0x90000"
  shows "(shell_update L io ch s = Running s' \<and> well_sized (staging (mach s')) \<longrightarrow> runs_to L lo (kern (mach s)) (kern (mach s'))) \<and>
    (shell_poll_ipc locals s = Running s' \<longrightarrow> runs_to L lo (kern (mach s)) (kern (mach s'))) \<and>
    (task_clock_round t k = (t', k') \<longrightarrow> runs_to L lo k k')"
  using shell_update_runs [OF assms(2,3)] poll_ipc_runs [OF assms(1,2,4,5)] clock_runs by blast

lemma example_slots: "slots_clear example_layout 0x80000"
proof -
  have "window_clear example_layout 0x80000 (SLOT_BASE i) USER_PROG_MAX_SIZE (exec_stack example_layout i) EXEC_STACK_SIZE" if "i < 4" for i
  proof -
    have "i = 0 \<or> i = 1 \<or> i = 2 \<or> i = 3" using that by arith
    then show ?thesis
      by (elim disjE) (auto simp: window_clear_def user_reaches_def touches_iff example_layout_def reserved_def SLOT_BASE_def)
  qed
  then show ?thesis by (simp add: slots_clear_def)
qed

lemma killed_dead:
  assumes "active (tasks k 1)" "current_task k = 0"
  shows "\<not> active (tasks (snd (task_kill 1 k)) 1)"
  using assms by (simp add: task_kill_def valid_pid_def upd_task_def end_task_eq mailbox_reset_def fold_upd Let_def)

text \<open>The line \<open>kill 1\<close>, entered in the shell while the clock runs as task 1: the clock ends, by steps of the system.\<close>

theorem kernel_threads_conform_witness:
  "\<exists>s s'. active (tasks (kern (mach s)) 1) \<and> cur_line s = lit ''kill 1'' \<and>
    shell_update example_layout (reference_drive 3) 10 s = Running s' \<and> \<not> active (tasks (kern (mach s')) 1) \<and>
    runs_to example_layout 0x80000 (kern (mach s)) (kern (mach s'))"
proof -
  obtain k1 where k1: "sched_inv k1" "live_tasks (tasks k1) = {0, 1}" "current_task k1 = 0"
    using boot_clock_task [where L = example_layout and m = "\<lambda>_. 0" and scr = boot_screen] by blast
  let ?M = "(tiny_machine (new_fs 3))\<lparr>kern := k1\<rparr>"
  let ?s = "(boot_shell ?M)\<lparr>input_buffer := overlay 6 (lit ''kill 1'') (replicate 256 0), buffer_idx := 6\<rparr>"
  have l: "length (lit ''kill 1'') = 6" "lit ''kill 1'' = lit ''kill '' @ [49]" by (simp_all add: lit_def)
  note s = shell_kill_line [of "lit ''kill 1''" ?M, unfolded l(1)]
  have k: "kern (mach ?s) = k1" "staging (mach ?s) = (\<lambda>_. 0)" by (simp_all add: boot_shell_def tiny_machine_def)
  have "dec_value [49] = 1" "\<forall>c \<in> set [49]. is_digit c" by (simp_all add: dec_value_def is_digit_def)
  with kill_line [OF s(1), of "[49]" example_layout "reference_drive 3"] s(2) l obtain s' where
    s': "shell_execute example_layout (reference_drive 3) ?s = Running s'" "staging (mach s') = (\<lambda>_. 0)"
    "quiet (kern (mach s')) = quiet (snd (task_kill 1 k1))" using k by auto
  have a: "active (tasks k1 1)" using k1(2) by (auto simp: live_tasks_def)
  have "tasks (kern (mach s')) = tasks (snd (task_kill 1 k1))" using s'(3) by (metis quiet_fields(1))
  then have dead: "\<not> active (tasks (kern (mach s')) 1)" using killed_dead [OF a k1(3)] by simp
  have u: "shell_update example_layout (reference_drive 3) 10 ?s = Running s'" using s'(1) by (simp add: shell_update_def)
  have "well_sized (staging (mach s'))" by (simp add: s'(2) program_headers_def read_ehdr_def rd16_def)
  moreover have "sched_inv (kern (mach ?s))" "current_task (kern (mach ?s)) = 0" using k1 k(1) by simp_all
  ultimately have "runs_to example_layout 0x80000 (kern (mach ?s)) (kern (mach s'))"
    using kernel_threads_conform [of ?s example_layout "0x80000" "0x8F000" "reference_drive 3" 10 s'] example_slots u by simp
  then show ?thesis using a k(1) s(2) u dead by (intro exI [of _ ?s] exI [of _ s']) simp
qed

end
