(* ===== verification/Spec2Isabelle.thy ===== *)
theory Spec2Isabelle
  imports System_Threads
begin

text \<open>
  MxOS, a 32-bit x86 kernel with a shell, a file system and user programs: verification development.

  \<^bold>\<open>The program.\<close> \<open>main_entry\<close> (\<open>kernel/init.c\<close>) sets up the machine and then polls the shell for ever. The
  timer interrupt drives a scheduler of at most 16 tasks with kernel stacks from a first-fit heap; ring-3
  tasks have address spaces of their own and enter the kernel through \<open>int 0x80\<close>. Tasks exchange messages through
  mailboxes. The keyboard interrupt feeds a queue that the shell reads; its commands use the file system on an
  ATA disk and start ELF programs, which get their arguments on their stack and talk to the kernel through the
  small library of \<open>userprogs/\<close>.

  \<^bold>\<open>The theories\<close>, each after those it imports:

    \<^item> \<open>Mx_Prelude\<close>: words, byte memory (\<open>mem\<close>, a function from addresses to bytes), regions, 32-bit accesses,
      array loops, and \<open>layout\<close>, the link-time addresses;
    \<^item> \<open>Allocator\<close>, \<open>Ring\<close>, \<open>Slot_Pool\<close>, \<open>Block_Device\<close>: the interfaces between components, as locales: an
      allocator of disjoint extents, a bounded queue, a pool of numbered slots, a disk with sectors;
    \<^item> \<open>Mem\<close> (\<open>kernel/mem.c\<close>): the heap with its block headers in memory; interprets the allocator;
    \<^item> \<open>Keyboard\<close> (\<open>keyboard.c\<close>), \<open>Screen\<close> (\<open>screen.c\<close>, \<open>serial.c\<close>), \<open>Pit\<close> (\<open>pit.c\<close>), \<open>Gdt\<close> (\<open>gdt.c\<close>), \<open>Interrupts\<close>
      (\<open>interrupts.c\<close>, \<open>exceptions.c\<close>): the devices and descriptor tables; the key queue interprets the bounded queue;
    \<^item> \<open>Paging\<close> (\<open>paging.c\<close>): page tables, address spaces per task, and what the processor does with them; interprets
      the slot pool;
    \<^item> \<open>Mailbox\<close>, \<open>Sched\<close>, \<open>Election\<close>, \<open>Task_Life\<close>, \<open>Sleep_Ipc\<close> (\<open>sched.c\<close>): mailboxes (a second bounded queue), the task
      table and its operations, the election, creation and end of tasks with the invariant \<open>sched_inv\<close> over
      task table, heap and address spaces, sleeping and messages;
    \<^item> \<open>Syscall\<close>, \<open>Trap\<close> (\<open>syscall.c\<close>, the handlers of \<open>sched.c\<close>): the dispatcher on the saved registers, and the
      whole way from the registers of an interrupted program to those of the one that runs next, with what becomes of
      the data segment registers, which no handler saves;
    \<^item> \<open>System\<close>, \<open>System_Steps\<close>, \<open>System_Run\<close>: the running system as one step relation on registers and kernel state, with
      arbitrary ring-3 computation, kernel threads, interrupts and system calls in any order (\<open>sysstep\<close>; \<open>okstep\<close> are the
      steps in which programs give \<open>SYS_RECV\<close> only buffers of their own, which the kernel does not check); the invariant
      \<open>run_inv\<close>, that every step keeps it and the saved contexts, and the consequences for whole runs; \<open>Multiplexer\<close>
      states the interface, a processor shared among tasks, as a locale that the step relation interprets;
    \<^item> \<open>Ata\<close> (\<open>drivers/ata.c\<close>): the PIO protocol over any device behind the ports (\<open>ports\<close>, a parameter), and a
      reference drive that instantiates it and interprets the disk interface;
    \<^item> \<open>Fs\<close>, \<open>Fs_Dir\<close>, \<open>Fs_Store\<close>, \<open>Fs_Fault\<close>, \<open>Fs_Spec\<close> (\<open>drivers/fs.c\<close>): the code; names, directory and bitmap; files
      on a healthy disk; behaviour under transfer errors; the refinement of a map from names to contents;
    \<^item> \<open>Elf\<close> (\<open>elf.c\<close>), \<open>Exec\<close> (\<open>exec.c\<close>): loading and relocation, slots, argument area, \<open>exec_run\<close>;
    \<^item> \<open>Shell\<close> (\<open>shell.c\<close>, \<open>cpu.c\<close>) with \<open>Shell_Line\<close>, \<open>Shell_Parse\<close>, \<open>Shell_History\<close>, \<open>Shell_Spec\<close>, \<open>Shell_Run\<close>: the code; line
      editing; the words of a command; the history on disk; bounds and keys; commands and messages end to end;
    \<^item> \<open>User\<close> (\<open>userprogs/libc.c\<close>, \<open>echo_user.c\<close>, \<open>hello_user.c\<close>, \<open>kernel/usermode.c\<close>): the ring-3 side as trees of
      system calls over the program's memory;
    \<^item> \<open>Boot\<close> (\<open>init.c\<close>, \<open>kernel.c\<close>): \<open>main_entry\<close>, its loop, and the clock task: all components together;
    \<^item> \<open>System_Threads\<close>: what the shell with its commands and the clock do to the kernel is made of steps that \<open>System\<close> allows
      to kernel threads.

  \<^bold>\<open>State.\<close> The record \<open>kernel\<close> holds byte memory, heap start, timer, descriptor tables, paging, screen and task
  table; \<open>machine\<close> adds file system and loader, \<open>shell\<close> the statics of the shell and the key queue. Kernel statics are
  fields, not bytes of memory: stray pointers into them are not modelled, while user stacks, code windows, heap
  and kernel stacks are bytes, and their overlap is part of the statements. The buffers of shell and file
  system are lists of fixed length; the ELF staging buffer is a function of the offset. Statements about a
  system call are about the bytes it writes; the C frames below the saved stack pointer are left out.

  \<^bold>\<open>Errors and loops.\<close> Error returns are values as in the code (-1, 0, \<open>None\<close>). \<open>outcome\<close> separates return, a halted
  machine and divergence; \<open>result\<close> does so for the shell. A loop that may not end is a \<open>partial_function\<close> with \<open>None\<close>
  for divergence (string loops, the serial wait, the search of the heap), and returning is then a proved fact
  (\<open>kmalloc_safe\<close>, \<open>kprint_waits\<close>, \<open>echo_run\<close>). The polls of the ATA driver are counted as in the code. There is
  no fuel. Every byte printed first waits for the UART, without a bound. \<open>kprint_wait\<close> and \<open>main_entry_wait\<close> have these waits, for an
  arbitrary sequence of line status values; the other components use \<open>kprint\<close>, which is \<open>kprint_wait\<close> with
  all waits ended (\<open>kprint_wait_eq\<close>), so what they are shown to do is what the code does with a UART that gets ready again and again.

  \<^bold>\<open>What is shown.\<close> Memory: allocations are fresh, aligned and disjoint; the task table, the heap and the
  address spaces always agree. Scheduling: the election policy, bounded waiting, the context switch, and that a
  preempted ring-3 task and every suspended one get back the registers of their frame: the general ones, EIP, EFLAGS, ESP, CS, SS. The running system: in every run from the start of
  multitasking, ring 3 writes neither heap nor kernel stacks nor memory that is open to another task only, the timer interrupt returns, and a task interrupted or put to
  sleep later continues with those registers, whatever ran in between, all under the assumptions listed below; the shell and the clock, as written, are made of the steps that this allows to kernel threads. Isolation: what ring 3 reaches in its address space, which
  vectors it can call, and that starting a program leaves the others alone. Messages: bounded FIFO, delivery
  unchanged, from a user program to the text on the console. Files: refinement of a map, round trips across
  write, load and mount, confinement of writes under faults, no access behind the arrays of the file system. Loader: bounds of the writes, correctness of
  relocation, the text of a started program against its file, its start state and its arguments. Shell: bounds for all input, equivalence of the
  in-place parser with word splitting, persistence of the history, effect of \<open>kill\<close>. Start-up: the main loop is
  reached unless the UART hangs, with three tasks and all invariants, in a state of the running system. Theorems marked as remarks are facts that explain a
  limit of the code: overflows, missing checks of user pointers, the I/O map of the TSS, a race of \<open>task_kill\<close> with the timer, sleeps that are too short, data segments that are null in ring 3.

  \<^bold>\<open>Parameters and hypotheses.\<close> \<open>layout\<close> (addresses), \<open>ports\<close> (the device behind the ATA ports, with the laws of the
  locales \<open>block_device\<close> and \<open>reliable_device\<close> where a disk is meant), the lowest address that the shell's stack reaches, the bytes of the two embedded ELF files, the addresses of
  constants in user programs, the line status register. Each law is witnessed on the reference drive.
  The runs of the system (\<open>sys_reachable\<close>) assume of the code and of programs what the code does not enforce: programs pass to \<open>SYS_RECV\<close> only
  buffers that they may write; the calls of shell and clock into the kernel are not interrupted in their midst; kernel threads have room for a frame on their stack and write
  only there and outside heap and boot stack; a program's stores into the shared image leave the kernel's statics alone. The loader properties assume
  that no segment has more bytes in the file than in memory. The counter of shell commands, a C \<open>int\<close>, is a natural number; \<open>shell_bounds\<close> shows when it stays below 2\<open>^\<close>31.

  \<^bold>\<open>Not modelled.\<close> \<open>boot.asm\<close>, \<open>padding.asm\<close>, the linker scripts and build files (16-bit assembly and generated
  addresses); interrupts that arrive in the middle of a C function of the kernel (handlers run with interrupts
  disabled; the shell's commands are taken as steps, and the remark \<open>task_kill_race\<close> shows a harm that this leaves out); DS, ES, FS and GS outside theory
  Trap; caches and the translation buffer.
\<close>

end
